(* ===== verification/Prelude.thy ===== *)
theory Prelude
  imports Main "HOL-Library.Word"
begin

text \<open>
  What every component of the client shares: machine integers, Go's two ways of failing
  (an \<open>error\<close> value and a run-time panic), the two result types built on them, and the
  list facts behind the in-place buffer updates.
  \<^item> A pure Go function that may fail returns \<open>'a res = fault + 'a\<close>; \<open>rbind\<close> is
    "return early on failure".
  \<^item> A Go method that also changes its receiver is a \<open>('s, 'a) go\<close>, a function from the
    state to the outcome and the state left behind; a failure keeps the changes made
    before it, as the code does. \<open>andThen\<close> sequences two of them.
\<close>

unbundle bit_operations_syntax

section \<open>Machine integers\<close>

text \<open>
  \<open>byte\<close>, \<open>uint16\<close>, \<open>uint32\<close>: Go's unsigned types. An \<open>int32\<close> is the same 32 bits
  read through \<open>sint\<close>, so the conversions \<open>int32(x)\<close> and \<open>uint32(x)\<close> between the two are
  the identity here.
\<close>

type_synonym byte = "8 word"
type_synonym u16 = "16 word"
type_synonym u32 = "32 word"
type_synonym i32 = "32 word"

named_theorems go_simps \<open>evaluation of the outcome of a Go computation\<close>
named_theorems le_simps \<open>little-endian encoding and decoding\<close>

section \<open>Failures and results\<close>

datatype fault = Error string | Panic

type_synonym 'a res = "fault + 'a"

definition rbind :: "'a res \<Rightarrow> ('a \<Rightarrow> 'b res) \<Rightarrow> 'b res" where
  "rbind r f = (case r of Inl e \<Rightarrow> Inl e | Inr x \<Rightarrow> f x)"

lemma rbind_simps [simp, go_simps]:
  "rbind (Inl e) f = Inl e"
  "rbind (Inr x) f = f x"
  by (simp_all add: rbind_def)

lemma rbind_Inr_iff: "rbind r f = Inr y \<longleftrightarrow> (\<exists>x. r = Inr x \<and> f x = Inr y)"
  by (cases r) auto

lemma rbind_Panic_iff:
  "rbind r f = Inl Panic \<longleftrightarrow> r = Inl Panic \<or> (\<exists>x. r = Inr x \<and> f x = Inl Panic)"
  by (cases r) auto

lemma rbind_Inl_iff:
  "rbind r f = Inl e \<longleftrightarrow> r = Inl e \<or> (\<exists>x. r = Inr x \<and> f x = Inl e)"
  by (cases r) auto

lemma rbind_cong [fundef_cong]:
  "r = r' \<Longrightarrow> (\<And>x. r' = Inr x \<Longrightarrow> f x = g x) \<Longrightarrow> rbind r f = rbind r' g"
  by (cases r') auto

type_synonym ('s, 'a) go = "'s \<Rightarrow> 'a res \<times> 's"

definition ret :: "'a \<Rightarrow> ('s, 'a) go" where
  "ret x = (\<lambda>s. (Inr x, s))"

definition throw :: "fault \<Rightarrow> ('s, 'a) go" where
  "throw e = (\<lambda>s. (Inl e, s))"

definition andThen :: "('s, 'a) go \<Rightarrow> ('a \<Rightarrow> ('s, 'b) go) \<Rightarrow> ('s, 'b) go" where
  "andThen m f = (\<lambda>s. case m s of (Inl e, t) \<Rightarrow> (Inl e, t) | (Inr x, t) \<Rightarrow> f x t)"

definition getS :: "('s, 's) go" where
  "getS = (\<lambda>s. (Inr s, s))"

definition modifyS :: "('s \<Rightarrow> 's) \<Rightarrow> ('s, unit) go" where
  "modifyS f = (\<lambda>s. (Inr (), f s))"

definition liftR :: "'a res \<Rightarrow> ('s, 'a) go" where
  "liftR r = (\<lambda>s. (r, s))"

text \<open>\<open>err == nil\<close> as a boolean result; a panic still unwinds.\<close>

definition succeeds :: "('s, 'a) go \<Rightarrow> ('s, bool) go" where
  "succeeds m = (\<lambda>s. case m s of
     (Inr _, t) \<Rightarrow> (Inr True, t)
   | (Inl (Error _), t) \<Rightarrow> (Inr False, t)
   | (Inl Panic, t) \<Rightarrow> (Inl Panic, t))"

lemma go_basic [simp, go_simps]:
  "ret x s = (Inr x, s)"
  "throw e s = (Inl e, s)"
  "getS s = (Inr s, s)"
  "modifyS f s = (Inr (), f s)"
  "liftR r s = (r, s)"
  by (simp_all add: ret_def throw_def getS_def modifyS_def liftR_def)

lemma andThen_Inr [go_simps]: "m s = (Inr x, t) \<Longrightarrow> andThen m f s = f x t"
  by (simp add: andThen_def)

lemma andThen_Inl [go_simps]: "m s = (Inl e, t) \<Longrightarrow> andThen m f s = (Inl e, t)"
  by (simp add: andThen_def)

lemma andThen_basic [simp]:
  "andThen (ret x) f s = f x s"
  "andThen (throw e) f s = (Inl e, s)"
  "andThen getS g t = g t t"
  "andThen (modifyS u) h s = h () (u s)"
  "andThen (liftR (Inr x)) f s = f x s"
  "andThen (liftR (Inl e)) f s = (Inl e, s)"
  by (simp_all add: andThen_def)

lemma andThen_InrE:
  assumes "andThen m f s = (Inr y, u)"
  obtains x t where "m s = (Inr x, t)" and "f x t = (Inr y, u)"
  using assms by (auto simp: andThen_def split: prod.splits sum.splits)

lemma andThen_InlE:
  assumes "andThen m f s = (Inl e, u)"
  obtains "m s = (Inl e, u)" | x t where "m s = (Inr x, t)" and "f x t = (Inl e, u)"
  using assms by (auto simp: andThen_def split: prod.splits sum.splits)

lemma andThen_assoc: "andThen (andThen m f) g = andThen m (\<lambda>x. andThen (f x) g)"
  by (rule ext) (simp add: andThen_def split: prod.splits sum.splits)

text \<open>
  A relation between the state before and after that is kept by both halves is kept by the
  sequence, whatever the outcome: the frame and invariant proofs of the client are
  instances of this.
\<close>

definition keeps :: "('s \<Rightarrow> 's \<Rightarrow> bool) \<Rightarrow> ('s, 'a) go \<Rightarrow> bool" where
  "keeps R m \<longleftrightarrow> (\<forall>s. R s (snd (m s)))"

lemma keepsD: "keeps R m \<Longrightarrow> R s (snd (m s))"
  by (simp add: keeps_def)

lemma keeps_basic:
  assumes "reflp R"
  shows "keeps R (ret x)" "keeps R (throw e)" "keeps R getS" "keeps R (liftR r)"
  using assms by (auto simp: keeps_def reflp_def)

lemma keeps_modifyS: "(\<And>s. R s (f s)) \<Longrightarrow> keeps R (modifyS f)"
  by (simp add: keeps_def)

lemma keeps_andThen:
  assumes "transp R" and "keeps R m" and "\<And>x. keeps R (f x)"
  shows "keeps R (andThen m f)"
  unfolding keeps_def
proof
  fix s
  obtain r t where m: "m s = (r, t)" by (cases "m s")
  with assms(2) have st: "R s t" by (metis keepsD snd_conv)
  show "R s (snd (andThen m f s))"
  proof (cases r)
    case (Inl e)
    with m st show ?thesis by (simp add: andThen_def)
  next
    case (Inr x)
    from assms(3) have "R t (snd (f x t))" by (rule keepsD)
    with assms(1) st have "R s (snd (f x t))" by (rule transpD)
    with m Inr show ?thesis by (simp add: andThen_def)
  qed
qed

lemma keeps_succeeds: "keeps R m \<Longrightarrow> keeps R (succeeds m)"
  by (auto simp: keeps_def succeeds_def split: prod.splits sum.splits fault.splits) (metis snd_conv)+

text \<open>An invariant every outcome keeps, panics and errors included.\<close>

named_theorems preserve_rules \<open>computations that keep an invariant\<close>

definition preserves :: "('s \<Rightarrow> bool) \<Rightarrow> ('s, 'a) go \<Rightarrow> bool" where
  "preserves P m \<longleftrightarrow> keeps (\<lambda>s t. P s \<longrightarrow> P t) m"

lemma preservesD: "preserves P m \<Longrightarrow> P s \<Longrightarrow> P (snd (m s))"
  by (simp add: preserves_def keeps_def)

lemma preservesI: "(\<And>s r t. P s \<Longrightarrow> m s = (r, t) \<Longrightarrow> P t) \<Longrightarrow> preserves P m"
  by (simp add: preserves_def keeps_def) (metis prod.collapse)

lemma preserves_basic [preserve_rules]:
  "preserves P (ret x)" "preserves P (throw e)" "preserves P getS" "preserves P (liftR r)"
  by (simp_all add: preserves_def keeps_def)

lemma preserves_modifyS [preserve_rules]: "(\<And>s. P s \<Longrightarrow> P (f s)) \<Longrightarrow> preserves P (modifyS f)"
  by (simp add: preserves_def keeps_def)

lemma preserves_andThen [preserve_rules]:
  "preserves P m \<Longrightarrow> (\<And>x. preserves P (f x)) \<Longrightarrow> preserves P (andThen m f)"
  unfolding preserves_def by (intro keeps_andThen) (auto simp: transp_def)

lemma preserves_if [preserve_rules]:
  "(b \<Longrightarrow> preserves P m) \<Longrightarrow> (\<not> b \<Longrightarrow> preserves P n) \<Longrightarrow> preserves P (if b then m else n)"
  by simp

lemma preserves_succeeds [preserve_rules]: "preserves P m \<Longrightarrow> preserves P (succeeds m)"
  unfolding preserves_def by (rule keeps_succeeds)

text \<open>A computation that does not panic, whatever state it starts from.\<close>

named_theorems safe_rules \<open>computations that never panic\<close>

definition never_panics :: "('s, 'a) go \<Rightarrow> bool" where
  "never_panics m \<longleftrightarrow> (\<forall>s. fst (m s) \<noteq> Inl Panic)"

lemma never_panicsD: "never_panics m \<Longrightarrow> fst (m s) \<noteq> Inl Panic"
  by (simp add: never_panics_def)

lemma never_panics_basic [safe_rules]:
  "never_panics (ret x)" "never_panics (throw (Error e))" "never_panics getS"
  "never_panics (modifyS f)"
  by (simp_all add: never_panics_def)

lemma never_panics_andThen [safe_rules]:
  assumes "never_panics m" and "\<And>x. never_panics (f x)"
  shows "never_panics (andThen m f)"
  unfolding never_panics_def
proof
  fix s
  show "fst (andThen m f s) \<noteq> Inl Panic"
    using never_panicsD [OF assms(1), of s] never_panicsD [OF assms(2)]
    by (auto simp: andThen_def split: prod.splits sum.splits)
qed

lemma never_panics_if [safe_rules]:
  "(b \<Longrightarrow> never_panics m) \<Longrightarrow> (\<not> b \<Longrightarrow> never_panics n) \<Longrightarrow> never_panics (if b then m else n)"
  by simp

text \<open>
  \<open>goes p J \<phi> K m\<close>: started in a state of \<open>J\<close>, \<open>m\<close> panics only if \<open>p\<close>; an error or a panic leaves a
  state of \<open>J\<close>, and a success gives a result of \<open>\<phi>\<close> and a state of \<open>K\<close>. A handler keeps \<open>J\<close> up to
  its last step, which is the only one to move on to \<open>K\<close>. \<open>runs\<close> is the case without panics.
\<close>

named_theorems runs_rules \<open>computations that keep an invariant until they succeed\<close>

definition goes :: "bool \<Rightarrow> ('s \<Rightarrow> bool) \<Rightarrow> ('a \<Rightarrow> bool) \<Rightarrow> ('s \<Rightarrow> bool) \<Rightarrow> ('s, 'a) go \<Rightarrow> bool" where
  "goes p J \<phi> K m \<longleftrightarrow> (\<forall>s. J s \<longrightarrow> (case m s of
     (Inr x, t) \<Rightarrow> \<phi> x \<and> K t
   | (Inl e, t) \<Rightarrow> (e = Panic \<longrightarrow> p) \<and> J t))"

abbreviation runs :: "('s \<Rightarrow> bool) \<Rightarrow> ('a \<Rightarrow> bool) \<Rightarrow> ('s \<Rightarrow> bool) \<Rightarrow> ('s, 'a) go \<Rightarrow> bool" where
  "runs \<equiv> goes False"

lemma runs_def:
  "runs J \<phi> K m \<longleftrightarrow> (\<forall>s. J s \<longrightarrow> (case m s of
     (Inr x, t) \<Rightarrow> \<phi> x \<and> K t
   | (Inl e, t) \<Rightarrow> e \<noteq> Panic \<and> J t))"
  by (simp only: goes_def not_def)

lemma goesI:
  "(\<And>s x t. J s \<Longrightarrow> m s = (Inr x, t) \<Longrightarrow> \<phi> x \<and> K t) \<Longrightarrow>
   (\<And>s e t. J s \<Longrightarrow> m s = (Inl e, t) \<Longrightarrow> (e = Panic \<longrightarrow> p) \<and> J t) \<Longrightarrow> goes p J \<phi> K m"
  by (auto simp: goes_def split: prod.split sum.split)

lemma goes_Inr: "goes p J \<phi> K m \<Longrightarrow> J s \<Longrightarrow> m s = (Inr x, t) \<Longrightarrow> \<phi> x \<and> K t"
  by (auto simp: goes_def)

lemma goes_Inl: "goes p J \<phi> K m \<Longrightarrow> J s \<Longrightarrow> m s = (Inl e, t) \<Longrightarrow> (e = Panic \<longrightarrow> p) \<and> J t"
  by (auto simp: goes_def)

lemma runsI:
  "(\<And>s x t. J s \<Longrightarrow> m s = (Inr x, t) \<Longrightarrow> \<phi> x \<and> K t) \<Longrightarrow>
   (\<And>s e t. J s \<Longrightarrow> m s = (Inl e, t) \<Longrightarrow> e \<noteq> Panic \<and> J t) \<Longrightarrow> runs J \<phi> K m"
  by (rule goesI) auto

lemma runs_Inr: "runs J \<phi> K m \<Longrightarrow> J s \<Longrightarrow> m s = (Inr x, t) \<Longrightarrow> \<phi> x \<and> K t"
  by (rule goes_Inr)

lemma runs_Inl: "runs J \<phi> K m \<Longrightarrow> J s \<Longrightarrow> m s = (Inl e, t) \<Longrightarrow> e \<noteq> Panic \<and> J t"
  by (auto dest: goes_Inl)

lemma runs_value:
  "(\<And>s r t. J s \<Longrightarrow> m s = (r, t) \<Longrightarrow> r = Inr x \<and> K t) \<Longrightarrow> goes p J (\<lambda>y. y = x) K m"
  by (rule goesI) blast+

text \<open>In a sequence, the invariant may grow stronger from one step to the next.\<close>

lemma goes_seq:
  assumes "goes p J \<phi> J' m" and "\<And>s. J' s \<Longrightarrow> J s" and "\<And>x. \<phi> x \<Longrightarrow> goes p J' \<psi> K (f x)"
  shows "goes p J \<psi> K (andThen m f)"
proof (rule goesI)
  fix s y u
  assume "J s" and "andThen m f s = (Inr y, u)"
  then show "\<psi> y \<and> K u" using assms(1,3) by (elim andThen_InrE) (blast dest: goes_Inr)
next
  fix s e u
  assume "J s" and "andThen m f s = (Inl e, u)"
  then show "(e = Panic \<longrightarrow> p) \<and> J u"
    using assms by (elim andThen_InlE) (blast dest: goes_Inr goes_Inl)+
qed

lemma runs_andThen:
  "goes p J \<phi> J m \<Longrightarrow> (\<And>x. \<phi> x \<Longrightarrow> goes p J \<psi> K (f x)) \<Longrightarrow> goes p J \<psi> K (andThen m f)"
  by (rule goes_seq)

lemma runs_basic [runs_rules]:
  "goes p J J J getS"
  "goes p J \<phi> K (throw (Error e))"
  "goes p J (\<lambda>y. y = x) J (ret x)"
  by (auto simp: goes_def)

lemma runs_modifyS: "(\<And>s. J s \<Longrightarrow> K (f s)) \<Longrightarrow> goes p J (\<lambda>_. True) K (modifyS f)"
  by (simp add: goes_def)

lemma runs_liftR: "r \<noteq> Inl Panic \<Longrightarrow> goes p J (\<lambda>x. r = Inr x) J (liftR r)"
  by (auto simp: goes_def split: sum.split)

lemma goes_liftR: "goes True J (\<lambda>x. r = Inr x) J (liftR r)"
  by (auto simp: goes_def split: sum.split)

lemma goes_True: "runs J \<phi> K m \<Longrightarrow> goes p J \<phi> K m"
  by (auto simp: goes_def split: prod.splits sum.splits)

lemma runs_weaken:
  "goes p J \<phi> K m \<Longrightarrow> (\<And>x. \<phi> x \<Longrightarrow> \<psi> x) \<Longrightarrow> (\<And>s. K s \<Longrightarrow> K' s) \<Longrightarrow> goes p J \<psi> K' m"
  by (auto simp: goes_def split: prod.splits sum.splits)

lemma runs_if [runs_rules]:
  "(b \<Longrightarrow> goes p J \<phi> K m) \<Longrightarrow> (\<not> b \<Longrightarrow> goes p J \<phi> K n) \<Longrightarrow> goes p J \<phi> K (if b then m else n)"
  by simp

lemma runs_read:
  "(\<And>c. J c \<Longrightarrow> goes p J \<psi> K (f c)) \<Longrightarrow> goes p J \<psi> K (andThen getS f)"
  by (rule runs_andThen [OF runs_basic(1)])

lemma runs_guard:
  "(\<And>c. J c \<Longrightarrow> \<not> b c) \<Longrightarrow> (\<And>c. J c \<Longrightarrow> goes p J \<psi> K (g c)) \<Longrightarrow>
     goes p J \<psi> K (andThen getS (\<lambda>c. if b c then e c else g c))"
  by (rule runs_read) simp

lemma runs_modify_then:
  "(\<And>s. J s \<Longrightarrow> J' (f s)) \<Longrightarrow> (\<And>s. J' s \<Longrightarrow> J s) \<Longrightarrow> goes p J' \<psi> K (g ()) \<Longrightarrow>
     goes p J \<psi> K (andThen (modifyS f) g)"
  by (rule goes_seq [OF runs_modifyS]) simp_all

section \<open>Overwriting a stretch of a list\<close>

definition write_at :: "nat \<Rightarrow> 'a list \<Rightarrow> 'a list \<Rightarrow> 'a list" where
  "write_at i ys xs = take i xs @ ys @ drop (i + length ys) xs"

lemma length_write_at [simp]:
  "i + length ys \<le> length xs \<Longrightarrow> length (write_at i ys xs) = length xs"
  by (simp add: write_at_def)

lemma write_at_Nil [simp]: "i \<le> length xs \<Longrightarrow> write_at i [] xs = xs"
  by (simp add: write_at_def)

lemma write_at_0: "write_at 0 ys xs = ys @ drop (length ys) xs"
  by (simp add: write_at_def)

lemma write_at_single: "i < length xs \<Longrightarrow> xs[i := v] = write_at i [v] xs"
  by (simp add: write_at_def upd_conv_take_nth_drop)

lemma write_at_append:
  assumes "i + length ys \<le> length xs"
  shows "write_at (i + length ys) zs (write_at i ys xs) = write_at i (ys @ zs) xs"
proof -
  have "i \<le> length xs" using assms by simp
  then show ?thesis
    by (simp add: write_at_def min_def add.commute add.left_commute)
qed

lemma nth_write_at:
  "i + length ys \<le> length xs \<Longrightarrow> j < length xs \<Longrightarrow>
     write_at i ys xs ! j = (if i \<le> j \<and> j < i + length ys then ys ! (j - i) else xs ! j)"
  by (auto simp: write_at_def nth_append min_def)

lemma take_write_at_ge:
  "n \<le> i \<Longrightarrow> i \<le> length xs \<Longrightarrow> take n (write_at i ys xs) = take n xs"
  by (simp add: write_at_def min_def)

lemma drop_write_at_le:
  "i + length ys \<le> n \<Longrightarrow> i + length ys \<le> length xs \<Longrightarrow> drop n (write_at i ys xs) = drop n xs"
  by (simp add: write_at_def)

text \<open>\<open>xs[a:b]\<close> of a slice, as a list.\<close>

definition sub_list :: "nat \<Rightarrow> nat \<Rightarrow> 'a list \<Rightarrow> 'a list" where
  "sub_list a b xs = take (b - a) (drop a xs)"

lemma length_sub_list [simp]: "a \<le> b \<Longrightarrow> b \<le> length xs \<Longrightarrow> length (sub_list a b xs) = b - a"
  by (simp add: sub_list_def)

lemma nth_sub_list: "a + i < b \<Longrightarrow> b \<le> length xs \<Longrightarrow> sub_list a b xs ! i = xs ! (a + i)"
  by (simp add: sub_list_def)

section \<open>Little-endian integers\<close>

text \<open>\<open>binary.LittleEndian\<close> on the bytes of a 16- or 32-bit integer.\<close>

definition le16_bytes :: "u16 \<Rightarrow> byte list" where
  "le16_bytes v = [ucast v, ucast (drop_bit 8 v)]"

definition le32_bytes :: "u32 \<Rightarrow> byte list" where
  "le32_bytes v = [ucast v, ucast (drop_bit 8 v), ucast (drop_bit 16 v), ucast (drop_bit 24 v)]"

definition le16_val :: "byte \<Rightarrow> byte \<Rightarrow> u16" where
  "le16_val a b = ucast a OR push_bit 8 (ucast b)"

definition le32_val :: "byte \<Rightarrow> byte \<Rightarrow> byte \<Rightarrow> byte \<Rightarrow> u32" where
  "le32_val a b c d =
     ucast a OR push_bit 8 (ucast b) OR push_bit 16 (ucast c) OR push_bit 24 (ucast d)"

lemma length_le_bytes [simp]: "length (le16_bytes v) = 2" "length (le32_bytes w) = 4"
  by (simp_all add: le16_bytes_def le32_bytes_def)

lemma le16_val_bytes: "le16_val (ucast v) (ucast (drop_bit 8 v)) = v"
  unfolding le16_val_def
  by (rule bit_word_eqI) (auto simp: bit_simps)

lemma le32_val_bytes:
  "le32_val (ucast v) (ucast (drop_bit 8 v)) (ucast (drop_bit 16 v)) (ucast (drop_bit 24 v)) = v"
proof (rule bit_word_eqI)
  fix n
  assume n: "n < LENGTH(32)"
  show "bit (le32_val (ucast v) (ucast (drop_bit 8 v)) (ucast (drop_bit 16 v))
      (ucast (drop_bit 24 v))) n = bit v n"
  proof -
    have "n < 16 \<or> (\<exists>k < 8. n = 16 + k) \<or> (\<exists>k. n = 24 + k)" by presburger
    then show ?thesis using n by (elim disjE exE conjE) (auto simp: le32_val_def bit_simps)
  qed
qed

text \<open>
  The two encodings read back from their own bytes, wherever they sit in a buffer, and two
  values with the same bytes are equal.
\<close>

lemma le32_bytes_nth [simp]:
  "le32_val (le32_bytes v ! 0) (le32_bytes v ! Suc 0) (le32_bytes v ! 2) (le32_bytes v ! 3) = v"
  by (simp add: le32_bytes_def le32_val_bytes)

lemma le16_bytes_nth [simp]: "le16_val (le16_bytes v ! 0) (le16_bytes v ! Suc 0) = v"
  by (simp add: le16_bytes_def le16_val_bytes)

lemma le32_bytes_inject [simp]: "le32_bytes v = le32_bytes w \<longleftrightarrow> v = w"
  by (metis le32_bytes_nth)

lemma le16_bytes_inject [simp]: "le16_bytes v = le16_bytes w \<longleftrightarrow> v = w"
  by (metis le16_bytes_nth)

text \<open>Conversely, any bytes are the encoding of the value read from them.\<close>

lemma le16_bytes_val: "le16_bytes (le16_val a b) = [a, b]"
  unfolding le16_bytes_def le16_val_def list.inject
  by (intro conjI refl bit_word_eqI) (auto simp: bit_simps dest: bit_imp_le_length)

lemma le32_bytes_val: "le32_bytes (le32_val a b c d) = [a, b, c, d]"
  unfolding le32_bytes_def le32_val_def list.inject
  by (intro conjI refl bit_word_eqI) (auto simp: bit_simps dest: bit_imp_le_length)

end
