(* ===== verification/GoLib.thy ===== *)
theory GoLib
  imports Prelude
begin

text \<open>
  The part of Go and of its standard library the client is written against:
  slices with their capacity, bounds-checked reads, \<open>binary.LittleEndian\<close>, strings as
  byte sequences, \<open>strconv\<close>, and a TCP connection as the bytes still to arrive and the bytes
  already sent. A read or write outside a slice is a panic, not an unspecified value.
\<close>

section \<open>Reading a received slice\<close>

text \<open>
  A received packet is only read, so its visible bytes are all that counts. \<open>rdU32 data a\<close> is
  \<open>Uint32(data[a:a+4])\<close> or \<open>Uint32(data[a:])\<close>; both need \<open>a + 4\<close> bytes.
  (The first form is bounded by the slice's capacity; the decoders' own length checks keep it
  inside the length, which their no-panic theorems show.)
\<close>

definition idx :: "byte list \<Rightarrow> nat \<Rightarrow> byte res" where
  "idx data i = (if i < length data then Inr (data ! i) else Inl Panic)"

definition u16_at :: "byte list \<Rightarrow> nat \<Rightarrow> u16" where
  "u16_at data a = le16_val (data ! a) (data ! (a + 1))"

definition u32_at :: "byte list \<Rightarrow> nat \<Rightarrow> u32" where
  "u32_at data a = le32_val (data ! a) (data ! (a + 1)) (data ! (a + 2)) (data ! (a + 3))"

definition rdU16 :: "byte list \<Rightarrow> nat \<Rightarrow> u16 res" where
  "rdU16 data a = (if a + 2 \<le> length data then Inr (u16_at data a) else Inl Panic)"

definition rdU32 :: "byte list \<Rightarrow> nat \<Rightarrow> u32 res" where
  "rdU32 data a = (if a + 4 \<le> length data then Inr (u32_at data a) else Inl Panic)"

definition rdSub :: "byte list \<Rightarrow> nat \<Rightarrow> nat \<Rightarrow> byte list res" where
  "rdSub data a b = (if a \<le> b \<and> b \<le> length data then Inr (sub_list a b data) else Inl Panic)"

lemma rd_in_range [simp]:
  "i < length data \<Longrightarrow> idx data i = Inr (data ! i)"
  "a + 2 \<le> length data \<Longrightarrow> rdU16 data a = Inr (u16_at data a)"
  "a + 4 \<le> length data \<Longrightarrow> rdU32 data a = Inr (u32_at data a)"
  "a \<le> b \<Longrightarrow> b \<le> length data \<Longrightarrow> rdSub data a b = Inr (sub_list a b data)"
  by (simp_all add: idx_def rdU16_def rdU32_def rdSub_def)

lemma rd_out_of_range:
  "\<not> i < length data \<Longrightarrow> idx data i = Inl Panic"
  "\<not> a + 4 \<le> length data \<Longrightarrow> rdU32 data a = Inl Panic"
  by (simp_all add: idx_def rdU32_def)

lemma u32_at_append [le_simps]:
  "length xs = a \<Longrightarrow> u32_at (xs @ le32_bytes v @ ys) a = v"
  by (auto simp: u32_at_def nth_append le32_bytes_def le32_val_bytes)

lemma u16_at_append [le_simps]:
  "length xs = a \<Longrightarrow> u16_at (xs @ le16_bytes v @ ys) a = v"
  by (auto simp: u16_at_def nth_append le16_bytes_def le16_val_bytes)

lemma u32_at_cong:
  assumes "\<And>i. i < 4 \<Longrightarrow> xs ! (a + i) = ys ! (b + i)"
  shows "u32_at xs a = u32_at ys b"
  using assms [of 0] assms [of 1] assms [of 2] assms [of 3] by (simp add: u32_at_def)

section \<open>Writing through a slice\<close>

text \<open>
  A slice that is written is its backing bytes up to the capacity (\<open>mem\<close>) and its length.
  \<open>data[i] = v\<close> and \<open>data[a:]\<close> are bounded by the length, \<open>data[a:b]\<close> by the capacity.
  A nil slice has no backing bytes.
\<close>

record gslice =
  mem :: "byte list"
  slen :: nat

definition wf_slice :: "gslice \<Rightarrow> bool" where
  "wf_slice s \<longleftrightarrow> slen s \<le> length (mem s)"

definition nil_slice :: gslice where
  "nil_slice = \<lparr>mem = [], slen = 0\<rparr>"

definition visible :: "gslice \<Rightarrow> byte list" where
  "visible s = take (slen s) (mem s)"

definition setB :: "nat \<Rightarrow> byte \<Rightarrow> (gslice, unit) go" where
  "setB i v = (\<lambda>s. if i < slen s then (Inr (), s\<lparr>mem := (mem s)[i := v]\<rparr>) else (Inl Panic, s))"

definition putU32 :: "nat \<Rightarrow> nat \<Rightarrow> u32 \<Rightarrow> (gslice, unit) go" where
  "putU32 a b v = (\<lambda>s. if a \<le> b \<and> b \<le> length (mem s) \<and> 4 \<le> b - a
     then (Inr (), s\<lparr>mem := write_at a (le32_bytes v) (mem s)\<rparr>) else (Inl Panic, s))"

definition putU32From :: "nat \<Rightarrow> u32 \<Rightarrow> (gslice, unit) go" where
  "putU32From a v = (\<lambda>s. if a + 4 \<le> slen s
     then (Inr (), s\<lparr>mem := write_at a (le32_bytes v) (mem s)\<rparr>) else (Inl Panic, s))"

definition putU16From :: "nat \<Rightarrow> u16 \<Rightarrow> (gslice, unit) go" where
  "putU16From a v = (\<lambda>s. if a + 2 \<le> slen s
     then (Inr (), s\<lparr>mem := write_at a (le16_bytes v) (mem s)\<rparr>) else (Inl Panic, s))"

text \<open>\<open>copy(dst[i:], src)\<close>: as many bytes as fit.\<close>

definition copy_at :: "nat \<Rightarrow> byte list \<Rightarrow> byte list \<Rightarrow> byte list" where
  "copy_at i src dst = write_at i (take (length dst - i) src) dst"

lemma length_copy_at [simp]: "i \<le> length dst \<Longrightarrow> length (copy_at i src dst) = length dst"
  by (simp add: copy_at_def)

lemma nth_copy_at:
  "i \<le> length dst \<Longrightarrow> j < length dst \<Longrightarrow>
     copy_at i src dst ! j = (if i \<le> j \<and> j < i + length src then src ! (j - i) else dst ! j)"
  by (auto simp: copy_at_def nth_write_at)

text \<open>\<open>for i := a; i < b; i++ { body i }\<close>\<close>

fun forRange :: "nat list \<Rightarrow> (nat \<Rightarrow> ('s, unit) go) \<Rightarrow> ('s, unit) go" where
  "forRange [] body = ret ()"
| "forRange (i # is) body = andThen (body i) (\<lambda>_. forRange is body)"

lemma slice_ops [go_simps]:
  "i < slen s \<Longrightarrow> setB i v s = (Inr (), s\<lparr>mem := (mem s)[i := v]\<rparr>)"
  "a \<le> b \<Longrightarrow> b \<le> length (mem s) \<Longrightarrow> 4 \<le> b - a \<Longrightarrow>
     putU32 a b w s = (Inr (), s\<lparr>mem := write_at a (le32_bytes w) (mem s)\<rparr>)"
  "a + 4 \<le> slen s \<Longrightarrow>
     putU32From a w s = (Inr (), s\<lparr>mem := write_at a (le32_bytes w) (mem s)\<rparr>)"
  by (simp_all add: setB_def putU32_def putU32From_def)

section \<open>Strings and strconv\<close>

text \<open>A Go string is a byte sequence; \<open>s[i]\<close> is a byte and \<open>len(s)\<close> counts bytes.\<close>

definition byte_of_char :: "char \<Rightarrow> byte" where
  "byte_of_char c = of_char c"

definition char_of_byte :: "byte \<Rightarrow> char" where
  "char_of_byte b = char_of (unat b)"

definition bytes_of :: "string \<Rightarrow> byte list" where
  "bytes_of s = map byte_of_char s"

definition string_of :: "byte list \<Rightarrow> string" where
  "string_of bs = map char_of_byte bs"

lemma char_of_byte_of_char [simp]: "char_of_byte (byte_of_char c) = c"
proof -
  have "unat (of_char c :: byte) = (of_char c :: nat)"
  proof -
    have "(of_char c :: byte) = word_of_nat (of_char c)" by (simp add: of_nat_of_char)
    moreover have "(of_char c :: nat) < 256" by simp
    ultimately show ?thesis by (simp add: unat_of_nat take_bit_eq_mod)
  qed
  then show ?thesis by (simp add: char_of_byte_def byte_of_char_def)
qed

lemma byte_of_char_of_byte [simp]: "byte_of_char (char_of_byte b) = b"
proof -
  have "unat b < 256" using unsigned_less [of b, where ?'a = nat] by simp
  then have eq: "(of_char (char_of (unat b) :: char) :: nat) = unat b"
    by (simp add: of_char_of)
  have "byte_of_char (char_of_byte b) = of_nat (of_char (char_of (unat b) :: char))"
    by (simp only: byte_of_char_def char_of_byte_def of_nat_of_char)
  also have "\<dots> = b" by (simp only: eq) simp
  finally show ?thesis .
qed

lemma string_of_bytes_of [simp]: "string_of (bytes_of s) = s"
  by (simp add: string_of_def bytes_of_def comp_def)

lemma bytes_of_string_of [simp]: "bytes_of (string_of bs) = bs"
  by (simp add: string_of_def bytes_of_def comp_def)

lemma length_bytes_of [simp]: "length (bytes_of s) = length s"
  by (simp add: bytes_of_def)

lemma bytes_of_inject [simp]: "bytes_of s = bytes_of t \<longleftrightarrow> s = t"
  by (metis string_of_bytes_of)

text \<open>\<open>strconv.Itoa\<close> and \<open>strconv.FormatInt(_, 16)\<close>: digits from the most significant one.\<close>

definition digit_char :: "nat \<Rightarrow> char" where
  "digit_char d = char_of (if d < 10 then 48 + d else 87 + d)"

fun digits_in :: "nat \<Rightarrow> nat \<Rightarrow> string" where
  "digits_in b n = (if b < 2 \<or> n < b then [digit_char n]
                    else digits_in b (n div b) @ [digit_char (n mod b)])"

declare digits_in.simps [simp del]

definition itoa :: "int \<Rightarrow> string" where
  "itoa i = (if i < 0 then ''-'' @ digits_in 10 (nat (- i)) else digits_in 10 (nat i))"

definition format_hex :: "int \<Rightarrow> string" where
  "format_hex i = (if i < 0 then ''-'' @ digits_in 16 (nat (- i)) else digits_in 16 (nat i))"

definition digit_val :: "char \<Rightarrow> nat" where
  "digit_val c = (let n = of_char c in if n < 58 then n - 48 else n - 87)"

definition number_of_digits :: "nat \<Rightarrow> string \<Rightarrow> nat" where
  "number_of_digits b s = fold (\<lambda>c n. n * b + digit_val c) s 0"

lemma digit_val_char [simp]: "d < 16 \<Longrightarrow> digit_val (digit_char d) = d"
  by (auto simp: digit_val_def digit_char_def of_char_of)

lemma digits_in_value: "2 \<le> b \<Longrightarrow> b \<le> 16 \<Longrightarrow> number_of_digits b (digits_in b n) = n"
proof (induction b n rule: digits_in.induct)
  case (1 b n)
  show ?case
  proof (cases "n < b")
    case True
    with "1.prems" show ?thesis
      by (subst digits_in.simps) (simp add: number_of_digits_def)
  next
    case False
    have "n mod b < b" using "1.prems" by simp
    with "1.prems" have "n mod b < 16" by linarith
    moreover have "number_of_digits b (digits_in b (n div b)) = n div b"
      using "1.IH" "1.prems" False by simp
    ultimately show ?thesis using False "1.prems"
      by (subst digits_in.simps) (simp add: number_of_digits_def)
  qed
qed

lemma digits_in_10_value: "number_of_digits 10 (digits_in 10 n) = n"
  by (rule digits_in_value) simp_all

lemma itoa_nat_inject: "itoa (int m) = itoa (int n) \<longleftrightarrow> m = n"
proof
  assume "itoa (int m) = itoa (int n)"
  then have "digits_in 10 m = digits_in 10 n" by (simp add: itoa_def)
  then show "m = n" by (metis digits_in_10_value)
qed simp

text \<open>\<open>k\<close> decimal digits are enough for a number below \<open>10 ^ k\<close>.\<close>

lemma length_digits_in_le: "n < 10 ^ k \<Longrightarrow> 0 < k \<Longrightarrow> length (digits_in 10 n) \<le> k"
proof (induction k arbitrary: n)
  case 0
  then show ?case by simp
next
  case (Suc k)
  show ?case
  proof (cases "n < 10")
    case True
    then show ?thesis by (subst digits_in.simps) simp
  next
    case False
    with Suc.prems have "0 < k" by (cases k) auto
    moreover have "n div 10 < 10 ^ k" using Suc.prems by (simp add: less_mult_imp_div_less mult.commute)
    ultimately have "length (digits_in 10 (n div 10)) \<le> k" by (intro Suc.IH)
    with False show ?thesis by (subst digits_in.simps) simp
  qed
qed

section \<open>A TCP connection\<close>

text \<open>
  \<open>rx\<close>: the bytes that will still arrive; when they run out, a read fails with the error text
  \<open>rx_end\<close> (\<open>EOF\<close>, a reset, a deadline). \<open>tx\<close>: the bytes whose write was reported successful.
  \<open>writes_left\<close>: how many more writes succeed before the connection breaks, so that both
  outcomes of every write are covered. \<open>closed\<close>: \<open>Close\<close> was called on our side.
\<close>

record Conn =
  rx :: "byte list"
  rx_end :: string
  tx :: "byte list"
  writes_left :: nat
  closed :: bool

definition conn_write :: "byte list \<Rightarrow> (Conn, unit) go" where
  "conn_write bs = (\<lambda>c.
     if closed c then (Inl (Error ''use of closed network connection''), c)
     else case writes_left c of
       0 \<Rightarrow> (Inl (Error ''broken pipe''), c)
     | Suc k \<Rightarrow> (Inr (), c\<lparr>tx := tx c @ bs, writes_left := k\<rparr>))"

definition conn_close :: "Conn \<Rightarrow> Conn" where
  "conn_close c = c\<lparr>closed := True\<rparr>"

text \<open>
  \<open>io.ReadFull(conn, buf[:n])\<close>: all \<open>n\<close> bytes, or an error with whatever arrived already in
  the buffer. An \<open>EOF\<close> after some bytes is reported as an unexpected one.
\<close>

definition readFull :: "nat \<Rightarrow> (byte list \<times> Conn, unit) go" where
  "readFull n = (\<lambda>(buf, c).
     if length buf < n then (Inl Panic, (buf, c))
     else if closed c then (Inl (Error ''use of closed network connection''), (buf, c))
     else if n \<le> length (rx c)
       then (Inr (), (write_at 0 (take n (rx c)) buf, c\<lparr>rx := drop n (rx c)\<rparr>))
     else (Inl (Error (if rx c \<noteq> [] \<and> rx_end c = ''EOF'' then ''unexpected EOF'' else rx_end c)),
           (write_at 0 (rx c) buf, c\<lparr>rx := []\<rparr>)))"

lemma readFull_ok:
  "n \<le> length buf \<Longrightarrow> \<not> closed c \<Longrightarrow> rx c = bs @ rest \<Longrightarrow> length bs = n \<Longrightarrow>
     readFull n (buf, c) = (Inr (), (bs @ drop n buf, c\<lparr>rx := rest\<rparr>))"
  by (simp add: readFull_def write_at_0)

lemma readFull_outcome:
  assumes "readFull n (buf, c) = (r, (buf', c'))" and "n \<le> length buf"
  shows "length buf' = length buf" and "r \<noteq> Inl Panic"
    and "c'\<lparr>rx := rx c\<rparr> = c" and "\<exists>bs. rx c = bs @ rx c'"
    and "r = Inr () \<Longrightarrow> rx c = take n buf' @ rx c' \<and> drop n buf' = drop n buf"
  using assms
  by (auto simp: readFull_def write_at_0 split: if_splits) (metis append_take_drop_id)

lemma conn_write_ok:
  "\<not> closed c \<Longrightarrow> writes_left c = Suc k \<Longrightarrow>
     conn_write bs c = (Inr (), c\<lparr>tx := tx c @ bs, writes_left := k\<rparr>)"
  by (simp add: conn_write_def)

lemma conn_write_cases:
  obtains (ok) k where "\<not> closed c" "writes_left c = Suc k"
      "conn_write bs c = (Inr (), c\<lparr>tx := tx c @ bs, writes_left := k\<rparr>)"
    | (failed) e where "conn_write bs c = (Inl (Error e), c)"
proof (cases "closed c")
  case True
  then show thesis by (intro failed) (simp add: conn_write_def)
next
  case False
  then show thesis by (cases "writes_left c") (auto intro: ok failed simp: conn_write_def)
qed

end
