(* ===== verification/Channel.thy ===== *)
theory Channel
  imports GoLib
begin

text \<open>
  The contract between the two ends of a packet stream, as a locale: whatever one successful
  \<open>send\<close> appends to the outgoing bytes, a \<open>recv\<close> on the other end turns back into the same
  packet, leaving the bytes that follow untouched and both ends in step again. \<open>sync\<close> is what
  "in step" means for the two states (equal cipher keys, buffers of the right size). The plain
  packet framing and the encrypted game channel are both interpretations of it.
\<close>

fun sendAll :: "('m \<Rightarrow> ('w, unit) go) \<Rightarrow> 'm list \<Rightarrow> ('w, unit) go" where
  "sendAll send [] = ret ()"
| "sendAll send (m # ms) = andThen (send m) (\<lambda>_. sendAll send ms)"

fun recvN :: "('r, 'm) go \<Rightarrow> nat \<Rightarrow> ('r, 'm list) go" where
  "recvN recv 0 = ret []"
| "recvN recv (Suc n) = andThen recv (\<lambda>m. andThen (recvN recv n) (\<lambda>ms. ret (m # ms)))"

locale packet_channel =
  fixes send :: "'m \<Rightarrow> ('w, unit) go"
    and recv :: "('r, 'm) go"
    and sent :: "'w \<Rightarrow> byte list"
    and pending :: "'r \<Rightarrow> byte list"
    and sync :: "'w \<Rightarrow> 'r \<Rightarrow> bool"
  assumes send_recv:
    "send m w = (Inr (), w') \<Longrightarrow> sync w r0 \<Longrightarrow>
       \<exists>bs. sent w' = sent w @ bs \<and>
         (\<forall>r rest. sync w r \<and> pending r = bs @ rest \<longrightarrow>
           (\<exists>r'. recv r = (Inr m, r') \<and> pending r' = rest \<and> sync w' r'))"
    and sync_pending: "sync w r \<Longrightarrow> \<exists>r'. sync w r' \<and> pending r' = bs"
begin

text \<open>A whole sequence of sends is received as the same sequence, in order.\<close>

lemma sendAll_recvN:
  assumes "sendAll send ms w = (Inr (), w')" and "sync w r0"
  shows "\<exists>bs. sent w' = sent w @ bs \<and>
    (\<forall>r rest. sync w r \<and> pending r = bs @ rest \<longrightarrow>
      (\<exists>r'. recvN recv (length ms) r = (Inr ms, r') \<and> pending r' = rest \<and> sync w' r'))"
  using assms
proof (induction ms arbitrary: w r0)
  case Nil
  then show ?case by (auto intro!: exI [of _ "[]"])
next
  case (Cons m ms)
  from Cons.prems(1) obtain u where u: "send m w = (Inr (), u)"
    and rest: "sendAll send ms u = (Inr (), w')"
    by (auto elim!: andThen_InrE)
  obtain bs1 where bs1: "sent u = sent w @ bs1"
    and recv1: "\<And>r rest. sync w r \<Longrightarrow> pending r = bs1 @ rest \<Longrightarrow>
      \<exists>r'. recv r = (Inr m, r') \<and> pending r' = rest \<and> sync u r'"
    using send_recv [OF u Cons.prems(2)] by blast
  obtain r1 where "sync w r1" "pending r1 = bs1 @ []"
    using sync_pending [OF Cons.prems(2)] by blast
  then obtain ru where "sync u ru" using recv1 by blast
  then obtain bs2 where bs2: "sent w' = sent u @ bs2"
    and recv2: "\<And>r rest. sync u r \<Longrightarrow> pending r = bs2 @ rest \<Longrightarrow>
      \<exists>r'. recvN recv (length ms) r = (Inr ms, r') \<and> pending r' = rest \<and> sync w' r'"
    using Cons.IH [OF rest] by blast
  show ?case
  proof (intro exI [of _ "bs1 @ bs2"] conjI allI impI)
    show "sent w' = sent w @ bs1 @ bs2" using bs1 bs2 by simp
    fix r rest
    assume r: "sync w r \<and> pending r = (bs1 @ bs2) @ rest"
    then obtain r' where r': "recv r = (Inr m, r')" "pending r' = bs2 @ rest" "sync u r'"
      using recv1 by (metis append_assoc)
    then obtain r'' where "recvN recv (length ms) r' = (Inr ms, r'')" "pending r'' = rest"
      "sync w' r''"
      using recv2 by blast
    with r' show "\<exists>r'. recvN recv (length (m # ms)) r = (Inr (m # ms), r') \<and>
        pending r' = rest \<and> sync w' r'"
      by (simp add: andThen_def)
  qed
qed

end

end
