(* ===== verification/Packet.thy ===== *)
theory Packet
  imports Channel
begin

text \<open>
  \<open>internal/net/packet.go\<close>: the length-prefixed packet reader and writer. Each keeps one
  buffer of \<open>MaxPacketSize\<close> bytes for its whole life; the connection they share is the second
  component of the state. \<open>frame\<close> is the wire format the two agree on.
\<close>

definition MaxPacketSize :: nat where
  "MaxPacketSize = 65535"

definition HeaderSize :: nat where
  "HeaderSize = 2"

record Reader =
  rbuf :: "byte list"

record Writer =
  wbuf :: "byte list"

definition NewReader :: Reader where
  "NewReader = \<lparr>rbuf = replicate MaxPacketSize 0\<rparr>"

definition NewWriter :: Writer where
  "NewWriter = \<lparr>wbuf = replicate MaxPacketSize 0\<rparr>"

definition wf_reader :: "Reader \<Rightarrow> bool" where
  "wf_reader r \<longleftrightarrow> length (rbuf r) = MaxPacketSize"

definition wf_writer :: "Writer \<Rightarrow> bool" where
  "wf_writer w \<longleftrightarrow> length (wbuf w) = MaxPacketSize"

section \<open>Reader.Read\<close>

definition fill :: "nat \<Rightarrow> (Reader \<times> Conn, unit) go" where
  "fill n = (\<lambda>(r, c). case readFull n (rbuf r, c) of
     (res, (buf, c')) \<Rightarrow> (res, (r\<lparr>rbuf := buf\<rparr>, c')))"

definition Reader_Read :: "(Reader \<times> Conn, byte list) go" where
  "Reader_Read =
     andThen (fill HeaderSize) (\<lambda>_.
     andThen getS (\<lambda>(r, _).
     let size = le16_val (rbuf r ! 0) (rbuf r ! 1) in
     if size < of_nat HeaderSize then throw (Error ''invalid packet size'')
     else let payloadSize = unat (size - of_nat HeaderSize) in
     andThen (if payloadSize > 0 then fill payloadSize else ret ()) (\<lambda>_.
     andThen getS (\<lambda>(r, _). ret (take payloadSize (rbuf r))))))"

section \<open>Writer.Write, Prepare and Send\<close>

definition Writer_Write :: "byte list \<Rightarrow> (Writer \<times> Conn, unit) go" where
  "Writer_Write data = (\<lambda>(pw, c).
     let size = length data + HeaderSize in
     if size > MaxPacketSize then (Inl (Error ''packet too large''), (pw, c))
     else
       let buf1 = write_at 0 (le16_bytes (of_nat size)) (wbuf pw);
           buf2 = write_at HeaderSize (take (length buf1 - HeaderSize) data) buf1;
           pw' = pw\<lparr>wbuf := buf2\<rparr>
       in case conn_write (take size buf2) c of (res, c') \<Rightarrow> (res, (pw', c')))"

text \<open>
  \<open>Prepare\<close> hands out the payload area of the buffer itself: the slice starts after the header
  and its capacity runs to the end of the buffer, so what the caller writes through it is what
  \<open>Send\<close> later puts on the wire. \<open>keep_payload\<close> is that aliasing: the slice's bytes written back.
\<close>

definition Writer_Prepare :: "nat \<Rightarrow> Writer \<Rightarrow> gslice" where
  "Writer_Prepare payloadLen pw =
     (let totalSize = payloadLen + HeaderSize in
      if totalSize > MaxPacketSize then nil_slice
      else \<lparr>mem = drop HeaderSize (wbuf pw), slen = payloadLen\<rparr>)"

definition keep_payload :: "gslice \<Rightarrow> Writer \<Rightarrow> Writer" where
  "keep_payload s pw = pw\<lparr>wbuf := write_at HeaderSize (mem s) (wbuf pw)\<rparr>"

definition Writer_Send :: "nat \<Rightarrow> (Writer \<times> Conn, unit) go" where
  "Writer_Send payloadLen = (\<lambda>(pw, c).
     let size = payloadLen + HeaderSize;
         buf = write_at 0 (le16_bytes (of_nat size)) (wbuf pw);
         pw' = pw\<lparr>wbuf := buf\<rparr>
     in if size > length buf then (Inl Panic, (pw', c))
        else case conn_write (take size buf) c of (res, c') \<Rightarrow> (res, (pw', c')))"

section \<open>The wire format\<close>

definition frame :: "byte list \<Rightarrow> byte list" where
  "frame data = le16_bytes (of_nat (length data + HeaderSize)) @ data"

lemma length_frame [simp]: "length (frame data) = length data + 2"
  by (simp add: frame_def)

lemma size_bits:
  fixes n :: nat
  assumes "n + 2 \<le> 65535"
  shows "\<not> (of_nat (n + 2) :: u16) < 2" and "unat ((of_nat (n + 2) :: u16) - 2) = n"
proof -
  have u: "unat (of_nat (n + 2) :: u16) = n + 2"
    unfolding unsigned_of_nat take_bit_eq_mod using assms by simp
  have "\<not> unat (of_nat (n + 2) :: u16) < unat (2 :: u16)"
    unfolding u by simp
  then show "\<not> (of_nat (n + 2) :: u16) < 2"
    by (simp only: word_less_nat_alt simp_thms)
  have "(of_nat (n + 2) :: u16) - 2 = of_nat n" by simp
  then show "unat ((of_nat (n + 2) :: u16) - 2) = n"
    using assms by (simp add: unat_of_nat take_bit_eq_mod)
qed

lemma Writer_Write_ok:
  assumes "wf_writer pw" and "length data + 2 \<le> 65535" and "\<not> closed c" and "writes_left c = Suc k"
  shows "\<exists>pw'. Writer_Write data (pw, c) =
    (Inr (), (pw', c\<lparr>tx := tx c @ frame data, writes_left := k\<rparr>)) \<and> wf_writer pw'"
proof -
  have len: "length (wbuf pw) = 65535"
    using assms(1) by (simp add: wf_writer_def MaxPacketSize_def)
  let ?buf = "write_at 0 (frame data) (wbuf pw)"
  have buf: "write_at 2 data (write_at 0 (le16_bytes (of_nat (length data + 2))) (wbuf pw)) = ?buf"
    using assms(2) len write_at_append [of 0 "le16_bytes (of_nat (length data + 2))" "wbuf pw" data]
    by (simp add: frame_def HeaderSize_def numeral_2_eq_2)
  have tk: "take (length data + 2) ?buf = frame data"
    using assms(2) len by (simp add: write_at_0)
  have "Writer_Write data (pw, c) =
      (Inr (), (pw\<lparr>wbuf := ?buf\<rparr>, c\<lparr>tx := tx c @ frame data, writes_left := k\<rparr>))"
    using assms len buf tk
    by (simp add: Writer_Write_def MaxPacketSize_def HeaderSize_def conn_write_ok Let_def)
  moreover have "wf_writer (pw\<lparr>wbuf := ?buf\<rparr>)"
    using assms(2) len by (simp add: wf_writer_def MaxPacketSize_def)
  ultimately show ?thesis by blast
qed

text \<open>
  \<open>Send\<close> after the payload area was filled: the packet on the wire is the frame of the first
  \<open>n\<close> bytes of that area.
\<close>

lemma Writer_Send_ok:
  assumes "wf_writer pw" and "n + 2 \<le> 65535" and "\<not> closed c" and "writes_left c = Suc k"
  shows "\<exists>pw'. Writer_Send n (pw, c) =
    (Inr (), (pw', c\<lparr>tx := tx c @ frame (take n (drop 2 (wbuf pw))), writes_left := k\<rparr>)) \<and>
    wf_writer pw' \<and> drop 2 (wbuf pw') = drop 2 (wbuf pw)"
proof -
  have len: "length (wbuf pw) = 65535"
    using assms(1) by (simp add: wf_writer_def MaxPacketSize_def)
  let ?h = "le16_bytes (of_nat (n + 2))"
  let ?buf = "write_at 0 ?h (wbuf pw)"
  have tk: "take (n + 2) ?buf = frame (take n (drop 2 (wbuf pw)))"
    using assms(2) len by (simp add: write_at_0 frame_def HeaderSize_def add.commute)
  have "Writer_Send n (pw, c) = (Inr (), (pw\<lparr>wbuf := ?buf\<rparr>,
      c\<lparr>tx := tx c @ frame (take n (drop 2 (wbuf pw))), writes_left := k\<rparr>))"
    using assms len tk by (simp add: Writer_Send_def HeaderSize_def conn_write_ok Let_def)
  moreover have "wf_writer (pw\<lparr>wbuf := ?buf\<rparr>)" and "drop 2 ?buf = drop 2 (wbuf pw)"
    using len by (simp_all add: wf_writer_def MaxPacketSize_def write_at_0)
  ultimately show ?thesis by auto
qed

lemma Writer_Send_success:
  assumes "Writer_Send n (pw, c) = (Inr (), (pw', c'))" and "wf_writer pw" and "n + 2 \<le> 65535"
  shows "\<not> closed c" and "\<exists>k. writes_left c = Suc k \<and>
    c' = c\<lparr>tx := tx c @ frame (take n (drop 2 (wbuf pw))), writes_left := k\<rparr>"
    and "wf_writer pw'" and "drop 2 (wbuf pw') = drop 2 (wbuf pw)"
proof -
  have len: "length (wbuf pw) = 65535" using assms(2) by (simp add: wf_writer_def MaxPacketSize_def)
  have ok: "\<not> closed c \<and> writes_left c \<noteq> 0"
    using assms(1,3) len
    by (cases "writes_left c")
      (auto simp: Writer_Send_def HeaderSize_def Let_def conn_write_def split: if_splits)
  then obtain k where k: "writes_left c = Suc k" by (cases "writes_left c") auto
  from Writer_Send_ok [OF assms(2,3) _ k] ok assms(1) k
  show "\<not> closed c" and "\<exists>k. writes_left c = Suc k \<and>
      c' = c\<lparr>tx := tx c @ frame (take n (drop 2 (wbuf pw))), writes_left := k\<rparr>"
    and "wf_writer pw'" and "drop 2 (wbuf pw') = drop 2 (wbuf pw)"
    by auto
qed

section \<open>Reading a frame\<close>

lemma fill_ok:
  assumes "wf_reader r" and "\<not> closed c" and "rx c = bs @ rest" and "length bs \<le> MaxPacketSize"
  shows "fill (length bs) (r, c) =
    (Inr (), (r\<lparr>rbuf := bs @ drop (length bs) (rbuf r)\<rparr>, c\<lparr>rx := rest\<rparr>))"
  using assms by (simp add: fill_def wf_reader_def readFull_ok)

lemma Reader_Read_ok:
  assumes "wf_reader r" and "\<not> closed c" and "rx c = frame data @ rest"
    and "length data + 2 \<le> 65535"
  shows "\<exists>r'. Reader_Read (r, c) = (Inr data, (r', c\<lparr>rx := rest\<rparr>)) \<and> wf_reader r' \<and>
    take (length data) (rbuf r') = data"
proof -
  let ?h = "le16_bytes (of_nat (length data + 2))"
  let ?r1 = "r\<lparr>rbuf := ?h @ drop 2 (rbuf r)\<rparr>"
  let ?c1 = "c\<lparr>rx := data @ rest\<rparr>"
  have len: "length (rbuf r) = 65535"
    using assms(1) by (simp add: wf_reader_def MaxPacketSize_def)
  have f1: "fill 2 (r, c) = (Inr (), (?r1, ?c1))"
    using fill_ok [OF assms(1,2), of ?h "data @ rest"] assms(3)
    by (simp add: frame_def HeaderSize_def MaxPacketSize_def)
  have wf1: "wf_reader ?r1" using len by (simp add: wf_reader_def MaxPacketSize_def)
  have hdr: "le16_val (rbuf ?r1 ! 0) (rbuf ?r1 ! Suc 0) = of_nat (length data + 2)"
    by (simp add: nth_append)
  note size = size_bits [OF assms(4)]
  show ?thesis
  proof (cases "data = []")
    case True
    with f1 hdr size wf1 show ?thesis
      by (simp add: Reader_Read_def HeaderSize_def andThen_def Let_def)
  next
    case False
    let ?r2 = "?r1\<lparr>rbuf := data @ drop (length data) (rbuf ?r1)\<rparr>"
    have f2: "fill (length data) (?r1, ?c1) = (Inr (), (?r2, c\<lparr>rx := rest\<rparr>))"
      using fill_ok [OF wf1, of ?c1 data rest] assms(2,4) by (simp add: MaxPacketSize_def)
    have "wf_reader ?r2"
      using len assms(4) by (simp add: wf_reader_def MaxPacketSize_def)
    with f1 f2 hdr size False show ?thesis
      by (simp add: Reader_Read_def HeaderSize_def andThen_def Let_def)
  qed
qed

text \<open>
  The converse: whatever \<open>Read\<close> returns was framed that way in the stream, and exactly that
  frame was consumed. \<open>Read\<close> never panics, because a 16-bit size cannot exceed the buffer.
\<close>

lemma fill_outcome:
  assumes "fill n (r, c) = (res, (r', c'))" and "wf_reader r" and "n \<le> MaxPacketSize"
  shows "wf_reader r' \<and> res \<noteq> Inl Panic \<and> c'\<lparr>rx := rx c\<rparr> = c \<and> (\<exists>bs. rx c = bs @ rx c') \<and>
    (res = Inr () \<longrightarrow> rx c = take n (rbuf r') @ rx c')"
proof -
  obtain buf where f: "readFull n (rbuf r, c) = (res, (buf, c'))" and r': "r' = r\<lparr>rbuf := buf\<rparr>"
    using assms(1) by (auto simp: fill_def split: prod.splits)
  have "n \<le> length (rbuf r)" using assms(2,3) by (simp add: wf_reader_def)
  from readFull_outcome [OF f this] show ?thesis
    using assms(2) r' by (auto simp: wf_reader_def)
qed

lemma Reader_Read_outcome:
  assumes "Reader_Read (r, c) = (res, (r', c'))" and "wf_reader r"
  shows "wf_reader r' \<and> res \<noteq> Inl Panic \<and> c'\<lparr>rx := rx c\<rparr> = c \<and> (\<exists>bs. rx c = bs @ rx c') \<and>
    (\<forall>data. res = Inr data \<longrightarrow> rx c = frame data @ rx c' \<and> length data + 2 \<le> 65535)"
proof -
  obtain res1 r1 c1 where f1: "fill 2 (r, c) = (res1, (r1, c1))"
    by (metis prod.exhaust)
  note o1 = fill_outcome [OF f1 assms(2)]
  show ?thesis
  proof (cases res1)
    case (Inl e)
    with assms(1) f1 o1 show ?thesis
      by (auto simp: Reader_Read_def andThen_def HeaderSize_def MaxPacketSize_def)
  next
    case (Inr u)
    let ?size = "le16_val (rbuf r1 ! 0) (rbuf r1 ! 1)"
    have wf1: "wf_reader r1" and c1: "c1\<lparr>rx := rx c\<rparr> = c"
      and rx1: "rx c = take 2 (rbuf r1) @ rx c1"
      using o1 Inr by (auto simp: MaxPacketSize_def)
    have "length (rbuf r1) = 65535" using wf1 by (simp add: wf_reader_def MaxPacketSize_def)
    then have "take 2 (rbuf r1) = [rbuf r1 ! 0, rbuf r1 ! 1]"
      by (simp add: numeral_2_eq_2 take_Suc_conv_app_nth)
    then have hdr: "take 2 (rbuf r1) = le16_bytes ?size" by (simp add: le16_bytes_val)
    show ?thesis
    proof (cases "?size < 2")
      case True
      with assms(1) f1 Inr wf1 c1 rx1 show ?thesis
        by (auto simp: Reader_Read_def andThen_def HeaderSize_def)
    next
      case False
      let ?n = "unat (?size - 2)"
      have sz: "unat ?size = ?n + 2"
      proof -
        have "2 \<le> unat ?size" using False by (simp add: word_less_nat_alt)
        then show ?thesis using False by (simp add: unat_sub_if' word_less_nat_alt)
      qed
      have n: "?n + 2 \<le> 65535"
        using unsigned_less [of ?size, where ?'a = nat] sz by simp
      then have nM: "?n \<le> MaxPacketSize" by (simp add: MaxPacketSize_def)
      have size: "of_nat (?n + 2) = ?size" by (metis sz of_nat_unat ucast_id)
      obtain res2 r2 c2 where f2: "(if ?n > 0 then fill ?n else ret ()) (r1, c1) = (res2, (r2, c2))"
        by (metis prod.exhaust)
      have o2: "wf_reader r2 \<and> res2 \<noteq> Inl Panic \<and> c2\<lparr>rx := rx c1\<rparr> = c1 \<and>
          (\<exists>bs. rx c1 = bs @ rx c2) \<and> (res2 = Inr () \<longrightarrow> rx c1 = take ?n (rbuf r2) @ rx c2)"
        using fill_outcome [OF _ wf1 nM, of c1 res2 r2 c2] f2 wf1 by (auto split: if_splits)
      have c2: "c2\<lparr>rx := rx c\<rparr> = c" using o2 c1 by (metis Conn.surjective Conn.update_convs(1))
      have suffix: "\<exists>bs. rx c = bs @ rx c2" using o2 rx1 by (metis append_assoc)
      have eq: "Reader_Read (r, c) =
        (case res2 of Inl e \<Rightarrow> (Inl e, (r2, c2)) | Inr _ \<Rightarrow> (Inr (take ?n (rbuf r2)), (r2, c2)))"
        using f1 f2 Inr False
        by (cases "?n > 0")
          (auto simp: Reader_Read_def andThen_def HeaderSize_def Let_def split: sum.splits)
      have "rx c = frame (take ?n (rbuf r2)) @ rx c2 \<and> length (take ?n (rbuf r2)) + 2 \<le> 65535"
        if "res2 = Inr ()"
      proof -
        have "length (take ?n (rbuf r2)) = ?n"
          using o2 n by (auto simp: wf_reader_def MaxPacketSize_def)
        with that o2 rx1 hdr size n show ?thesis by (simp add: frame_def HeaderSize_def)
      qed
      with assms(1) eq o2 c2 suffix show ?thesis by (auto split: sum.splits)
    qed
  qed
qed

section \<open>The plain packet channel\<close>

lemma Writer_Write_success:
  assumes "Writer_Write data (pw, c) = (Inr (), (pw', c'))" and "wf_writer pw"
  shows "length data + 2 \<le> 65535" and "tx c' = tx c @ frame data" and "wf_writer pw'"
    and "\<not> closed c" and "\<not> closed c'"
proof -
  show len: "length data + 2 \<le> 65535"
    using assms(1)
    by (auto simp: Writer_Write_def MaxPacketSize_def HeaderSize_def Let_def split: if_splits)
  show op: "\<not> closed c"
    using assms(1) len
    by (auto simp: Writer_Write_def MaxPacketSize_def HeaderSize_def Let_def conn_write_def
        split: if_splits)
  obtain k where k: "writes_left c = Suc k"
    using assms(1) len op
    by (cases "writes_left c")
      (auto simp: Writer_Write_def MaxPacketSize_def HeaderSize_def Let_def conn_write_def
        split: if_splits)
  from Writer_Write_ok [OF assms(2) len op k] assms(1)
  show "tx c' = tx c @ frame data" and "wf_writer pw'" and "\<not> closed c'"
    using op by auto
qed

definition plain_sync :: "Writer \<times> Conn \<Rightarrow> Reader \<times> Conn \<Rightarrow> bool" where
  "plain_sync w r \<longleftrightarrow> wf_writer (fst w) \<and> wf_reader (fst r) \<and> \<not> closed (snd r)"

interpretation plain: packet_channel Writer_Write Reader_Read "\<lambda>w. tx (snd w)" "\<lambda>r. rx (snd r)"
  plain_sync
proof unfold_locales
  fix m :: "byte list" and w w' :: "Writer \<times> Conn" and r0 :: "Reader \<times> Conn"
  assume send: "Writer_Write m w = (Inr (), w')" and "plain_sync w r0"
  then have wf: "wf_writer (fst w)" by (simp add: plain_sync_def)
  obtain pw c pw' c' where w: "w = (pw, c)" "w' = (pw', c')" by (metis prod.exhaust)
  note s = Writer_Write_success [OF send [unfolded w] wf [unfolded w fst_conv]]
  have "\<exists>r'. Reader_Read r = (Inr m, r') \<and> rx (snd r') = rest \<and> plain_sync w' r'"
    if "plain_sync w r \<and> rx (snd r) = frame m @ rest" for r rest
    using that s(1,3) Reader_Read_ok [of "fst r" "snd r" m rest]
    by (cases r) (auto simp: plain_sync_def w)
  then show "\<exists>bs. tx (snd w') = tx (snd w) @ bs \<and>
      (\<forall>r rest. plain_sync w r \<and> rx (snd r) = bs @ rest \<longrightarrow>
        (\<exists>r'. Reader_Read r = (Inr m, r') \<and> rx (snd r') = rest \<and> plain_sync w' r'))"
    using s(2) w by (intro exI [of _ "frame m"]) auto
next
  fix w :: "Writer \<times> Conn" and r :: "Reader \<times> Conn" and bs
  assume "plain_sync w r"
  then show "\<exists>r'. plain_sync w r' \<and> rx (snd r') = bs"
    by (intro exI [of _ "(fst r, (snd r)\<lparr>rx := bs\<rparr>)"]) (simp add: plain_sync_def)
qed

section \<open>Properties\<close>

text \<open>
  A sample connection for the witnesses: nothing sent yet, the given bytes about to arrive.
\<close>

definition sample_conn :: "byte list \<Rightarrow> Conn" where
  "sample_conn bs = \<lparr>rx = bs, rx_end = ''EOF'', tx = [], writes_left = 9, closed = False\<rparr>"

lemma sample_conn_simps [simp]:
  "rx (sample_conn bs) = bs" "tx (sample_conn bs) = []" "closed (sample_conn bs) = False"
  "writes_left (sample_conn bs) = 9" "rx_end (sample_conn bs) = ''EOF''"
  by (simp_all add: sample_conn_def)

lemma wf_new [simp]: "wf_reader NewReader" "wf_writer NewWriter"
  by (simp_all add: wf_reader_def wf_writer_def NewReader_def NewWriter_def)

text \<open>
  Packets written one after the other by a \<open>Writer\<close> arrive, at the \<open>Reader\<close> of the
  connection that receives those bytes, as the same packets in the same order, and the bytes
  that follow them stay in the stream.
\<close>

theorem packets_roundtrip:
  assumes "sendAll Writer_Write ps (pw, c) = (Inr (), (pw', c'))"
    and "wf_writer pw" and "wf_reader pr" and "\<not> closed d"
    and "rx d = drop (length (tx c)) (tx c') @ rest"
  shows "\<exists>pr' d'. recvN Reader_Read (length ps) (pr, d) = (Inr ps, (pr', d')) \<and> rx d' = rest"
proof -
  have sync: "plain_sync (pw, c) (pr, d)" using assms(2-4) by (simp add: plain_sync_def)
  from plain.sendAll_recvN [OF assms(1) sync] obtain bs where "tx c' = tx c @ bs"
    and "plain_sync (pw, c) (pr, d) \<and> rx d = bs @ rest \<longrightarrow> (\<exists>r'. recvN Reader_Read (length ps) (pr, d)
      = (Inr ps, r') \<and> rx (snd r') = rest \<and> plain_sync (pw', c') r')"
    by auto
  with sync assms(5) show ?thesis by (cases "recvN Reader_Read (length ps) (pr, d)") auto
qed

lemma sample_writes:
  "\<exists>pw' c'. sendAll Writer_Write [[1, 2], []] (NewWriter, sample_conn []) = (Inr (), (pw', c')) \<and>
     tx c' = [4, 0, 1, 2, 2, 0]"
proof -
  obtain pw1 where 1: "Writer_Write [1, 2] (NewWriter, sample_conn []) =
      (Inr (), (pw1, sample_conn []\<lparr>tx := [4, 0, 1, 2], writes_left := 8\<rparr>))" and wf: "wf_writer pw1"
    using Writer_Write_ok [of NewWriter "[1, 2]" "sample_conn []" 8]
    by (auto simp: frame_def HeaderSize_def le16_bytes_def)
  obtain pw2 where 2: "Writer_Write [] (pw1, sample_conn []\<lparr>tx := [4, 0, 1, 2], writes_left := 8\<rparr>) =
      (Inr (), (pw2, sample_conn []\<lparr>tx := [4, 0, 1, 2, 2, 0], writes_left := 7\<rparr>))"
    using Writer_Write_ok [OF wf, of "[]" "sample_conn []\<lparr>tx := [4, 0, 1, 2], writes_left := 8\<rparr>" 7]
    by (auto simp: frame_def HeaderSize_def le16_bytes_def)
  show ?thesis by (simp add: andThen_def 1 2)
qed

theorem packets_roundtrip_witness:
  "\<exists>pr' d'. recvN Reader_Read 2 (NewReader, sample_conn [4, 0, 1, 2, 2, 0, 9]) =
     (Inr [[1, 2], []], (pr', d')) \<and> rx d' = [9]"
proof -
  obtain pw' c' where "sendAll Writer_Write [[1, 2], []] (NewWriter, sample_conn []) = (Inr (), (pw', c'))"
    and "tx c' = [4, 0, 1, 2, 2, 0]"
    using sample_writes by blast
  then show ?thesis
    using packets_roundtrip [of "[[1, 2], []]" NewWriter "sample_conn []" pw' c' NewReader
        "sample_conn [4, 0, 1, 2, 2, 0, 9]" "[9]"]
    by (simp add: numeral_2_eq_2)
qed

text \<open>
  C25. \<open>Read\<close> returns a packet exactly when the stream starts with that packet's frame; it then
  consumes the frame and nothing else, whatever the buffer held before. Whatever the stream
  holds, it never panics and keeps its buffer.
\<close>

theorem Reader_Read_spec:
  assumes "wf_reader r" and "\<not> closed c"
  shows "(fst (Reader_Read (r, c)) = Inr data \<longleftrightarrow> length data \<le> 65533 \<and> (\<exists>rest. rx c = frame data @ rest)) \<and>
    (fst (Reader_Read (r, c)) = Inr data \<longrightarrow> rx c = frame data @ rx (snd (snd (Reader_Read (r, c))))) \<and>
    fst (Reader_Read (r, c)) \<noteq> Inl Panic \<and> wf_reader (fst (snd (Reader_Read (r, c))))"
proof -
  obtain res r' c' where rd: "Reader_Read (r, c) = (res, (r', c'))" by (metis prod.exhaust)
  note out = Reader_Read_outcome [OF rd assms(1)]
  have "res = Inr data" if "length data \<le> 65533" and "rx c = frame data @ rest" for rest
    using Reader_Read_ok [OF assms that(2)] that(1) rd by auto
  with out rd show ?thesis by auto
qed

theorem Reader_Read_spec_witness:
  "fst (Reader_Read (NewReader, sample_conn [3, 0, 7, 8])) = Inr [7] \<and>
   rx (snd (snd (Reader_Read (NewReader, sample_conn [3, 0, 7, 8])))) = [8] \<and>
   fst (Reader_Read (NewReader, sample_conn [3, 0])) \<noteq> Inr [7]"
proof -
  have "\<exists>rest. rx (sample_conn [3, 0, 7, 8]) = frame [7] @ rest"
    by (simp add: frame_def HeaderSize_def le16_bytes_def)
  with Reader_Read_spec [of NewReader "sample_conn [3, 0, 7, 8]" "[7]"]
    Reader_Read_spec [of NewReader "sample_conn [3, 0]" "[7]"]
  show ?thesis by (simp add: frame_def HeaderSize_def le16_bytes_def)
qed

end
