(* ===== verification/GameCrypt.thy ===== *)
theory GameCrypt
  imports GoLib
begin

text \<open>
  \<open>internal/crypto/game_crypt.go\<close>: the rolling-XOR cipher of the game server connection. The
  two 16-byte keys are independent: \<open>Decrypt\<close> reads and rolls \<open>inKey\<close>, \<open>Encrypt\<close> reads and
  rolls \<open>outKey\<close>. Both work in place on the packet; here they take its bytes and return them.
  \<open>rolling_cipher\<close> is the contract the game channel relies on, interpreted on this model.
\<close>

record GameCrypt =
  inKey :: "byte list"
  outKey :: "byte list"
  initd :: bool

definition gsStaticKey :: "byte list" where
  "gsStaticKey = [0xc8, 0x27, 0x93, 0x01, 0xa1, 0x6c, 0x31, 0x97]"

text \<open>The zero value of the struct: what a new client holds.\<close>

definition GameCrypt_zero :: GameCrypt where
  "GameCrypt_zero = \<lparr>inKey = replicate 16 0, outKey = replicate 16 0, initd = False\<rparr>"

definition GameCrypt_Init :: "byte list \<Rightarrow> (GameCrypt, unit) go" where
  "GameCrypt_Init dynamicKey = (\<lambda>c.
     if length dynamicKey < 8 then (Inl Panic, c)
     else let c1 = c\<lparr>inKey := write_at 0 (take 8 dynamicKey) (inKey c)\<rparr>;
              c2 = c1\<lparr>inKey := write_at 8 gsStaticKey (inKey c1)\<rparr>;
              c3 = c2\<lparr>outKey := inKey c2\<rparr>
          in (Inr (), c3\<lparr>initd := True\<rparr>))"

text \<open>\<open>updateKey\<close>: the 32-bit counter at offsets 8 to 11 grows by the packet size and wraps.\<close>

definition updateKey :: "byte list \<Rightarrow> nat \<Rightarrow> byte list" where
  "updateKey key sz = write_at 8 (le32_bytes (u32_at key 8 + of_nat sz)) key"

text \<open>The two loops: \<open>i\<close> is the index, \<open>prev\<close> the previous ciphertext byte.\<close>

fun decrypt_loop :: "byte list \<Rightarrow> nat \<Rightarrow> byte \<Rightarrow> byte list \<Rightarrow> byte list" where
  "decrypt_loop key i prev [] = []"
| "decrypt_loop key i prev (temp # data) =
     (temp XOR key ! (i mod 16) XOR prev) # decrypt_loop key (Suc i) temp data"

fun encrypt_loop :: "byte list \<Rightarrow> nat \<Rightarrow> byte \<Rightarrow> byte list \<Rightarrow> byte list" where
  "encrypt_loop key i prev [] = []"
| "encrypt_loop key i prev (d # data) =
     (let c = d XOR key ! (i mod 16) XOR prev in c # encrypt_loop key (Suc i) c data)"

definition GameCrypt_Decrypt :: "byte list \<Rightarrow> GameCrypt \<Rightarrow> byte list \<times> GameCrypt" where
  "GameCrypt_Decrypt data c =
     (if \<not> initd c then (data, c)
      else (decrypt_loop (inKey c) 0 0 data, c\<lparr>inKey := updateKey (inKey c) (length data)\<rparr>))"

definition GameCrypt_Encrypt :: "byte list \<Rightarrow> GameCrypt \<Rightarrow> byte list \<times> GameCrypt" where
  "GameCrypt_Encrypt data c =
     (if \<not> initd c then (data, c)
      else (encrypt_loop (outKey c) 0 0 data, c\<lparr>outKey := updateKey (outKey c) (length data)\<rparr>))"

definition wf_crypt :: "GameCrypt \<Rightarrow> bool" where
  "wf_crypt c \<longleftrightarrow> length (inKey c) = 16 \<and> length (outKey c) = 16"

section \<open>One packet\<close>

lemma xor_cancel [simp]: "(d XOR k XOR p) XOR k XOR p = (d :: 'a::len word)"
proof -
  have "(d XOR k XOR p) XOR k XOR p = d XOR (k XOR k) XOR (p XOR p)"
    by (simp only: xor.assoc xor.commute xor.left_commute)
  then show ?thesis by simp
qed

lemma length_loops [simp]:
  "length (decrypt_loop key i prev data) = length data"
  "length (encrypt_loop key i prev data) = length data"
  by (induction data arbitrary: i prev) (simp_all add: Let_def)

lemma decrypt_encrypt_loop: "decrypt_loop key i prev (encrypt_loop key i prev data) = data"
  by (induction data arbitrary: i prev) (simp_all add: Let_def)

lemma encrypt_decrypt_loop: "encrypt_loop key i prev (decrypt_loop key i prev data) = data"
  by (induction data arbitrary: i prev) (simp_all add: Let_def)

lemma nth_decrypt_loop:
  "j < length data \<Longrightarrow> decrypt_loop key i prev data ! j =
     data ! j XOR key ! ((i + j) mod 16) XOR (if j = 0 then prev else data ! (j - 1))"
proof (induction data arbitrary: i prev j)
  case Nil
  then show ?case by simp
next
  case (Cons d data)
  then show ?case by (cases j) (auto simp: nth_Cons' split: if_splits)
qed

lemma length_updateKey [simp]: "length key = 16 \<Longrightarrow> length (updateKey key n) = 16"
  by (simp add: updateKey_def)

lemma GameCrypt_lengths [simp]:
  "length (fst (GameCrypt_Encrypt data c)) = length data"
  "length (fst (GameCrypt_Decrypt data c)) = length data"
  by (simp_all add: GameCrypt_Encrypt_def GameCrypt_Decrypt_def)

lemma GameCrypt_frame [simp]:
  "inKey (snd (GameCrypt_Encrypt data c)) = inKey c"
  "outKey (snd (GameCrypt_Decrypt data c)) = outKey c"
  "initd (snd (GameCrypt_Encrypt data c)) = initd c"
  "initd (snd (GameCrypt_Decrypt data c)) = initd c"
  by (simp_all add: GameCrypt_Encrypt_def GameCrypt_Decrypt_def)

lemma wf_crypt_preserved:
  "wf_crypt GameCrypt_zero"
  "wf_crypt c \<Longrightarrow> wf_crypt (snd (GameCrypt_Encrypt data c))"
  "wf_crypt c \<Longrightarrow> wf_crypt (snd (GameCrypt_Decrypt data c))"
  "wf_crypt c \<Longrightarrow> wf_crypt (snd (GameCrypt_Init key c))"
  by (auto simp: wf_crypt_def GameCrypt_Encrypt_def GameCrypt_Decrypt_def GameCrypt_Init_def
      GameCrypt_zero_def gsStaticKey_def Let_def)

lemma GameCrypt_Init_ok:
  assumes "wf_crypt c" and "8 \<le> length key"
  shows "\<exists>c'. GameCrypt_Init key c = (Inr (), c') \<and> wf_crypt c' \<and> initd c' \<and>
    inKey c' = take 8 key @ gsStaticKey \<and> outKey c' = inKey c'"
  using assms
  by (auto simp: GameCrypt_Init_def Let_def wf_crypt_def write_at_def gsStaticKey_def min_def)

text \<open>The whole rolling key as a function of its counter.\<close>

definition key_with :: "byte list \<Rightarrow> u32 \<Rightarrow> byte list" where
  "key_with key n = take 8 key @ le32_bytes n @ drop 12 key"

lemma updateKey_key_with:
  assumes "length key = 16"
  shows "updateKey (key_with key n) m = key_with key (n + of_nat m)"
proof -
  have "u32_at (key_with key n) 8 = n"
    unfolding key_with_def by (rule u32_at_append) (use assms in simp)
  then show ?thesis using assms
    by (simp add: updateKey_def write_at_def key_with_def)
qed

lemma key_with_self:
  assumes "length key = 16"
  shows "key_with key (u32_at key 8) = key"
proof -
  have "take 4 (drop 8 key) = [key ! 8, key ! 9, key ! 10, key ! 11]"
    using assms by (simp add: list_eq_iff_nth_eq nth_Cons' less_Suc_eq numeral_eq_Suc)
  then have "le32_bytes (u32_at key 8) = take 4 (drop 8 key)"
    by (simp add: u32_at_def le32_bytes_val)
  then have "key_with key (u32_at key 8) = take 8 key @ take 4 (drop 8 key) @ drop 12 key"
    by (simp add: key_with_def)
  also have "take 4 (drop 8 key) @ drop 12 key = drop 8 key"
    using append_take_drop_id [of 4 "drop 8 key"] by simp
  also have "take 8 key @ drop 8 key = key" by simp
  finally show ?thesis .
qed

section \<open>A stream of packets\<close>

text \<open>\<open>f\<close> applied to each packet in turn, threading the cipher state.\<close>

fun runAll :: "('p \<Rightarrow> 'k \<Rightarrow> 'p \<times> 'k) \<Rightarrow> 'p list \<Rightarrow> 'k \<Rightarrow> 'p list \<times> 'k" where
  "runAll f [] k = ([], k)"
| "runAll f (p # ps) k = (let (q, k') = f p k; (qs, k'') = runAll f ps k' in (q # qs, k''))"

text \<open>
  What the two ends of a ciphered connection rely on: with \<open>agree e d\<close> between the sender's
  and the receiver's state, decrypting an encrypted packet gives it back at its own length and
  the states agree again.
\<close>

locale rolling_cipher =
  fixes encrypt :: "byte list \<Rightarrow> 'e \<Rightarrow> byte list \<times> 'e"
    and decrypt :: "byte list \<Rightarrow> 'd \<Rightarrow> byte list \<times> 'd"
    and agree :: "'e \<Rightarrow> 'd \<Rightarrow> bool"
  assumes same_length: "length (fst (encrypt p e)) = length p"
    and decrypt_encrypt: "agree e d \<Longrightarrow> fst (decrypt (fst (encrypt p e)) d) = p"
    and agree_step: "agree e d \<Longrightarrow> agree (snd (encrypt p e)) (snd (decrypt (fst (encrypt p e)) d))"
begin

lemma decrypt_encrypt_all:
  assumes "agree e d"
  shows "fst (runAll decrypt (fst (runAll encrypt ps e)) d) = ps \<and>
    agree (snd (runAll encrypt ps e)) (snd (runAll decrypt (fst (runAll encrypt ps e)) d))"
  using assms
proof (induction ps arbitrary: e d)
  case Nil
  then show ?case by simp
next
  case (Cons p ps)
  from Cons.IH [OF agree_step [OF Cons.prems, of p]] decrypt_encrypt [OF Cons.prems, of p]
  show ?case by (simp add: Let_def split_beta)
qed

end

definition keys_agree :: "GameCrypt \<Rightarrow> GameCrypt \<Rightarrow> bool" where
  "keys_agree e d \<longleftrightarrow> outKey e = inKey d \<and> initd e = initd d"

interpretation gs_cipher: rolling_cipher GameCrypt_Encrypt GameCrypt_Decrypt keys_agree
  by unfold_locales
    (auto simp: keys_agree_def GameCrypt_Encrypt_def GameCrypt_Decrypt_def decrypt_encrypt_loop)

section \<open>Properties\<close>

text \<open>
  Two ends whose keys agree (one end's \<open>outKey\<close> is the other's \<open>inKey\<close>) stay in step for
  ever: any sequence of packets of any sizes, encrypted in order, decrypts in order to itself,
  and the rolled keys agree again afterwards.
\<close>

theorem game_stream_roundtrip:
  assumes "keys_agree e d"
  shows "fst (runAll GameCrypt_Decrypt (fst (runAll GameCrypt_Encrypt ps e)) d) = ps \<and>
    keys_agree (snd (runAll GameCrypt_Encrypt ps e))
      (snd (runAll GameCrypt_Decrypt (fst (runAll GameCrypt_Encrypt ps e)) d))"
  using assms by (rule gs_cipher.decrypt_encrypt_all)

definition sample_crypt :: GameCrypt where
  "sample_crypt = snd (GameCrypt_Init [1, 2, 3, 4, 5, 6, 7, 8] GameCrypt_zero)"

lemma sample_crypt_ok: "wf_crypt sample_crypt \<and> initd sample_crypt \<and>
    inKey sample_crypt = [1, 2, 3, 4, 5, 6, 7, 8, 0xc8, 0x27, 0x93, 0x01, 0xa1, 0x6c, 0x31, 0x97] \<and>
    outKey sample_crypt = inKey sample_crypt"
  using GameCrypt_Init_ok [OF wf_crypt_preserved(1), of "[1, 2, 3, 4, 5, 6, 7, 8]"]
  by (auto simp: sample_crypt_def gsStaticKey_def)

theorem game_stream_roundtrip_witness:
  "keys_agree sample_crypt sample_crypt \<and>
   fst (runAll GameCrypt_Decrypt (fst (runAll GameCrypt_Encrypt [[7, 8], [9]] sample_crypt))
     sample_crypt) = [[7, 8], [9]]"
proof -
  have "keys_agree sample_crypt sample_crypt" using sample_crypt_ok by (simp add: keys_agree_def)
  with game_stream_roundtrip [OF this, of "[[7, 8], [9]]"] show ?thesis by blast
qed

lemma runAll_Encrypt_key:
  assumes "wf_crypt c" and "initd c" and "outKey c = key_with key n" and "length key = 16"
  shows "outKey (snd (runAll GameCrypt_Encrypt ps c)) =
      key_with key (n + of_nat (sum_list (map length ps))) \<and>
    inKey (snd (runAll GameCrypt_Encrypt ps c)) = inKey c"
  using assms
proof (induction ps arbitrary: c n)
  case Nil
  then show ?case by simp
next
  case (Cons p ps)
  let ?c = "snd (GameCrypt_Encrypt p c)"
  have "outKey ?c = key_with key (n + of_nat (length p))"
    using Cons.prems by (simp add: GameCrypt_Encrypt_def updateKey_key_with)
  with Cons.IH [of ?c "n + of_nat (length p)"] Cons.prems show ?case
    by (simp add: Let_def split_beta wf_crypt_preserved add.assoc)
qed

text \<open>
  How the key rolls: after any sequence of encrypted packets the outgoing key is the old
  one with only its 32-bit counter at offset 8 advanced, modulo \<open>2 ^ 32\<close>, by the total number of
  bytes sent; the incoming key is untouched.
\<close>

theorem game_key_counter:
  assumes "wf_crypt c" and "initd c"
  shows "outKey (snd (runAll GameCrypt_Encrypt ps c)) =
      take 8 (outKey c) @ le32_bytes (u32_at (outKey c) 8 + of_nat (sum_list (map length ps))) @
      drop 12 (outKey c) \<and>
    inKey (snd (runAll GameCrypt_Encrypt ps c)) = inKey c"
  using runAll_Encrypt_key [OF assms key_with_self [symmetric], of ps] assms(1)
  by (simp add: key_with_def wf_crypt_def)

theorem game_key_counter_witness:
  "drop 8 (outKey (snd (runAll GameCrypt_Encrypt [[7, 8], [9]] sample_crypt))) =
     [0xcb, 0x27, 0x93, 0x01, 0xa1, 0x6c, 0x31, 0x97]"
  using game_key_counter [of sample_crypt "[[7, 8], [9]]"] sample_crypt_ok
  by (simp add: u32_at_def le32_val_def le32_bytes_def)

text \<open>
  Damage to one ciphertext byte is local: if two packets of the same length differ only at
  position \<open>i\<close>, their decryptions differ at most at \<open>i\<close> and \<open>i + 1\<close>, and the receiver's key
  rolls the same way, so every later packet is unaffected.
\<close>

theorem decrypt_error_local:
  assumes "length data' = length data" and "\<And>k. k \<noteq> i \<Longrightarrow> k < length data \<Longrightarrow> data' ! k = data ! k"
    and "j < length data" and "j \<noteq> i" and "j \<noteq> Suc i"
  shows "fst (GameCrypt_Decrypt data' c) ! j = fst (GameCrypt_Decrypt data c) ! j \<and>
    snd (GameCrypt_Decrypt data' c) = snd (GameCrypt_Decrypt data c)"
proof -
  have "data' ! j = data ! j" using assms by simp
  moreover have "j \<noteq> 0 \<Longrightarrow> data' ! (j - 1) = data ! (j - 1)" using assms by auto
  ultimately show ?thesis
    using assms(1,3) by (auto simp: GameCrypt_Decrypt_def nth_decrypt_loop)
qed

theorem decrypt_error_local_witness:
  "fst (GameCrypt_Decrypt [1, 9, 3, 4] sample_crypt) ! 3 =
   fst (GameCrypt_Decrypt [1, 2, 3, 4] sample_crypt) ! 3"
proof -
  have "[1, 9, 3, 4] ! k = ([1, 2, 3, 4] :: byte list) ! k" if "k \<noteq> 1" "k < 4" for k
  proof -
    have "k = 0 \<or> k = 2 \<or> k = 3" using that by linarith
    then show ?thesis by auto
  qed
  then show ?thesis
    using decrypt_error_local [of "[1, 9, 3, 4]" "[1, 2, 3, 4]" 1 3 sample_crypt] by simp
qed

end
