(* ===== verification/ServerCrypt.thy ===== *)
theory ServerCrypt
  imports GoLib
begin

text \<open>
  \<open>internal/crypto/server_crypt.go\<close>: the login server cipher. The Blowfish cipher itself
  lives in another module (\<open>l2go-auth/pkg/crypto\<close>), so it is the parameter \<open>cipher_lib\<close>, and
  \<open>cipher_laws\<close> is what is used of it: ranges that are a whole number of 8-byte blocks keep
  their length and deciphering undoes ciphering under the same key. Modelled here: the padding
  and checksum of outgoing packets with Go's slice capacities, and the XOR pass of the first
  packet with its 32-bit position arithmetic.
\<close>

record 'c cipher_lib =
  NewBlowfishCipher :: "byte list \<Rightarrow> 'c"
  CipherRange :: "'c \<Rightarrow> byte list \<Rightarrow> nat \<Rightarrow> nat \<Rightarrow> byte list"
  DecipherRange :: "'c \<Rightarrow> byte list \<Rightarrow> nat \<Rightarrow> nat \<Rightarrow> byte list"

definition cipher_laws :: "'c cipher_lib \<Rightarrow> bool" where
  "cipher_laws L \<longleftrightarrow> (\<forall>k data. length data mod 8 = 0 \<longrightarrow>
     length (CipherRange L k data 0 (length data)) = length data \<and>
     length (DecipherRange L k data 0 (length data)) = length data \<and>
     DecipherRange L k (CipherRange L k data 0 (length data)) 0 (length data) = data)"

record 'c Crypt =
  cipher :: 'c
  updatedKey :: bool

definition NewCrypt :: "'c cipher_lib \<Rightarrow> byte list \<Rightarrow> 'c Crypt" where
  "NewCrypt L key = \<lparr>cipher = NewBlowfishCipher L key, updatedKey = False\<rparr>"

definition Crypt_UpdateKey :: "'c cipher_lib \<Rightarrow> byte list \<Rightarrow> 'c Crypt \<Rightarrow> 'c Crypt" where
  "Crypt_UpdateKey L key c = c\<lparr>cipher := NewBlowfishCipher L key\<rparr>"

section \<open>Encrypt: padding, checksum, cipher\<close>

text \<open>\<open>for i := 0; i < lim; i += 4 { chk ^= Uint32(data[i:i+4]) }\<close>\<close>

function checksum_loop :: "byte list \<Rightarrow> nat \<Rightarrow> nat \<Rightarrow> u32 \<Rightarrow> u32 res" where
  "checksum_loop data lim i chk =
     (if i < lim then rbind (rdU32 data i) (\<lambda>w. checksum_loop data lim (i + 4) (chk XOR w))
      else Inr chk)"
  by pat_completeness auto
termination
  by (relation "measure (\<lambda>(data, lim, i, chk). lim - i)") auto

declare checksum_loop.simps [simp del]

definition reserve_of :: "'c Crypt \<Rightarrow> nat" where
  "reserve_of c = (if \<not> updatedKey c then 16 else 12)"

definition total_len :: "nat \<Rightarrow> nat \<Rightarrow> nat" where
  "total_len payloadLen reserve =
     (let totalLen = payloadLen + reserve;
          pad = 8 - (totalLen mod 8)
      in if pad \<noteq> 8 then totalLen + pad else totalLen)"

text \<open>
  The result is the returned slice and whether it is still the caller's own memory: below the
  needed capacity Go reallocates, and the caller's buffer is then left as it was.
\<close>

definition Crypt_Encrypt ::
  "'c cipher_lib \<Rightarrow> gslice \<Rightarrow> ('c Crypt, gslice \<times> bool) go" where
  "Crypt_Encrypt L data = (\<lambda>c.
     let payloadLen = slen data;
         totalLen = total_len payloadLen (reserve_of c);
         in_place = (\<not> length (mem data) < totalLen);
         data1 = (if \<not> in_place
                  then \<lparr>mem = visible data @ replicate (totalLen - payloadLen) 0, slen = totalLen\<rparr>
                  else \<lparr>mem = write_at payloadLen (replicate (totalLen - payloadLen) 0) (mem data),
                        slen = totalLen\<rparr>)
     in case checksum_loop (visible data1) (totalLen - 4) 0 0 of
          Inl e \<Rightarrow> (Inl e, c)
        | Inr chk \<Rightarrow>
          (case putU32From (totalLen - 4) chk data1 of
             (Inl e, _) \<Rightarrow> (Inl e, c)
           | (Inr _, data2) \<Rightarrow>
               let out = CipherRange L (cipher c) (visible data2) 0 totalLen
               in (Inr (data2\<lparr>mem := write_at 0 out (mem data2)\<rparr>, in_place),
                   c\<lparr>updatedKey := True\<rparr>)))"

definition Crypt_Decrypt :: "'c cipher_lib \<Rightarrow> byte list \<Rightarrow> 'c Crypt \<Rightarrow> bool \<times> byte list" where
  "Crypt_Decrypt L data c =
     (if length data mod 8 \<noteq> 0 \<or> length data \<le> 0 then (False, data)
      else (True, DecipherRange L (cipher c) data 0 (length data)))"

section \<open>The XOR pass of the Init packet\<close>

text \<open>\<open>raw[pos : pos+4]\<close> with a \<open>uint32\<close> position: the upper bound wraps like the position.\<close>

definition rdU32w :: "byte list \<Rightarrow> u32 \<Rightarrow> u32 res" where
  "rdU32w raw pos =
     (let a = unat pos; b = unat (pos + 4)
      in if a \<le> b \<and> b \<le> length raw \<and> 4 \<le> b - a then Inr (u32_at raw a) else Inl Panic)"

function dec_xor_loop :: "byte list \<Rightarrow> u32 \<Rightarrow> u32 \<Rightarrow> byte list res" where
  "dec_xor_loop raw pos ecx =
     (if pos \<ge> 4 then
        rbind (rdU32w raw pos) (\<lambda>edx0.
        let edx = edx0 XOR ecx;
            ecx' = ecx - edx
        in dec_xor_loop (write_at (unat pos) (le32_bytes edx) raw) (pos - 4) ecx')
      else Inr raw)"
  by pat_completeness auto
termination
  by (relation "measure (\<lambda>(raw, pos, ecx). unat pos)")
    (auto simp: word_le_nat_alt unat_sub)

declare dec_xor_loop.simps [simp del]

definition decXorPass :: "byte list \<Rightarrow> u32 \<Rightarrow> byte list res" where
  "decXorPass raw sz =
     (if sz < 8 then Inr raw
      else let pos = sz - 8
           in rbind (rdU32w raw pos) (\<lambda>ecx. dec_xor_loop raw (pos - 4) ecx))"

definition Crypt_DecryptInit :: "'c cipher_lib \<Rightarrow> byte list \<Rightarrow> 'c Crypt \<Rightarrow> byte list res" where
  "Crypt_DecryptInit L data c =
     (let sz = length data
      in if sz mod 8 \<noteq> 0 \<or> sz \<le> 0 then Inr data
         else decXorPass (DecipherRange L (cipher c) data 0 sz) (of_nat sz))"

section \<open>Padding and checksum\<close>

lemma total_len_eq: "total_len n r = (n + r + 7) div 8 * 8"
proof -
  define k q where "k = (n + r) mod 8" and "q = (n + r) div 8"
  then have "n + r = 8 * q + k" and "k < 8" by simp_all
  moreover from \<open>k < 8\<close> have "k = 0 \<or> (k + 7) div 8 = 1" by arith
  ultimately show ?thesis by (auto simp: total_len_def Let_def add.assoc)
qed

lemma total_len_bounds: "total_len n r mod 8 = 0" "n + r \<le> total_len n r" "total_len n r < n + r + 8"
  unfolding total_len_eq by presburger+

text \<open>The little-endian words of a byte string whose length is a multiple of 4, and their XOR.\<close>

fun words_of :: "byte list \<Rightarrow> u32 list" where
  "words_of (a # b # c # d # bs) = le32_val a b c d # words_of bs"
| "words_of _ = []"

definition xor_sum :: "u32 list \<Rightarrow> u32" where
  "xor_sum ws = fold (XOR) ws 0"

lemma fold_xor: "fold (XOR) ws (x :: u32) = x XOR fold (XOR) ws 0"
proof (induction ws arbitrary: x)
  case Nil
  then show ?case by simp
next
  case (Cons w ws)
  show ?case
    using Cons.IH [of "w XOR x"] Cons.IH [of w] by (simp add: xor.assoc xor.commute xor.left_commute)
qed

lemma xor_sum_append: "xor_sum (us @ ws) = xor_sum us XOR xor_sum ws"
  unfolding xor_sum_def fold_append comp_def by (rule fold_xor)

lemma words_of_append: "length us mod 4 = 0 \<Longrightarrow> words_of (us @ ws) = words_of us @ words_of ws"
  by (induction us rule: words_of.induct) auto

lemma words_of_le32 [simp]: "words_of (le32_bytes v @ bs) = v # words_of bs"
  by (simp add: le32_bytes_def le32_val_bytes)

lemma words_of_drop:
  assumes "i + 4 \<le> length data"
  shows "words_of (drop i data) = u32_at data i # words_of (drop (i + 4) data)"
proof -
  have "drop i data = data ! i # data ! (i + 1) # data ! (i + 2) # data ! (i + 3) # drop (i + 4) data"
    using assms
    by (simp add: Cons_nth_drop_Suc [symmetric] numeral_eq_Suc)
  then show ?thesis by (simp add: u32_at_def)
qed

lemma words_of_take_Suc:
  assumes "i + 4 \<le> lim" and "lim \<le> length data"
  shows "words_of (drop i (take lim data)) = u32_at data i # words_of (drop (i + 4) (take lim data))"
proof -
  have "u32_at (take lim data) i = u32_at data i" using assms by (simp add: u32_at_def)
  then show ?thesis using words_of_drop [of i "take lim data"] assms by simp
qed

text \<open>The checksum loop never leaves the packet and computes the XOR of its words.\<close>

lemma checksum_loop_eq:
  assumes "lim \<le> length data" and "(lim - i) mod 4 = 0" and "i \<le> lim"
  shows "checksum_loop data lim i chk = Inr (chk XOR xor_sum (words_of (drop i (take lim data))))"
  using assms
proof (induction data lim i chk rule: checksum_loop.induct)
  case (1 data lim i chk)
  show ?case
  proof (cases "i < lim")
    case False
    with "1.prems" have "drop i (take lim data) = []" by simp
    with False show ?thesis by (subst checksum_loop.simps) (simp add: xor_sum_def)
  next
    case True
    with "1.prems" have i4: "i + 4 \<le> lim" by presburger
    have "(lim - (i + 4)) mod 4 = 0" using "1.prems" i4 by presburger
    with "1.IH" [OF True] "1.prems" i4
    have IH: "checksum_loop data lim (i + 4) (chk XOR u32_at data i) =
        Inr ((chk XOR u32_at data i) XOR xor_sum (words_of (drop (i + 4) (take lim data))))"
      by simp
    have "xor_sum (words_of (drop i (take lim data))) =
        u32_at data i XOR xor_sum (words_of (drop (i + 4) (take lim data)))"
      using words_of_take_Suc [OF i4 "1.prems"(1)] fold_xor [of _ "u32_at data i"]
      by (simp add: xor_sum_def)
    with True IH i4 "1.prems"(1) show ?thesis
      by (subst checksum_loop.simps) (simp add: xor.assoc)
  qed
qed

text \<open>
  The plaintext of an outgoing packet: the payload, zeros, and the XOR of the words before it
  as the last word.
\<close>

definition sealed :: "nat \<Rightarrow> byte list \<Rightarrow> byte list" where
  "sealed reserve p =
     (let t = total_len (length p) reserve;
          body = p @ replicate (t - 4 - length p) 0
      in body @ le32_bytes (xor_sum (words_of body)))"

lemma length_sealed: "12 \<le> r \<Longrightarrow> length (sealed r p) = total_len (length p) r"
  using total_len_bounds(2) [of "length p" r] by (simp add: sealed_def Let_def)

lemma sealed_checksum:
  assumes "12 \<le> r"
  shows "xor_sum (words_of (sealed r p)) = 0"
proof -
  define t where "t = total_len (length p) r"
  define body where "body = p @ replicate (t - 4 - length p) 0"
  have "length p + 12 \<le> t" and "t mod 8 = 0"
    using assms total_len_bounds [of "length p" r] by (auto simp: t_def)
  then have "length body mod 4 = 0" by (simp add: body_def) presburger
  moreover have "sealed r p = body @ le32_bytes (xor_sum (words_of body)) @ []"
    by (simp add: sealed_def body_def t_def Let_def)
  moreover have "xor_sum (words_of (le32_bytes v @ [])) = v" for v
    by (simp only: words_of_le32) (simp add: xor_sum_def)
  ultimately show ?thesis
    by (simp only: words_of_append xor_sum_append xor_self_eq)
qed

lemma Crypt_Encrypt_ok:
  fixes c :: "'c Crypt"
  assumes "cipher_laws L" and "wf_slice data"
  defines "t \<equiv> total_len (slen data) (reserve_of c)"
  shows "\<exists>out. Crypt_Encrypt L data c = (Inr (out, t \<le> length (mem data)), c\<lparr>updatedKey := True\<rparr>) \<and>
    visible out = CipherRange L (cipher c) (sealed (reserve_of c) (visible data)) 0 t \<and>
    slen out = t \<and> t \<le> length (mem out) \<and>
    (t \<le> length (mem data) \<longrightarrow> length (mem out) = length (mem data) \<and>
       drop t (mem out) = drop t (mem data))"
proof -
  define r where "r = reserve_of c"
  have r: "12 \<le> r" by (simp add: r_def reserve_of_def)
  define p where "p = visible data"
  have p: "length p = slen data" using assms(2) by (simp add: p_def visible_def wf_slice_def)
  have t: "t mod 8 = 0" "slen data + r \<le> t"
    using total_len_bounds [of "slen data" r] by (simp_all add: t_def r_def)
  define data1 where "data1 = (if \<not> t \<le> length (mem data)
      then \<lparr>mem = visible data @ replicate (t - slen data) 0, slen = t\<rparr>
      else \<lparr>mem = write_at (slen data) (replicate (t - slen data) 0) (mem data), slen = t\<rparr>)"
  define body where "body = p @ replicate (t - 4 - length p) 0"
  have t': "slen data + (t - (4 + slen data) + 4) = t" using t(2) r by arith
  have mem1: "mem data1 = body @ replicate 4 0 @ (if t \<le> length (mem data) then drop t (mem data) else [])"
  proof -
    have "replicate (t - slen data) (0 :: byte) = replicate (t - 4 - slen data) 0 @ replicate 4 0"
      using t(2) r by (simp add: replicate_add [symmetric])
    then show ?thesis
      using t(2) t' p by (auto simp: data1_def body_def p_def visible_def write_at_def)
  qed
  have lenb: "length body = t - 4" using t(2) r p by (simp add: body_def)
  have slen1: "slen data1 = t" by (simp add: data1_def)
  have vis1: "take (t - 4) (visible data1) = body"
    using mem1 slen1 lenb by (simp add: visible_def)
  have len1: "t \<le> length (mem data1)" using mem1 lenb t(2) r by simp
  have chk: "checksum_loop (visible data1) (t - 4) 0 0 = Inr (xor_sum (words_of body))"
  proof -
    have "(t - 4) mod 4 = 0" using t(1) by presburger
    then show ?thesis
      using checksum_loop_eq [of "t - 4" "visible data1" 0 0] vis1 slen1 len1
      by (simp add: visible_def)
  qed
  let ?chk = "xor_sum (words_of body)"
  define data2 where "data2 = data1\<lparr>mem := write_at (t - 4) (le32_bytes ?chk) (mem data1)\<rparr>"
  have t4: "t - 4 + 4 = t" using t(2) r by simp
  have put: "putU32From (t - 4) ?chk data1 = (Inr (), data2)"
    using slen1 t4 by (simp add: putU32From_def data2_def)
  have mem2: "mem data2 = sealed r p @ (if t \<le> length (mem data) then drop t (mem data) else [])"
    using mem1 lenb p by (simp add: data2_def write_at_def sealed_def body_def t_def r_def Let_def)
  have lens: "length (sealed r p) = t"
    using length_sealed [OF r] p by (simp add: t_def r_def)
  have vis2: "visible data2 = sealed r p"
    using mem2 lens slen1 by (simp add: visible_def data2_def)
  let ?enc = "CipherRange L (cipher c) (sealed r p) 0 t"
  have lenc: "length ?enc = t"
    using assms(1) lens t(1) unfolding cipher_laws_def by metis
  define out where "out = data2\<lparr>mem := write_at 0 ?enc (mem data2)\<rparr>"
  have memo: "mem out = ?enc @ (if t \<le> length (mem data) then drop t (mem data) else [])"
    using mem2 lens lenc by (simp add: out_def write_at_0)
  have "Crypt_Encrypt L data c = (Inr (out, t \<le> length (mem data)), c\<lparr>updatedKey := True\<rparr>)"
    using chk put vis2 unfolding Crypt_Encrypt_def Let_def t_def [symmetric] data1_def out_def
    by (cases "t \<le> length (mem data)") (simp_all add: not_less)
  moreover have "visible out = ?enc" "slen out = t"
    using memo lenc slen1 by (simp_all add: visible_def out_def data2_def)
  moreover have "t \<le> length (mem out)"
    "t \<le> length (mem data) \<Longrightarrow> length (mem out) = length (mem data) \<and> drop t (mem out) = drop t (mem data)"
    using memo lenc by auto
  ultimately show ?thesis unfolding p_def r_def by blast
qed

section \<open>The XOR pass undoes a chained encoding\<close>

text \<open>
  Specification of the pass: the sender runs forward over the words with a running key, adding
  each word to the key and XOR-ing the key in, and stores the last key after them. The pass
  must walk back from the stored key. \<open>chain_xor k vs\<close> is that encoder: the encoded words
  and the final key.
\<close>

fun chain_xor :: "u32 \<Rightarrow> u32 list \<Rightarrow> u32 list \<times> u32" where
  "chain_xor k [] = ([], k)"
| "chain_xor k (v # vs) =
     (let k' = k + v; (ws, e) = chain_xor k' vs in ((v XOR k') # ws, e))"

lemma chain_xor_snoc:
  "chain_xor k (vs @ [v]) =
     (let (ws, e) = chain_xor k vs; k' = e + v in (ws @ [v XOR k'], k'))"
  by (induction vs arbitrary: k) (simp_all add: Let_def split_beta)

lemma length_chain_xor [simp]: "length (fst (chain_xor k vs)) = length vs"
  by (induction vs arbitrary: k) (simp_all add: Let_def split_beta)

abbreviation flat :: "u32 list \<Rightarrow> byte list" where
  "flat ws \<equiv> concat (map le32_bytes ws)"

lemma length_flat [simp]: "length (flat ws) = 4 * length ws"
  by (induction ws) simp_all

lemma word_pos:
  assumes "n + 4 < 2 ^ 32"
  shows "unat (of_nat n :: u32) = n" and "unat (of_nat n + 4 :: u32) = n + 4"
proof -
  show "unat (of_nat n :: u32) = n"
    unfolding unsigned_of_nat take_bit_eq_mod using assms by simp
  have "(of_nat n + 4 :: u32) = of_nat (n + 4)" by simp
  also have "unat (of_nat (n + 4) :: u32) = n + 4"
    unfolding unsigned_of_nat take_bit_eq_mod using assms by simp
  finally show "unat (of_nat n + 4 :: u32) = n + 4" .
qed

lemma rdU32w_ok:
  assumes "n + 4 \<le> length raw" and "n + 4 < 2 ^ 32"
  shows "rdU32w raw (of_nat n) = Inr (u32_at raw n)"
  using assms word_pos [OF assms(2)] by (simp add: rdU32w_def Let_def)

lemma dec_xor_loop_chain:
  assumes "length hd4 = 4" and "4 * length vs + 4 < 2 ^ 32"
    and "chain_xor k vs = (ws, e)"
  shows "dec_xor_loop (hd4 @ flat ws @ tl8) (of_nat (4 * length vs)) e =
    Inr (hd4 @ flat vs @ tl8)"
  using assms(2,3)
proof (induction vs arbitrary: ws e tl8 rule: rev_induct)
  case Nil
  then show ?case by (subst dec_xor_loop.simps) simp
next
  case (snoc v vs)
  obtain ws0 e0 where c0: "chain_xor k vs = (ws0, e0)" by (metis prod.exhaust)
  with snoc.prems(2) have e: "e = e0 + v" and ws: "ws = ws0 @ [v XOR e]"
    by (auto simp: chain_xor_snoc Let_def)
  have len0: "length ws0 = length vs" by (metis c0 fst_conv length_chain_xor)
  define n where "n = 4 * length (vs @ [v])"
  have n: "n + 4 < 2 ^ 32" using snoc.prems(1) by (simp add: n_def)
  define raw where "raw = hd4 @ flat ws @ tl8"
  have raw: "raw = (hd4 @ flat ws0) @ le32_bytes (v XOR e) @ tl8"
    by (simp add: raw_def ws e)
  have lenp: "length (hd4 @ flat ws0) = n" using assms(1) len0 by (simp add: n_def)
  have rd: "rdU32w raw (of_nat n) = Inr (v XOR e)"
  proof -
    have "u32_at raw n = v XOR e" unfolding raw by (rule u32_at_append [OF lenp])
    moreover have "n + 4 \<le> length raw" using lenp raw by simp
    ultimately show ?thesis using rdU32w_ok n by simp
  qed
  have ge: "(4 :: u32) \<le> of_nat n"
    using word_pos(1) [OF n] by (simp add: word_le_nat_alt n_def)
  have wr: "write_at n (le32_bytes v) raw = hd4 @ flat ws0 @ le32_bytes v @ tl8"
    unfolding raw lenp [symmetric] by (simp add: write_at_def)
  have pos: "of_nat n - (4 :: u32) = of_nat (4 * length vs)" by (simp add: n_def)
  have "dec_xor_loop raw (of_nat n) e =
      dec_xor_loop (hd4 @ flat ws0 @ le32_bytes v @ tl8) (of_nat (4 * length vs)) e0"
    by (subst dec_xor_loop.simps)
      (simp add: ge rd wr pos word_pos(1) [OF n] e xor.assoc)
  also have "\<dots> = Inr (hd4 @ flat vs @ le32_bytes v @ tl8)"
    using snoc.IH [OF _ c0, of "le32_bytes v @ tl8"] snoc.prems(1) by simp
  finally show ?case by (simp add: raw_def n_def)
qed

text \<open>On any packet of at least 16 bytes the pass stays inside the packet.\<close>

lemma dec_xor_loop_total:
  assumes "n + 8 \<le> length raw" and "length raw < 2 ^ 32" and "n mod 4 = 0"
  shows "\<exists>raw'. dec_xor_loop raw (of_nat n) ecx = Inr raw' \<and> length raw' = length raw"
  using assms
proof (induction n arbitrary: raw ecx rule: less_induct)
  case (less n)
  have n: "n + 4 < 2 ^ 32" using less.prems(1,2) by simp
  show ?case
  proof (cases "n < 4")
    case True
    then have "\<not> (4 :: u32) \<le> of_nat n"
      using word_pos(1) [OF n] by (simp add: word_le_nat_alt)
    then show ?thesis by (subst dec_xor_loop.simps) simp
  next
    case False
    let ?edx = "u32_at raw n XOR ecx"
    let ?raw = "write_at n (le32_bytes ?edx) raw"
    have ge: "(4 :: u32) \<le> of_nat n"
      using False word_pos(1) [OF n] by (simp add: word_le_nat_alt)
    have pos: "of_nat n - (4 :: u32) = of_nat (n - 4)" using False by (simp add: of_nat_diff)
    have len: "length ?raw = length raw" using less.prems(1) by simp
    have "dec_xor_loop raw (of_nat n) ecx = dec_xor_loop ?raw (of_nat (n - 4)) (ecx - ?edx)"
      using less.prems(1)
      by (subst dec_xor_loop.simps) (simp add: ge rdU32w_ok [OF _ n] pos word_pos(1) [OF n] Let_def)
    moreover have "(n - 4) mod 4 = 0" using less.prems(3) False by presburger
    ultimately show ?thesis
      using less.IH [of "n - 4" ?raw "ecx - ?edx"] False less.prems len by simp
  qed
qed

lemma decXorPass_start:
  assumes "8 \<le> length raw" and "length raw < 2 ^ 32"
  shows "decXorPass raw (of_nat (length raw)) =
    dec_xor_loop raw (of_nat (length raw - 8) - 4) (u32_at raw (length raw - 8))"
proof -
  have u: "unat (of_nat (length raw) :: u32) = length raw"
    unfolding unsigned_of_nat take_bit_eq_mod using assms(2) by simp
  then have "\<not> (of_nat (length raw) :: u32) < 8" using assms(1) by (simp add: word_less_nat_alt)
  moreover have "(of_nat (length raw) :: u32) - 8 = of_nat (length raw - 8)"
    using assms(1) by (simp add: of_nat_diff)
  ultimately show ?thesis
    using assms rdU32w_ok [of "length raw - 8" raw] by (simp add: decXorPass_def Let_def)
qed

section \<open>Properties\<close>

lemma Crypt_Encrypt_seals:
  fixes c :: "'c Crypt"
  assumes "cipher_laws L" and "wf_slice data"
  shows "\<exists>out body. Crypt_Encrypt L data c =
      (Inr (out, slen out \<le> length (mem data)), c\<lparr>updatedKey := True\<rparr>) \<and>
    Crypt_Decrypt L (visible out) c = (True, body) \<and>
    length body = slen out \<and> length (visible out) = slen out \<and>
    slen out mod 8 = 0 \<and> slen data + reserve_of c \<le> slen out \<and>
    slen out < slen data + reserve_of c + 8 \<and>
    take (slen data) body = visible data \<and> xor_sum (words_of body) = 0 \<and>
    (slen out \<le> length (mem data) \<longrightarrow> length (mem out) = length (mem data) \<and>
      drop (slen out) (mem out) = drop (slen out) (mem data))"
proof -
  define r where "r = reserve_of c"
  have r: "12 \<le> r" by (simp add: r_def reserve_of_def)
  let ?t = "total_len (slen data) r"
  let ?body = "sealed r (visible data)"
  have p: "length (visible data) = slen data"
    using assms(2) by (simp add: visible_def wf_slice_def)
  obtain out where out: "Crypt_Encrypt L data c = (Inr (out, ?t \<le> length (mem data)), c\<lparr>updatedKey := True\<rparr>)"
    "visible out = CipherRange L (cipher c) ?body 0 ?t" "slen out = ?t" "?t \<le> length (mem out)"
    "?t \<le> length (mem data) \<longrightarrow> length (mem out) = length (mem data) \<and>
      drop ?t (mem out) = drop ?t (mem data)"
    using Crypt_Encrypt_ok [OF assms] unfolding r_def by blast
  have body: "length ?body = ?t" using length_sealed [OF r] p by simp
  note t = total_len_bounds [of "slen data" r]
  have laws: "length (visible out) = ?t" "DecipherRange L (cipher c) (visible out) 0 ?t = ?body"
    using assms(1) body t(1) out(2) unfolding cipher_laws_def by metis+
  have "Crypt_Decrypt L (visible out) c = (True, ?body)"
    using laws t r by (simp add: Crypt_Decrypt_def)
  moreover have "take (slen data) ?body = visible data"
    using p t(2) r by (simp add: sealed_def Let_def)
  ultimately show ?thesis
    using out body laws(1) t sealed_checksum [OF r] unfolding r_def by metis
qed

lemma DecryptInit_outcome:
  assumes "cipher_laws L" and "length data < 2 ^ 32"
  shows "if length data = 8 then Crypt_DecryptInit L data c = Inl Panic
    else \<exists>raw. Crypt_DecryptInit L data c = Inr raw"
proof (cases "length data mod 8 \<noteq> 0 \<or> length data = 0")
  case True
  then show ?thesis by (auto simp: Crypt_DecryptInit_def Let_def)
next
  case False
  let ?n = "length data"
  define raw where "raw = DecipherRange L (cipher c) data 0 ?n"
  have len: "length raw = ?n" using assms(1) False unfolding cipher_laws_def raw_def by metis
  have "8 \<le> ?n" using False by presburger
  then have eq: "Crypt_DecryptInit L data c =
      dec_xor_loop raw (of_nat (?n - 8) - 4) (u32_at raw (?n - 8))"
    using False decXorPass_start [of raw] len assms(2)
    by (simp add: Crypt_DecryptInit_def raw_def Let_def)
  show ?thesis
  proof (cases "?n = 8")
    case True
    have "dec_xor_loop raw (0 - 4) (u32_at raw 0) = Inl Panic"
      by (subst dec_xor_loop.simps) (simp add: rdU32w_def Let_def word_le_nat_alt)
    with eq True show ?thesis by simp
  next
    case False
    with \<open>\<not> (?n mod 8 \<noteq> 0 \<or> ?n = 0)\<close> have n: "16 \<le> ?n" "(?n - 12) mod 4 = 0" by presburger+
    then have "(of_nat (?n - 8) - 4 :: u32) = of_nat (?n - 12)" by (simp add: of_nat_diff)
    moreover obtain raw' where "dec_xor_loop raw (of_nat (?n - 12)) (u32_at raw (?n - 8)) = Inr raw'"
      using dec_xor_loop_total [of "?n - 12" raw "u32_at raw (?n - 8)"] n len assms(2) by auto
    ultimately show ?thesis using eq False by simp
  qed
qed

text \<open>
  An instance of the cipher parameter for the witnesses: every byte XOR-ed with the first key
  byte.
\<close>

definition xor_lib :: "byte cipher_lib" where
  "xor_lib = \<lparr>NewBlowfishCipher = (\<lambda>key. case key of [] \<Rightarrow> 0 | b # _ \<Rightarrow> b),
     CipherRange = (\<lambda>k data a n. map (\<lambda>b. b XOR k) data),
     DecipherRange = (\<lambda>k data a n. map (\<lambda>b. b XOR k) data)\<rparr>"

lemma xor_lib_laws: "cipher_laws xor_lib"
proof -
  have "(\<lambda>b. (b XOR k) XOR k) = (\<lambda>b :: byte. b)" for k
    by (rule ext) (simp add: xor.assoc)
  then show ?thesis by (simp add: cipher_laws_def xor_lib_def comp_def)
qed

text \<open>
  C24. What \<open>Encrypt\<close> sends: the ciphertext of a whole number of 8-byte blocks that starts with
  the payload, leaves room for the reserve of 12 bytes (16 on the first packet) and whose
  32-bit words XOR to zero, so the receiver deciphers it to exactly that and its checksum
  holds. The work is done in the caller's memory precisely when its capacity suffices, and
  then the bytes after the packet are untouched.
\<close>

theorem Crypt_Encrypt_correct:
  fixes c :: "'c Crypt"
  assumes "cipher_laws L" and "wf_slice data"
  shows "\<exists>out body. Crypt_Encrypt L data c =
      (Inr (out, slen out \<le> length (mem data)), c\<lparr>updatedKey := True\<rparr>) \<and>
    Crypt_Decrypt L (visible out) c = (True, body) \<and>
    length body = slen out \<and> length (visible out) = slen out \<and>
    slen out mod 8 = 0 \<and> slen data + reserve_of c \<le> slen out \<and>
    slen out < slen data + reserve_of c + 8 \<and>
    take (slen data) body = visible data \<and> xor_sum (words_of body) = 0 \<and>
    (slen out \<le> length (mem data) \<longrightarrow> length (mem out) = length (mem data) \<and>
      drop (slen out) (mem out) = drop (slen out) (mem data))"
  by (rule Crypt_Encrypt_seals [OF assms])

theorem Crypt_Encrypt_correct_witness:
  "\<exists>out. fst (Crypt_Encrypt xor_lib \<lparr>mem = replicate 40 1, slen = 9\<rparr> (NewCrypt xor_lib [7])) =
      Inr (out, True) \<and> slen out = 32"
proof -
  have "wf_slice \<lparr>mem = replicate 40 1, slen = 9\<rparr>" by (simp add: wf_slice_def)
  from Crypt_Encrypt_correct [OF xor_lib_laws this, of "NewCrypt xor_lib [7]"]
  obtain out where out: "Crypt_Encrypt xor_lib \<lparr>mem = replicate 40 1, slen = 9\<rparr> (NewCrypt xor_lib [7]) =
      (Inr (out, slen out \<le> 40), (NewCrypt xor_lib [7])\<lparr>updatedKey := True\<rparr>)"
    and len: "slen out mod 8 = 0" "25 \<le> slen out" "slen out < 33"
    by (auto simp: NewCrypt_def reserve_of_def)
  then have "slen out = 32" by presburger
  with out show ?thesis by simp
qed

text \<open>
  The XOR pass recovers the words of an Init packet from their chained encoding, for every
  key and every packet size: the first and the last word are not part of the chain, the last
  key sits in the word before the last, and the pass leaves all three as they are.
\<close>

theorem decXorPass_inverts_chain:
  assumes "length hd4 = 4" and "length tl4 = 4" and "4 * length vs + 12 < 2 ^ 32"
  shows "decXorPass (hd4 @ flat (fst (chain_xor k vs)) @ le32_bytes (snd (chain_xor k vs)) @ tl4)
      (of_nat (4 * length vs + 12)) =
    Inr (hd4 @ flat vs @ le32_bytes (snd (chain_xor k vs)) @ tl4)"
proof -
  let ?ws = "fst (chain_xor k vs)" and ?e = "snd (chain_xor k vs)"
  define raw where "raw = hd4 @ flat ?ws @ le32_bytes ?e @ tl4"
  have len: "length raw = 4 * length vs + 12" using assms(1,2) by (simp add: raw_def)
  have e: "u32_at raw (length raw - 8) = ?e"
    using u32_at_append [of "hd4 @ flat ?ws" "4 * length vs + 4" ?e tl4] assms(1) len
    by (simp add: raw_def add.commute)
  have pos: "(of_nat (length raw - 8) - 4 :: u32) = of_nat (4 * length vs)"
    unfolding len by simp
  have "dec_xor_loop raw (of_nat (4 * length vs)) ?e = Inr (hd4 @ flat vs @ (le32_bytes ?e @ tl4))"
    unfolding raw_def by (rule dec_xor_loop_chain) (use assms in simp_all)
  then have "decXorPass raw (of_nat (length raw)) = Inr (hd4 @ flat vs @ le32_bytes ?e @ tl4)"
    using decXorPass_start [of raw] len assms(3) unfolding e pos by simp
  then show ?thesis unfolding len by (simp only: raw_def)
qed

theorem decXorPass_inverts_chain_witness:
  "decXorPass [9, 0, 0, 0, 7, 0, 0, 0, 6, 0, 0, 0, 8, 8, 8, 8] 16 =
     Inr [9, 0, 0, 0, 1, 0, 0, 0, 6, 0, 0, 0, 8, 8, 8, 8]"
  using decXorPass_inverts_chain [of "[9, 0, 0, 0]" "[8, 8, 8, 8]" "[1]" 5]
  by (simp add: le32_bytes_def Let_def)

text \<open>
  Decrypting the first packet panics on exactly one size the block check lets through:
  8 bytes. There the position \<open>size - 8 - 4\<close> wraps below zero to a huge \<open>uint32\<close>, the loop
  guard holds and the slice expression is out of range. Every other size returns.
\<close>

theorem DecryptInit_panics_iff:
  assumes "cipher_laws L" and "length data < 2 ^ 32"
  shows "Crypt_DecryptInit L data c = Inl Panic \<longleftrightarrow> length data = 8"
  using DecryptInit_outcome [OF assms, of c] by (auto split: if_splits)

theorem DecryptInit_panics_iff_witness:
  "Crypt_DecryptInit xor_lib [1, 2, 3, 4, 5, 6, 7, 8] (NewCrypt xor_lib [7]) = Inl Panic \<and>
   Crypt_DecryptInit xor_lib (replicate 16 0) (NewCrypt xor_lib [7]) \<noteq> Inl Panic"
  using DecryptInit_panics_iff [OF xor_lib_laws, of "[1, 2, 3, 4, 5, 6, 7, 8]" "NewCrypt xor_lib [7]"]
    DecryptInit_panics_iff [OF xor_lib_laws, of "replicate 16 0" "NewCrypt xor_lib [7]"]
  by simp

end
