(* ===== verification/LoginRsa.thy ===== *)
theory LoginRsa
  imports GoLib
begin

text \<open>
  \<open>internal/crypto/rsa.go\<close>: unscrambling the modulus of the Init packet, and raw RSA on the
  128-byte credential block. \<open>math/big\<close> is arithmetic on \<open>nat\<close>: \<open>SetBytes\<close> reads a big-endian
  number, \<open>Bytes\<close> writes the shortest one, \<open>Exp\<close> is a power modulo \<open>N\<close>, without a
  modulus when \<open>N\<close> is 0.
\<close>

section \<open>Unscrambling the modulus\<close>

text \<open>\<open>for i := range n { mod[d+i] ^= mod[s+i] }\<close> and \<open>for i := range n { swap mod[i], mod[d+i] }\<close>\<close>

definition xor_range :: "nat \<Rightarrow> nat \<Rightarrow> nat \<Rightarrow> byte list \<Rightarrow> byte list" where
  "xor_range d s n m = fold (\<lambda>i m. m[d + i := m ! (d + i) XOR m ! (s + i)]) [0..<n] m"

definition swap_range :: "nat \<Rightarrow> nat \<Rightarrow> byte list \<Rightarrow> byte list" where
  "swap_range d n m = fold (\<lambda>i m. m[i := m ! (d + i), d + i := m ! i]) [0..<n] m"

definition UnscrambleModulus :: "byte list \<Rightarrow> byte list" where
  "UnscrambleModulus m =
     (if length m \<noteq> 128 then m
      else let m1 = xor_range 0x40 0 0x40 m;
               m2 = xor_range 0x0d 0x34 4 m1;
               m3 = xor_range 0 0x40 0x40 m2
           in swap_range 0x4d 4 m3)"

section \<open>Keys and encryption\<close>

record RSA =
  modN :: nat
  pubE :: nat

definition be_nat :: "byte list \<Rightarrow> nat" where
  "be_nat bs = foldl (\<lambda>n b. n * 256 + unat b) 0 bs"

fun be_bytes :: "nat \<Rightarrow> byte list" where
  "be_bytes n = (if n = 0 then [] else be_bytes (n div 256) @ [of_nat (n mod 256)])"

declare be_bytes.simps [simp del]

definition NewRSA :: "byte list \<Rightarrow> RSA" where
  "NewRSA modulus =
     (let unscrambled = take 128 modulus @ replicate (128 - length modulus) 0
      in \<lparr>modN = be_nat (UnscrambleModulus unscrambled), pubE = 65537\<rparr>)"

definition big_Exp :: "nat \<Rightarrow> nat \<Rightarrow> nat \<Rightarrow> nat" where
  "big_Exp x y m = (if m = 0 then x ^ y else x ^ y mod m)"

definition RSA_Encrypt :: "RSA \<Rightarrow> byte list \<Rightarrow> byte list res" where
  "RSA_Encrypt r data =
     (let m = be_nat data;
          c = big_Exp m (pubE r) (modN r);
          out = be_bytes c
      in if length out < 128 then Inr (replicate (128 - length out) 0 @ out) else Inr out)"

section \<open>The loops, byte by byte\<close>

lemma xor_range_nth:
  assumes "d + n \<le> s \<or> s + n \<le> d" and "d + n \<le> length m" and "s + n \<le> length m"
  shows "length (xor_range d s n m) = length m \<and> (\<forall>j < length m. xor_range d s n m ! j =
    (if d \<le> j \<and> j < d + n then m ! j XOR m ! (s + (j - d)) else m ! j))"
  using assms
proof (induction n)
  case 0
  then show ?case by (auto simp: xor_range_def)
next
  case (Suc n)
  let ?m = "xor_range d s n m"
  have IH: "length ?m = length m"
    "\<And>j. j < length m \<Longrightarrow> ?m ! j = (if d \<le> j \<and> j < d + n then m ! j XOR m ! (s + (j - d)) else m ! j)"
    using Suc by auto
  have step: "xor_range d s (Suc n) m = ?m[d + n := ?m ! (d + n) XOR ?m ! (s + n)]"
    by (simp add: xor_range_def)
  have "?m ! (d + n) = m ! (d + n)" "?m ! (s + n) = m ! (s + n)"
    using IH(2) Suc.prems by auto
  then show ?case
    using IH Suc.prems unfolding step by (auto simp: nth_list_update less_Suc_eq)
qed

lemma swap_range_nth:
  assumes "n \<le> d" and "d + n \<le> length m"
  shows "length (swap_range d n m) = length m \<and> (\<forall>j < length m. swap_range d n m ! j =
    (if j < n then m ! (d + j) else if d \<le> j \<and> j < d + n then m ! (j - d) else m ! j))"
  using assms
proof (induction n)
  case 0
  then show ?case by (auto simp: swap_range_def)
next
  case (Suc n)
  let ?m = "swap_range d n m"
  have IH: "length ?m = length m"
    "\<And>j. j < length m \<Longrightarrow> ?m ! j =
      (if j < n then m ! (d + j) else if d \<le> j \<and> j < d + n then m ! (j - d) else m ! j)"
    using Suc by auto
  have step: "swap_range d (Suc n) m = ?m[n := ?m ! (d + n), d + n := ?m ! n]"
    by (simp add: swap_range_def)
  have "?m ! (d + n) = m ! (d + n)" "?m ! n = m ! n"
    using IH(2) Suc.prems by auto
  then show ?case
    using IH Suc.prems unfolding step by (auto simp: nth_list_update less_Suc_eq)
qed

text \<open>Each pass is its own inverse.\<close>

lemma xor_range_involution:
  assumes "d + n \<le> s \<or> s + n \<le> d" and "d + n \<le> length m" and "s + n \<le> length m"
  shows "xor_range d s n (xor_range d s n m) = m"
proof (rule nth_equalityI)
  let ?m = "xor_range d s n m"
  have 1: "length ?m = length m"
    "\<And>j. j < length m \<Longrightarrow> ?m ! j = (if d \<le> j \<and> j < d + n then m ! j XOR m ! (s + (j - d)) else m ! j)"
    using xor_range_nth [OF assms] by auto
  have 2: "length (xor_range d s n ?m) = length ?m"
    "\<And>j. j < length ?m \<Longrightarrow> xor_range d s n ?m ! j =
      (if d \<le> j \<and> j < d + n then ?m ! j XOR ?m ! (s + (j - d)) else ?m ! j)"
    using xor_range_nth [of d n s ?m] assms 1(1) by auto
  show "length (xor_range d s n ?m) = length m" using 1 2 by simp
  fix j
  assume "j < length (xor_range d s n ?m)"
  then have "j < length m" using 1 2 by simp
  then show "xor_range d s n ?m ! j = m ! j" using 1 2 assms by (auto simp: xor.assoc)
qed

lemma swap_range_involution:
  assumes "n \<le> d" and "d + n \<le> length m"
  shows "swap_range d n (swap_range d n m) = m"
proof (rule nth_equalityI)
  let ?m = "swap_range d n m"
  have 1: "length ?m = length m" "\<And>j. j < length m \<Longrightarrow> ?m ! j =
      (if j < n then m ! (d + j) else if d \<le> j \<and> j < d + n then m ! (j - d) else m ! j)"
    using swap_range_nth [OF assms] by auto
  have 2: "length (swap_range d n ?m) = length ?m" "\<And>j. j < length ?m \<Longrightarrow> swap_range d n ?m ! j =
      (if j < n then ?m ! (d + j) else if d \<le> j \<and> j < d + n then ?m ! (j - d) else ?m ! j)"
    using swap_range_nth [of n d ?m] assms 1(1) by auto
  show "length (swap_range d n ?m) = length m" using 1 2 by simp
  fix j
  assume "j < length (swap_range d n ?m)"
  then have "j < length m" using 1 2 by simp
  then show "swap_range d n ?m ! j = m ! j" using 1 2 assms by auto
qed

text \<open>The scrambling the passes reverse: the same passes in the opposite order.\<close>

definition scramble :: "byte list \<Rightarrow> byte list" where
  "scramble m = xor_range 0x40 0 0x40 (xor_range 0x0d 0x34 4 (xor_range 0 0x40 0x40
     (swap_range 0x4d 4 m)))"

lemma pass_lengths:
  "length m = 128 \<Longrightarrow> length (xor_range 0x40 0 0x40 m) = 128"
  "length m = 128 \<Longrightarrow> length (xor_range 0x0d 0x34 4 m) = 128"
  "length m = 128 \<Longrightarrow> length (xor_range 0 0x40 0x40 m) = 128"
  "length m = 128 \<Longrightarrow> length (swap_range 0x4d 4 m) = 128"
  using xor_range_nth [of "0x40" "0x40" 0 m] xor_range_nth [of "0x0d" 4 "0x34" m]
    xor_range_nth [of 0 "0x40" "0x40" m] swap_range_nth [of 4 "0x4d" m]
  by simp_all

lemma pass_involutions:
  "length m = 128 \<Longrightarrow> xor_range 0x40 0 0x40 (xor_range 0x40 0 0x40 m) = m"
  "length m = 128 \<Longrightarrow> xor_range 0x0d 0x34 4 (xor_range 0x0d 0x34 4 m) = m"
  "length m = 128 \<Longrightarrow> xor_range 0 0x40 0x40 (xor_range 0 0x40 0x40 m) = m"
  "length m = 128 \<Longrightarrow> swap_range 0x4d 4 (swap_range 0x4d 4 m) = m"
  by (auto intro!: xor_range_involution swap_range_involution)

lemma length_UnscrambleModulus [simp]: "length (UnscrambleModulus m) = length m"
  by (simp add: UnscrambleModulus_def Let_def pass_lengths)

lemma Unscramble_scramble: "length m = 128 \<Longrightarrow> UnscrambleModulus (scramble m) = m"
  by (simp add: UnscrambleModulus_def scramble_def Let_def pass_lengths pass_involutions)

lemma scramble_Unscramble: "length m = 128 \<Longrightarrow> scramble (UnscrambleModulus m) = m"
  by (simp add: UnscrambleModulus_def scramble_def Let_def pass_lengths pass_involutions)

section \<open>Big-endian numbers\<close>

lemma be_nat_snoc: "be_nat (bs @ [b]) = be_nat bs * 256 + unat b"
  by (simp add: be_nat_def)

lemma be_nat_be_bytes [simp]: "be_nat (be_bytes n) = n"
proof (induction n rule: be_bytes.induct)
  case (1 n)
  show ?case
  proof (cases "n = 0")
    case True
    then show ?thesis by (subst be_bytes.simps) (simp add: be_nat_def)
  next
    case False
    have "unat (of_nat (n mod 256) :: byte) = n mod 256"
      unfolding unsigned_of_nat take_bit_eq_mod by simp
    with "1" [OF False] False show ?thesis
      by (subst be_bytes.simps) (simp add: be_nat_snoc)
  qed
qed

lemma be_nat_zeros [simp]: "be_nat (replicate k 0 @ bs) = be_nat bs"
  by (induction k) (simp_all add: be_nat_def)

lemma length_be_bytes_le: "n < 256 ^ k \<Longrightarrow> length (be_bytes n) \<le> k"
proof (induction k arbitrary: n)
  case 0
  then show ?case by (simp add: be_bytes.simps)
next
  case (Suc k)
  have "n div 256 < 256 ^ k" using Suc.prems by (simp add: less_mult_imp_div_less mult.commute)
  from Suc.IH [OF this] show ?case by (subst be_bytes.simps) simp
qed

lemma be_nat_less: "be_nat bs < 256 ^ length bs"
proof (induction bs rule: rev_induct)
  case Nil
  then show ?case by (simp add: be_nat_def)
next
  case (snoc b bs)
  have "unat b < 256" using unsigned_less [of b, where ?'a = nat] by simp
  with snoc show ?case by (simp add: be_nat_snoc)
qed

lemma RSA_Encrypt_value:
  assumes "N \<noteq> 0" and "N < 256 ^ 128" and "r = \<lparr>modN = N, pubE = e\<rparr>"
  shows "\<exists>out. RSA_Encrypt r block = Inr out \<and> length out = 128 \<and>
    be_nat out = be_nat block ^ e mod N"
proof -
  define c where "c = be_nat block ^ e mod N"
  have "c < N" using assms(1) by (simp add: c_def)
  with assms(2) have "c < 256 ^ 128" by (rule order_less_trans [rotated])
  then have len: "length (be_bytes c) \<le> 128" by (rule length_be_bytes_le)
  have "RSA_Encrypt r block = Inr (replicate (128 - length (be_bytes c)) 0 @ be_bytes c)"
    using len assms(1,3) by (auto simp: RSA_Encrypt_def big_Exp_def c_def Let_def)
  with len show ?thesis by (auto simp: c_def [symmetric])
qed

lemma NewRSA_scramble:
  assumes "length m = 128"
  shows "NewRSA (scramble m) = \<lparr>modN = be_nat m, pubE = 65537\<rparr>"
proof -
  have "length (scramble m) = 128" using assms by (simp add: scramble_def pass_lengths)
  then show ?thesis using assms by (simp add: NewRSA_def Unscramble_scramble)
qed

lemma be_nat_128: "length m = 128 \<Longrightarrow> be_nat m < 256 ^ 128"
  using be_nat_less [of m] by simp

section \<open>Properties\<close>

text \<open>
  Unscrambling is a bijection on 128-byte moduli, with the reversed passes as its inverse
  on both sides: no modulus is lost or confused with another. Any other length is left alone.
\<close>

theorem UnscrambleModulus_bijection:
  assumes "length m = 128"
  shows "UnscrambleModulus (scramble m) = m \<and> scramble (UnscrambleModulus m) = m \<and>
    length (UnscrambleModulus m) = 128"
  using assms by (simp add: Unscramble_scramble scramble_Unscramble)

theorem UnscrambleModulus_bijection_witness:
  "UnscrambleModulus (scramble (replicate 127 0 @ [5])) = replicate 127 0 @ [5]"
  using UnscrambleModulus_bijection [of "replicate 127 0 @ [5]"] by simp

text \<open>
  C34. A key built from the scrambled form of a server's non-zero 128-byte modulus encrypts to
  exactly 128 bytes, which read as a big-endian number are the block raised to 65537 modulo
  that server's modulus.
\<close>

theorem NewRSA_Encrypt_correct:
  assumes "length m = 128" and "be_nat m \<noteq> 0"
  shows "\<exists>out. RSA_Encrypt (NewRSA (scramble m)) block = Inr out \<and> length out = 128 \<and>
    be_nat out = be_nat block ^ 65537 mod be_nat m"
  by (rule RSA_Encrypt_value [OF assms(2) be_nat_128 [OF assms(1)] NewRSA_scramble [OF assms(1)]])

theorem NewRSA_Encrypt_correct_witness:
  "\<exists>out. RSA_Encrypt (NewRSA (scramble (replicate 127 0 @ [5]))) [1] = Inr out \<and> be_nat out = 1"
proof -
  have "be_nat (replicate 127 0 @ [5]) = 5" by (simp only: be_nat_zeros) (simp add: be_nat_def)
  with NewRSA_Encrypt_correct [of "replicate 127 0 @ [5]" "[1]"] show ?thesis
    by (auto simp: be_nat_def)
qed

end
