(* ===== verification/Encoder.thy ===== *)
theory Encoder
  imports GoLib
begin

text \<open>
  The shape shared by the \<open>Encode...To\<close> functions of \<open>protocol.go\<close>: they fill a caller's buffer
  field by field, moving a position along. \<open>emits w bs\<close> says that one such piece writes exactly
  the bytes \<open>bs\<close> at the position it is given and advances by their number, or panics when they
  do not fit; it composes along \<open>andThen\<close>, so each encoder's bytes are read off its layout.
  \<open>packet_encoder\<close> is the contract a whole encoder gives the code that sends its packet.
\<close>

named_theorems emit_rules \<open>what the pieces of an encoder write\<close>

type_synonym piece = "nat \<Rightarrow> (gslice, nat) go"

definition emits :: "piece \<Rightarrow> byte list \<Rightarrow> bool" where
  "emits w bs \<longleftrightarrow> (\<forall>pos s. wf_slice s \<and> pos \<le> slen s \<longrightarrow>
     (if pos + length bs \<le> slen s
      then w pos s = (Inr (pos + length bs), s\<lparr>mem := write_at pos bs (mem s)\<rparr>)
      else fst (w pos s) = Inl Panic))"

text \<open>\<open>data[pos] = v; pos++\<close> and \<open>PutUint32(data[pos:], v); pos += 4\<close>\<close>

definition wB :: "byte \<Rightarrow> piece" where
  "wB v pos = andThen (setB pos v) (\<lambda>_. ret (pos + 1))"

definition w32 :: "u32 \<Rightarrow> piece" where
  "w32 v pos = andThen (putU32From pos v) (\<lambda>_. ret (pos + 4))"

definition w16 :: "u16 \<Rightarrow> piece" where
  "w16 v pos = andThen (putU16From pos v) (\<lambda>_. ret (pos + 2))"

text \<open>
  \<open>for i := range len(s) { data[pos] = s[i]; data[pos+1] = 0; pos += 2 }\<close> and the same followed
  by the two zero bytes that end the string.
\<close>

fun w_utf16 :: "byte list \<Rightarrow> piece" where
  "w_utf16 [] pos = ret pos"
| "w_utf16 (b # bs) pos =
     andThen (setB pos b) (\<lambda>_. andThen (setB (pos + 1) 0) (\<lambda>_. w_utf16 bs (pos + 2)))"

definition w_utf16z :: "byte list \<Rightarrow> piece" where
  "w_utf16z bs pos = andThen (w_utf16 bs pos) (\<lambda>pos.
     andThen (setB pos 0) (\<lambda>_. andThen (setB (pos + 1) 0) (\<lambda>_. ret (pos + 2))))"

definition utf16 :: "byte list \<Rightarrow> byte list" where
  "utf16 bs = concat (map (\<lambda>b. [b, 0]) bs)"

definition utf16z :: "byte list \<Rightarrow> byte list" where
  "utf16z bs = utf16 bs @ [0, 0]"

lemma length_utf16 [simp]: "length (utf16 bs) = 2 * length bs" "length (utf16z bs) = 2 * length bs + 2"
  by (induction bs) (simp_all add: utf16_def utf16z_def)

section \<open>What the pieces write\<close>

lemma emitsD:
  assumes "emits w bs" and "wf_slice s" and "pos + length bs \<le> slen s"
  shows "w pos s = (Inr (pos + length bs), s\<lparr>mem := write_at pos bs (mem s)\<rparr>)"
  using assms by (auto simp: emits_def)

lemma emits_panic:
  assumes "emits w bs" and "wf_slice s" and "pos \<le> slen s" and "\<not> pos + length bs \<le> slen s"
  shows "fst (w pos s) = Inl Panic"
  using assms by (auto simp: emits_def)

lemma wf_slice_write [simp]:
  "wf_slice s \<Longrightarrow> pos + length bs \<le> slen s \<Longrightarrow> wf_slice (s\<lparr>mem := write_at pos bs (mem s)\<rparr>)"
  by (simp add: wf_slice_def)

lemma emits_wB [emit_rules]: "emits (wB v) [v]"
  by (auto simp: emits_def wB_def setB_def andThen_def wf_slice_def write_at_single)

lemma emits_w32 [emit_rules]: "emits (w32 v) (le32_bytes v)"
  by (auto simp: emits_def w32_def putU32From_def andThen_def)

lemma emits_w16 [emit_rules]: "emits (w16 v) (le16_bytes v)"
  by (auto simp: emits_def w16_def putU16From_def andThen_def)

lemma emits_done [emit_rules]: "emits ret []"
  by (auto simp: emits_def wf_slice_def)

lemma emits_andThen:
  assumes "emits w bs" and "emits v cs"
  shows "emits (\<lambda>pos. andThen (w pos) v) (bs @ cs)"
  unfolding emits_def
proof (intro allI impI)
  fix pos s
  assume a: "wf_slice s \<and> pos \<le> slen s"
  show "if pos + length (bs @ cs) \<le> slen s
        then andThen (w pos) v s = (Inr (pos + length (bs @ cs)), s\<lparr>mem := write_at pos (bs @ cs) (mem s)\<rparr>)
        else fst (andThen (w pos) v s) = Inl Panic"
  proof (cases "pos + length bs \<le> slen s")
    case True
    let ?s = "s\<lparr>mem := write_at pos bs (mem s)\<rparr>"
    have w: "w pos s = (Inr (pos + length bs), ?s)" using assms(1) a True by (auto intro: emitsD)
    have wf: "wf_slice ?s" using a True by simp
    have app: "write_at (pos + length bs) cs (write_at pos bs (mem s)) = write_at pos (bs @ cs) (mem s)"
      using a True by (intro write_at_append) (simp add: wf_slice_def)
    show ?thesis
      using emitsD [OF assms(2) wf, of "pos + length bs"] emits_panic [OF assms(2) wf, of "pos + length bs"]
        True app w by (auto simp: andThen_def add.assoc)
  next
    case False
    then have "fst (w pos s) = Inl Panic" using assms(1) a by (auto intro: emits_panic)
    then show ?thesis using False by (cases "w pos s") (auto simp: andThen_def)
  qed
qed

lemma emits_seq [emit_rules]:
  assumes "emits w bs" and "emits v cs"
  shows "emits (\<lambda>pos. andThen (w pos) (\<lambda>pos. v pos)) (bs @ cs)"
  using emits_andThen [OF assms] .

lemma emits_cons:
  assumes "emits v bs"
  shows "emits (\<lambda>pos. andThen (setB pos b) (\<lambda>_. v (pos + 1))) (b # bs)"
proof -
  have "(\<lambda>pos. andThen (setB pos b) (\<lambda>_. v (pos + 1))) = (\<lambda>pos. andThen (wB b pos) v)"
    by (rule ext) (simp add: wB_def andThen_assoc, simp add: andThen_def ret_def)
  then show ?thesis using emits_andThen [OF emits_wB assms, of b] by simp
qed

lemma emits_w_utf16 [emit_rules]: "emits (w_utf16 bs) (utf16 bs)"
proof (induction bs)
  case Nil
  have "w_utf16 [] = ret" by (rule ext) simp
  with emits_done show ?case by (simp only: utf16_def list.map concat.simps)
next
  case (Cons b bs)
  have "w_utf16 (b # bs) = (\<lambda>pos. andThen (setB pos b) (\<lambda>_. (\<lambda>pos. andThen (setB pos 0)
      (\<lambda>_. w_utf16 bs (pos + 1))) (pos + 1)))"
    by (rule ext) simp
  with emits_cons [OF emits_cons [OF Cons, of 0], of b] show ?case by (simp add: utf16_def)
qed

lemma emits_w_utf16z [emit_rules]: "emits (w_utf16z bs) (utf16z bs)"
proof -
  have z: "emits (\<lambda>pos. andThen (setB pos 0) (\<lambda>_. andThen (setB (pos + 1) 0) (\<lambda>_. ret (pos + 2)))) [0, 0]"
    using emits_cons [OF emits_cons [OF emits_done, of 0], of 0] by simp
  have "w_utf16z bs = (\<lambda>pos. andThen (w_utf16 bs pos)
      (\<lambda>pos. andThen (setB pos 0) (\<lambda>_. andThen (setB (pos + 1) 0) (\<lambda>_. ret (pos + 2)))))"
    by (rule ext) (simp add: w_utf16z_def)
  with emits_andThen [OF emits_w_utf16 z] show ?thesis by (simp add: utf16z_def)
qed

section \<open>Fields at fixed offsets\<close>

text \<open>
  The login encoders name their offsets. \<open>fills m bs cs\<close>: with \<open>bs\<close> already at the front of the
  buffer, \<open>m\<close> puts \<open>cs\<close> right after it and changes nothing else.
\<close>

named_theorems fill_rules \<open>what the statements of a fixed-offset encoder write\<close>

definition fills :: "(gslice, unit) go \<Rightarrow> byte list \<Rightarrow> byte list \<Rightarrow> bool" where
  "fills m bs cs \<longleftrightarrow> (\<forall>s. wf_slice s \<and> length (bs @ cs) \<le> slen s \<longrightarrow>
     m (s\<lparr>mem := bs @ drop (length bs) (mem s)\<rparr>) =
       (Inr (), s\<lparr>mem := (bs @ cs) @ drop (length (bs @ cs)) (mem s)\<rparr>))"

lemma fillsD:
  "fills m bs cs \<Longrightarrow> wf_slice s \<Longrightarrow> length (bs @ cs) \<le> slen s \<Longrightarrow>
     m (s\<lparr>mem := bs @ drop (length bs) (mem s)\<rparr>) =
       (Inr (), s\<lparr>mem := (bs @ cs) @ drop (length (bs @ cs)) (mem s)\<rparr>)"
  by (simp add: fills_def)

lemma fills_start:
  "fills m [] cs \<Longrightarrow> wf_slice s \<Longrightarrow> length cs \<le> slen s \<Longrightarrow>
     m s = (Inr (), s\<lparr>mem := cs @ drop (length cs) (mem s)\<rparr>)"
  using fillsD [of m "[]" cs s] by simp

lemma fills_setB [fill_rules]:
  assumes "i = length bs"
  shows "fills (setB i v) bs [v]"
  unfolding fills_def
proof (intro allI impI)
  fix s
  assume s: "wf_slice s \<and> length (bs @ [v]) \<le> slen s"
  then have "drop (length bs) (mem s) \<noteq> []" by (simp add: wf_slice_def)
  then have "(bs @ drop (length bs) (mem s))[length bs := v] =
      (bs @ [v]) @ drop (length (bs @ [v])) (mem s)"
    by (cases "drop (length bs) (mem s)") (auto simp: drop_Suc tl_drop [symmetric])
  with s assms show "setB i v (s\<lparr>mem := bs @ drop (length bs) (mem s)\<rparr>) =
      (Inr (), s\<lparr>mem := (bs @ [v]) @ drop (length (bs @ [v])) (mem s)\<rparr>)"
    by (simp add: setB_def)
qed

lemma fills_putU32 [fill_rules]:
  assumes "a = length bs" and "b = a + 4"
  shows "fills (putU32 a b v) bs (le32_bytes v)"
  using assms by (auto simp: fills_def putU32_def wf_slice_def write_at_def add.commute)

lemma fills_seq:
  assumes "fills m bs cs" and "fills n (bs @ cs) ds"
  shows "fills (andThen m (\<lambda>_. n)) bs (cs @ ds)"
  unfolding fills_def
proof (intro allI impI)
  fix s
  assume s: "wf_slice s \<and> length (bs @ cs @ ds) \<le> slen s"
  have "m (s\<lparr>mem := bs @ drop (length bs) (mem s)\<rparr>) =
      (Inr (), s\<lparr>mem := (bs @ cs) @ drop (length (bs @ cs)) (mem s)\<rparr>)"
    using s by (intro fillsD [OF assms(1)]) auto
  moreover have "n (s\<lparr>mem := (bs @ cs) @ drop (length (bs @ cs)) (mem s)\<rparr>) =
      (Inr (), s\<lparr>mem := ((bs @ cs) @ ds) @ drop (length ((bs @ cs) @ ds)) (mem s)\<rparr>)"
    using s by (intro fillsD [OF assms(2)]) auto
  ultimately show "andThen m (\<lambda>_. n) (s\<lparr>mem := bs @ drop (length bs) (mem s)\<rparr>) =
      (Inr (), s\<lparr>mem := (bs @ cs @ ds) @ drop (length (bs @ cs @ ds)) (mem s)\<rparr>)"
    by (simp add: andThen_Inr)
qed

lemma fills_ret: "fills (ret ()) bs []"
  by (simp add: fills_def)

lemma fills_forRange:
  assumes "a = length bs" and "b = a + n"
  shows "fills (forRange [a..<b] (\<lambda>i. setB i v)) bs (replicate n v)"
  using assms
proof (induction n arbitrary: bs a)
  case 0
  then have "[a..<b] = []" by simp
  then show ?case using fills_ret by (simp only: forRange.simps replicate.simps)
next
  case (Suc n)
  then have "[a..<b] = a # [Suc a..<b]" by (simp add: upt_conv_Cons)
  with fills_seq [OF fills_setB [OF Suc.prems(1)] Suc.IH [of "Suc a" "bs @ [v]"]] Suc.prems
  show ?case by simp
qed

lemma fills_clear [fill_rules]:
  assumes "a = length bs" and "a + n = b"
  shows "fills (forRange [a..<b] (\<lambda>i. setB i 0)) bs (replicate n 0)"
  by (rule fills_forRange [OF assms(1) assms(2) [symmetric]])

section \<open>The size of the buffer\<close>

text \<open>No encoder changes the length or the capacity of the buffer it is given, even if it panics.\<close>

named_theorems size_rules \<open>writes that keep the size of the buffer\<close>

definition has_size :: "nat \<Rightarrow> nat \<Rightarrow> gslice \<Rightarrow> bool" where
  "has_size cap n s \<longleftrightarrow> length (mem s) = cap \<and> slen s = n \<and> n \<le> cap"

definition same_size :: "(gslice, 'a) go \<Rightarrow> bool" where
  "same_size m \<longleftrightarrow> (\<forall>cap n. preserves (has_size cap n) m)"

lemma same_sizeD:
  "same_size m \<Longrightarrow> m s = (r, t) \<Longrightarrow> wf_slice s \<Longrightarrow> length (mem t) = length (mem s) \<and> slen t = slen s"
  unfolding same_size_def
  by (metis has_size_def preservesD snd_conv wf_slice_def)

lemma same_size_ops [size_rules]:
  "same_size (setB i v)" "same_size (putU32 a b w)" "same_size (putU32From a w)"
  "same_size (putU16From a h)" "same_size (ret x)"
  by (auto simp: same_size_def preserves_def keeps_def has_size_def setB_def putU32_def putU32From_def
      putU16From_def)

lemma same_size_andThen [size_rules]:
  "same_size m \<Longrightarrow> (\<And>x. same_size (f x)) \<Longrightarrow> same_size (andThen m f)"
  unfolding same_size_def by (blast intro: preserves_andThen)

lemma same_size_if [size_rules]:
  "(b \<Longrightarrow> same_size m) \<Longrightarrow> (\<not> b \<Longrightarrow> same_size n) \<Longrightarrow> same_size (if b then m else n)"
  by simp

lemma same_size_forRange [size_rules]:
  assumes "\<And>i. same_size (body i)"
  shows "same_size (forRange is body)"
proof (induction "is")
  case Nil
  show ?case unfolding forRange.simps by (rule size_rules)
next
  case (Cons i "is")
  show ?case unfolding forRange.simps by (intro size_rules assms Cons)
qed

lemma same_size_pieces [size_rules]:
  "same_size (wB v pos)" "same_size (w32 w pos)" "same_size (w16 h pos)"
  unfolding wB_def w32_def w16_def by (intro size_rules)+

lemma same_size_w_utf16 [size_rules]: "same_size (w_utf16 bs pos)"
proof (induction bs arbitrary: pos)
  case Nil
  show ?case unfolding w_utf16.simps by (rule size_rules)
next
  case (Cons b bs)
  show ?case unfolding w_utf16.simps by (intro size_rules Cons)
qed

lemma same_size_w_utf16z [size_rules]: "same_size (w_utf16z bs pos)"
  unfolding w_utf16z_def by (intro size_rules)

section \<open>A whole encoder\<close>

locale packet_encoder =
  fixes encode :: "'m \<Rightarrow> (gslice, nat) go"
    and bytes :: "'m \<Rightarrow> byte list"
  assumes encode_ok: "wf_slice s \<Longrightarrow> length (bytes m) \<le> slen s \<Longrightarrow>
    encode m s = (Inr (length (bytes m)), s\<lparr>mem := bytes m @ drop (length (bytes m)) (mem s)\<rparr>)"
begin

lemma encode_visible:
  assumes "wf_slice s" and "length (bytes m) \<le> slen s"
  shows "take (length (bytes m)) (visible (snd (encode m s))) = bytes m"
  using assms by (simp add: encode_ok visible_def wf_slice_def)

text \<open>Nothing of what the buffer held before reaches the packet.\<close>

lemma encode_no_stale_bytes:
  assumes "wf_slice s" and "wf_slice s'" and "slen s = slen s'" and "length (bytes m) \<le> slen s"
  shows "fst (encode m s) = fst (encode m s') \<and>
    take (length (bytes m)) (mem (snd (encode m s))) = take (length (bytes m)) (mem (snd (encode m s')))"
  using assms by (simp add: encode_ok)

end

text \<open>An encoder that starts at position 0 and is made of pieces is a \<open>packet_encoder\<close>.\<close>

lemma encoder_of_emits:
  assumes "\<And>m. emits (enc m) (bytes m)"
  shows "packet_encoder (\<lambda>m. enc m 0) bytes"
proof
  fix s m
  assume "wf_slice s" and "length (bytes m) \<le> slen s"
  then show "enc m 0 s = (Inr (length (bytes m)), s\<lparr>mem := bytes m @ drop (length (bytes m)) (mem s)\<rparr>)"
    using emitsD [OF assms, of s 0 m] by (simp add: write_at_0)
qed

end
