(* ===== verification/LoginProtocol.thy ===== *)
theory LoginProtocol
  imports Encoder LoginRsa
begin

text \<open>
  The login server half of \<open>internal/net/protocol.go\<close>: opcodes, the decoders of the
  server's packets and the encoders of the client's. A decoder reads the packet it was given
  with checked reads, so that its length tests are what keeps it from panicking.
\<close>

section \<open>Opcodes and layout constants\<close>

definition OpInit :: byte where "OpInit = 0x00"
definition OpLoginFail :: byte where "OpLoginFail = 0x01"
definition OpLoginSuccess :: byte where "OpLoginSuccess = 0x03"
definition OpServerList :: byte where "OpServerList = 0x04"
definition OpPlayFail :: byte where "OpPlayFail = 0x06"
definition OpPlaySuccess :: byte where "OpPlaySuccess = 0x07"
definition OpGGAuthResponse :: byte where "OpGGAuthResponse = 0x0b"

definition OpLoginRequest :: byte where "OpLoginRequest = 0x00"
definition OpRequestServerLogin :: byte where "OpRequestServerLogin = 0x02"
definition OpRequestServerList :: byte where "OpRequestServerList = 0x05"
definition OpAuthGGRequest :: byte where "OpAuthGGRequest = 0x07"

definition RSAOffsetAccount :: nat where "RSAOffsetAccount = 0x5E"
definition RSAOffsetPassword :: nat where "RSAOffsetPassword = 0x6C"
definition RSAOffsetSessionID :: nat where "RSAOffsetSessionID = 0x7C"
definition RSABlockSize :: nat where "RSABlockSize = 128"

definition H5InitBlowfishKeyOffset :: nat where "H5InitBlowfishKeyOffset = 153"
definition H5InitMinPacketSize :: nat where "H5InitMinPacketSize = 170"
definition H5ServerListEntrySize :: nat where "H5ServerListEntrySize = 21"

lemmas login_ops = OpInit_def OpLoginFail_def OpLoginSuccess_def OpServerList_def OpPlayFail_def
  OpPlaySuccess_def OpGGAuthResponse_def OpLoginRequest_def OpRequestServerLogin_def
  OpRequestServerList_def OpAuthGGRequest_def

lemmas login_layout = RSAOffsetAccount_def RSAOffsetPassword_def RSAOffsetSessionID_def
  RSABlockSize_def H5InitBlowfishKeyOffset_def H5InitMinPacketSize_def H5ServerListEntrySize_def

section \<open>Decoders\<close>

definition loginFailReasons :: "u32 \<Rightarrow> string option" where
  "loginFailReasons = map_of
    [(0x01, ''System error''), (0x02, ''Invalid password''), (0x03, ''Invalid user/password''),
     (0x04, ''Access denied''), (0x05, ''Account in use''), (0x07, ''Server is full''),
     (0x08, ''Account banned''), (0x10, ''Internal server error'')]"

definition GetLoginFailReason :: "byte list \<Rightarrow> string res" where
  "GetLoginFailReason data =
     (if length data < 5 then Inr ''Unknown error (packet too short)''
      else rbind (rdU32 data 1) (\<lambda>reason.
        case loginFailReasons reason of Some msg \<Rightarrow> Inr msg | None \<Rightarrow> Inr ''Unknown error''))"

record InitPacket =
  RSAModulus :: "byte list"
  BlowfishKey :: "byte list"
  SessionID :: u32
  ProtocolVersion :: u32

definition DecodeInit :: "byte list \<Rightarrow> InitPacket res" where
  "DecodeInit data =
     (if length data < H5InitMinPacketSize then Inl (Error ''packet too short for Init'')
      else rbind (idx data 0) (\<lambda>op.
      if op \<noteq> OpInit then Inl (Error ''invalid opcode for Init packet'')
      else
        rbind (rdU32 data 1) (\<lambda>sessionID.
        rbind (rdU32 data 5) (\<lambda>protocolVersion.
        rbind (rdSub data 9 137) (\<lambda>modulus.
        rbind (if length data \<ge> H5InitBlowfishKeyOffset + 16
               then rdSub data H5InitBlowfishKeyOffset (H5InitBlowfishKeyOffset + 16)
               else Inr []) (\<lambda>key.
        Inr \<lparr>RSAModulus = modulus, BlowfishKey = key, SessionID = sessionID,
             ProtocolVersion = protocolVersion\<rparr>))))))"

record LoginOk =
  LoginKey1 :: u32
  LoginKey2 :: u32

definition DecodeLoginOk :: "byte list \<Rightarrow> LoginOk res" where
  "DecodeLoginOk data =
     (if length data < 9 then Inl (Error ''packet too short for LoginOk'')
      else rbind (rdU32 data 1) (\<lambda>k1. rbind (rdU32 data 5) (\<lambda>k2.
        Inr \<lparr>LoginKey1 = k1, LoginKey2 = k2\<rparr>)))"

record PlayOk =
  PlayKey1 :: u32
  PlayKey2 :: u32

definition DecodePlayOk :: "byte list \<Rightarrow> PlayOk res" where
  "DecodePlayOk data =
     (if length data < 9 then Inl (Error ''packet too short for PlayOk'')
      else rbind (rdU32 data 1) (\<lambda>k1. rbind (rdU32 data 5) (\<lambda>k2.
        Inr \<lparr>PlayKey1 = k1, PlayKey2 = k2\<rparr>)))"

record GameServer =
  srvType :: u32
  srvPort :: u16
  CurrentPlayers :: u16
  MaxPlayers :: u16
  srvIP :: "byte list"
  srvID :: byte
  AgeLimit :: byte
  PVP :: bool
  Online :: bool
  Brackets :: bool

record ServerListPacket =
  Servers :: "GameServer list"
  LastServerID :: byte

definition decode_server :: "byte list \<Rightarrow> nat \<Rightarrow> GameServer res" where
  "decode_server data offset =
     rbind (idx data offset) (\<lambda>id.
     rbind (rdSub data (offset + 1) (offset + 5)) (\<lambda>ip.
     rbind (rdU32 data (offset + 5)) (\<lambda>port.
     rbind (idx data (offset + 9)) (\<lambda>age.
     rbind (idx data (offset + 10)) (\<lambda>pvp.
     rbind (rdU16 data (offset + 11)) (\<lambda>cur.
     rbind (rdU16 data (offset + 13)) (\<lambda>maxp.
     rbind (idx data (offset + 15)) (\<lambda>online.
     rbind (rdU32 data (offset + 16)) (\<lambda>type.
     rbind (idx data (offset + 20)) (\<lambda>brackets.
     Inr \<lparr>srvType = type, srvPort = ucast port, CurrentPlayers = cur, MaxPlayers = maxp,
          srvIP = ip, srvID = id, AgeLimit = age, PVP = (pvp = 0x01), Online = (online = 0x01),
          Brackets = (brackets = 0x01)\<rparr>))))))))))"

fun decode_servers :: "nat \<Rightarrow> byte list \<Rightarrow> nat \<Rightarrow> GameServer list res" where
  "decode_servers 0 data offset = Inr []"
| "decode_servers (Suc n) data offset =
     (if length data < offset + H5ServerListEntrySize then Inr []
      else rbind (decode_server data offset) (\<lambda>s.
        rbind (decode_servers n data (offset + H5ServerListEntrySize)) (\<lambda>ss. Inr (s # ss))))"

definition DecodeServerList :: "byte list \<Rightarrow> ServerListPacket res" where
  "DecodeServerList data =
     (if length data < 3 then Inl (Error ''packet too short for ServerList'')
      else rbind (idx data 1) (\<lambda>count.
        rbind (idx data 2) (\<lambda>lastID.
        rbind (decode_servers (unat count) data 3) (\<lambda>servers.
        Inr \<lparr>Servers = servers, LastServerID = lastID\<rparr>))))"

section \<open>Encoders\<close>

definition EncodeAuthGGRequestTo :: "u32 \<Rightarrow> (gslice, unit) go" where
  "EncodeAuthGGRequestTo sessionID =
     andThen (setB 0 OpAuthGGRequest) (\<lambda>_.
     andThen (putU32 1 5 sessionID) (\<lambda>_.
     forRange [5..<25] (\<lambda>i. setB i 0)))"

definition EncodeRequestServerListTo :: "u32 \<Rightarrow> u32 \<Rightarrow> (gslice, unit) go" where
  "EncodeRequestServerListTo loginKey1 loginKey2 =
     andThen (setB 0 OpRequestServerList) (\<lambda>_.
     andThen (putU32 1 5 loginKey1) (\<lambda>_.
     putU32 5 9 loginKey2))"

definition EncodeRequestServerLoginTo :: "u32 \<Rightarrow> u32 \<Rightarrow> byte \<Rightarrow> (gslice, unit) go" where
  "EncodeRequestServerLoginTo loginKey1 loginKey2 serverID =
     andThen (setB 0 OpRequestServerLogin) (\<lambda>_.
     andThen (putU32 1 5 loginKey1) (\<lambda>_.
     andThen (putU32 5 9 loginKey2) (\<lambda>_.
     setB 9 serverID)))"

record LoginRequest =
  reqAccount :: string
  reqPassword :: string
  reqSessionID :: u32

definition login_block :: "LoginRequest \<Rightarrow> byte list" where
  "login_block req =
     (let block0 = replicate RSABlockSize 0;
          block1 = copy_at RSAOffsetAccount (bytes_of (reqAccount req)) block0;
          block2 = copy_at RSAOffsetPassword (bytes_of (reqPassword req)) block1
      in write_at RSAOffsetSessionID (le32_bytes (reqSessionID req)) block2)"

definition EncodeLoginRequest :: "LoginRequest \<Rightarrow> RSA \<Rightarrow> byte list res" where
  "EncodeLoginRequest req rsa =
     rbind (RSA_Encrypt rsa (login_block req)) (\<lambda>encrypted.
     let totalLen = 1 + 128 + 16 + 1;
         data = (replicate totalLen 0)[0 := OpLoginRequest]
     in Inr (write_at 1 (take 128 encrypted) data))"

section \<open>Reading inside the packet\<close>

lemma decode_server_total:
  assumes "offset + 21 \<le> length data"
  shows "\<exists>s. decode_server data offset = Inr s \<and> srvID s = data ! offset \<and>
    srvIP s = sub_list (offset + 1) (offset + 5) data \<and>
    srvPort s = ucast (u32_at data (offset + 5)) \<and> length (srvIP s) = 4"
  using assms by (simp add: decode_server_def)

lemma decode_servers_total:
  "\<exists>ss. decode_servers n data offset = Inr ss \<and>
     length ss = min n ((length data - offset) div 21)"
proof (induction n arbitrary: offset)
  case 0
  then show ?case by simp
next
  case (Suc n)
  show ?case
  proof (cases "length data < offset + 21")
    case True
    then have "(length data - offset) div 21 = 0" by simp
    with True show ?thesis by (simp add: H5ServerListEntrySize_def)
  next
    case False
    then have "offset + 21 \<le> length data" by simp
    from decode_server_total [OF this] obtain s where s: "decode_server data offset = Inr s" by blast
    from Suc.IH [of "offset + 21"] obtain ss where ss: "decode_servers n data (offset + 21) = Inr ss"
      "length ss = min n ((length data - (offset + 21)) div 21)" by blast
    have "length data - offset = (length data - (offset + 21)) + 21" using False by simp
    then have "(length data - offset) div 21 = Suc ((length data - (offset + 21)) div 21)"
      by (metis Suc_eq_plus1 div_add_self2 zero_neq_numeral)
    with False s ss show ?thesis by (simp add: H5ServerListEntrySize_def)
  qed
qed

lemma decode_servers_nth:
  assumes "decode_servers n data offset = Inr ss" and "i < length ss"
  shows "offset + 21 * i + 21 \<le> length data \<and> decode_server data (offset + 21 * i) = Inr (ss ! i)"
  using assms
proof (induction n arbitrary: offset ss i)
  case 0
  then show ?case by simp
next
  case (Suc n)
  from Suc.prems have len: "\<not> length data < offset + 21"
    by (auto simp: H5ServerListEntrySize_def split: if_splits)
  with Suc.prems obtain s ss' where s: "decode_server data offset = Inr s"
    and ss': "decode_servers n data (offset + 21) = Inr ss'" and ss: "ss = s # ss'"
    by (auto simp: H5ServerListEntrySize_def rbind_Inr_iff)
  show ?case
  proof (cases i)
    case 0
    with len s ss show ?thesis by simp
  next
    case (Suc j)
    with Suc.IH [OF ss', of j] Suc.prems(2) ss show ?thesis by (simp add: algebra_simps)
  qed
qed

section \<open>What the encoders write\<close>

definition authgg_bytes :: "u32 \<Rightarrow> byte list" where
  "authgg_bytes sid = [OpAuthGGRequest] @ le32_bytes sid @ replicate 20 0"

definition serverlist_bytes :: "u32 \<times> u32 \<Rightarrow> byte list" where
  "serverlist_bytes = (\<lambda>(k1, k2). [OpRequestServerList] @ le32_bytes k1 @ le32_bytes k2)"

definition serverlogin_bytes :: "u32 \<times> u32 \<times> byte \<Rightarrow> byte list" where
  "serverlogin_bytes = (\<lambda>(k1, k2, i). [OpRequestServerLogin] @ le32_bytes k1 @ le32_bytes k2 @ [i])"

lemma fills_authgg: "fills (EncodeAuthGGRequestTo sid) [] (authgg_bytes sid)"
  unfolding EncodeAuthGGRequestTo_def authgg_bytes_def
  by (intro fills_seq fill_rules) simp_all

lemma fills_serverlist: "fills (EncodeRequestServerListTo k1 k2) [] (serverlist_bytes (k1, k2))"
  unfolding EncodeRequestServerListTo_def serverlist_bytes_def prod.case
  by (intro fills_seq fill_rules) simp_all

lemma fills_serverlogin:
  "fills (EncodeRequestServerLoginTo k1 k2 i) [] (serverlogin_bytes (k1, k2, i))"
  unfolding EncodeRequestServerLoginTo_def serverlogin_bytes_def prod.case
  by (intro fills_seq fill_rules) simp_all

lemma length_login_bytes [simp]:
  "length (authgg_bytes sid) = 25"
  "length (serverlist_bytes (k1, k2)) = 9"
  "length (serverlogin_bytes (k1, k2, i)) = 10"
  by (simp_all add: authgg_bytes_def serverlist_bytes_def serverlogin_bytes_def)

text \<open>The login encoders return nothing: their callers send the slice they prepared.\<close>

interpretation authgg: packet_encoder
  "\<lambda>sid. andThen (EncodeAuthGGRequestTo sid) (\<lambda>_. ret 25)" authgg_bytes
  by unfold_locales (simp add: andThen_Inr [OF fills_start [OF fills_authgg]])

interpretation serverlist: packet_encoder
  "\<lambda>(k1, k2). andThen (EncodeRequestServerListTo k1 k2) (\<lambda>_. ret 9)" serverlist_bytes
  by unfold_locales (auto simp: andThen_Inr [OF fills_start [OF fills_serverlist]])

interpretation serverlogin: packet_encoder
  "\<lambda>(k1, k2, i). andThen (EncodeRequestServerLoginTo k1 k2 i) (\<lambda>_. ret 10)" serverlogin_bytes
  by unfold_locales (auto simp: andThen_Inr [OF fills_start [OF fills_serverlogin]])

lemma same_size_login [size_rules]:
  "same_size (EncodeAuthGGRequestTo sid)"
  "same_size (EncodeRequestServerListTo k1 k2)"
  "same_size (EncodeRequestServerLoginTo k1 k2 i)"
  unfolding EncodeAuthGGRequestTo_def EncodeRequestServerListTo_def EncodeRequestServerLoginTo_def
  by (intro size_rules)+

section \<open>The credential block\<close>

lemma length_login_block [simp]: "length (login_block req) = 128"
  by (simp add: login_block_def login_layout Let_def)

text \<open>Byte by byte, for credentials of any length: later fields overwrite earlier ones.\<close>

lemma nth_login_block:
  assumes "j < 128"
  shows "login_block req ! j =
    (if 0x7C \<le> j then le32_bytes (reqSessionID req) ! (j - 0x7C)
     else if 0x6C \<le> j \<and> j < 0x6C + length (reqPassword req)
       then bytes_of (reqPassword req) ! (j - 0x6C)
     else if 0x5E \<le> j \<and> j < 0x5E + length (reqAccount req)
       then bytes_of (reqAccount req) ! (j - 0x5E)
     else 0)"
  using assms by (auto simp: login_block_def login_layout Let_def nth_write_at nth_copy_at)

section \<open>The server list entry\<close>

text \<open>Specification of one 21-byte entry, field by field in wire order.\<close>

definition flag_byte :: "bool \<Rightarrow> byte" where
  "flag_byte b = (if b then 1 else 0)"

definition server_bytes :: "GameServer \<Rightarrow> byte list" where
  "server_bytes s = [srvID s] @ srvIP s @ le32_bytes (ucast (srvPort s)) @
     [AgeLimit s, flag_byte (PVP s)] @ le16_bytes (CurrentPlayers s) @ le16_bytes (MaxPlayers s) @
     [flag_byte (Online s)] @ le32_bytes (srvType s) @ [flag_byte (Brackets s)]"

lemma length_server_bytes: "length (srvIP s) = 4 \<Longrightarrow> length (server_bytes s) = 21"
  by (simp add: server_bytes_def)

lemma read_field:
  assumes "length pre = a"
  shows "idx (pre @ b # post) a = Inr b" and "rdU16 (pre @ le16_bytes v @ post) a = Inr v"
    and "rdU32 (pre @ le32_bytes w @ post) a = Inr w"
    and "rdSub (pre @ bs @ post) a (a + length bs) = Inr bs"
  using assms u16_at_append [OF assms, of v post] u32_at_append [OF assms, of w post]
  by (auto simp: idx_def rdU16_def rdU32_def rdSub_def sub_list_def)

lemma decode_server_bytes:
  assumes "length (srvIP s) = 4" and "length pre = off"
  shows "decode_server (pre @ server_bytes s @ post) off = Inr s"
proof -
  let ?d = "pre @ server_bytes s @ post"
  note f = server_bytes_def
  have 1: "idx ?d off = Inr (srvID s)"
    using read_field(1) [OF assms(2)] by (simp add: f)
  have 2: "rdSub ?d (off + 1) (off + 5) = Inr (srvIP s)"
    using read_field(4) [of "pre @ [srvID s]" "off + 1" "srvIP s"] assms by (simp add: f add.commute)
  have 3: "rdU32 ?d (off + 5) = Inr (ucast (srvPort s))"
    using read_field(3) [of "pre @ [srvID s] @ srvIP s" "off + 5"] assms by (simp add: f)
  let ?p9 = "pre @ [srvID s] @ srvIP s @ le32_bytes (ucast (srvPort s))"
  have 4: "idx ?d (off + 9) = Inr (AgeLimit s)"
    using read_field(1) [of ?p9 "off + 9"] assms by (simp add: f)
  have 5: "idx ?d (off + 10) = Inr (flag_byte (PVP s))"
    using read_field(1) [of "?p9 @ [AgeLimit s]" "off + 10"] assms by (simp add: f)
  let ?p11 = "?p9 @ [AgeLimit s, flag_byte (PVP s)]"
  have 6: "rdU16 ?d (off + 11) = Inr (CurrentPlayers s)"
    using read_field(2) [of ?p11 "off + 11"] assms by (simp add: f)
  let ?p13 = "?p11 @ le16_bytes (CurrentPlayers s)"
  have 7: "rdU16 ?d (off + 13) = Inr (MaxPlayers s)"
    using read_field(2) [of ?p13 "off + 13"] assms by (simp add: f)
  let ?p15 = "?p13 @ le16_bytes (MaxPlayers s)"
  have 8: "idx ?d (off + 15) = Inr (flag_byte (Online s))"
    using read_field(1) [of ?p15 "off + 15"] assms by (simp add: f)
  have 9: "rdU32 ?d (off + 16) = Inr (srvType s)"
    using read_field(3) [of "?p15 @ [flag_byte (Online s)]" "off + 16"] assms by (simp add: f)
  have 10: "idx ?d (off + 20) = Inr (flag_byte (Brackets s))"
    using read_field(1) [of "?p15 @ [flag_byte (Online s)] @ le32_bytes (srvType s)" "off + 20"] assms
    by (simp add: f)
  have port: "ucast (ucast (srvPort s) :: u32) = srvPort s"
    by (rule bit_word_eqI) (simp add: bit_simps)
  show ?thesis unfolding decode_server_def 1 2 3 4 5 6 7 8 9 10
    by (simp add: port flag_byte_def)
qed

lemma decode_servers_bytes:
  assumes "\<forall>s \<in> set ss. length (srvIP s) = 4" and "length pre = off"
  shows "decode_servers (length ss) (pre @ concat (map server_bytes ss) @ post) off = Inr ss"
  using assms
proof (induction ss arbitrary: pre off)
  case Nil
  then show ?case by simp
next
  case (Cons s ss)
  have len: "length (server_bytes s) = 21" using Cons.prems(1) by (simp add: length_server_bytes)
  have "decode_servers (length ss) ((pre @ server_bytes s) @ concat (map server_bytes ss) @ post)
      (off + 21) = Inr ss"
    by (rule Cons.IH) (use Cons.prems len in auto)
  moreover have "decode_server (pre @ server_bytes s @ concat (map server_bytes ss) @ post) off = Inr s"
    by (rule decode_server_bytes) (use Cons.prems in auto)
  ultimately show ?case
    using Cons.prems(2) len by (simp add: H5ServerListEntrySize_def)
qed

lemma login_decoders_safe:
  "GetLoginFailReason data \<noteq> Inl Panic \<and> DecodeInit data \<noteq> Inl Panic \<and>
   DecodeLoginOk data \<noteq> Inl Panic \<and> DecodePlayOk data \<noteq> Inl Panic \<and>
   DecodeServerList data \<noteq> Inl Panic"
proof -
  have "GetLoginFailReason data \<noteq> Inl Panic"
    by (simp add: GetLoginFailReason_def split: option.splits)
  moreover have "DecodeInit data \<noteq> Inl Panic"
    by (auto simp: DecodeInit_def login_layout idx_def)
  moreover have "DecodeLoginOk data \<noteq> Inl Panic" "DecodePlayOk data \<noteq> Inl Panic"
    by (simp_all add: DecodeLoginOk_def DecodePlayOk_def)
  moreover have "DecodeServerList data \<noteq> Inl Panic"
  proof (cases "length data < 3")
    case True
    then show ?thesis by (simp add: DecodeServerList_def)
  next
    case False
    obtain ss where "decode_servers (unat (data ! 1)) data 3 = Inr ss"
      using decode_servers_total by blast
    with False show ?thesis by (simp add: DecodeServerList_def)
  qed
  ultimately show ?thesis by blast
qed

section \<open>Properties\<close>

text \<open>
  No packet of the login server, of any length and content, makes one of its decoders
  panic.
\<close>

theorem login_decoders_no_panic:
  "GetLoginFailReason data \<noteq> Inl Panic \<and> DecodeInit data \<noteq> Inl Panic \<and>
   DecodeLoginOk data \<noteq> Inl Panic \<and> DecodePlayOk data \<noteq> Inl Panic \<and>
   DecodeServerList data \<noteq> Inl Panic"
  by (rule login_decoders_safe)

text \<open>
  The Init packet is accepted exactly when it has at least 170 bytes and opcode 0, and then
  the modulus always has 128 bytes and the Blowfish key 16, so the client always switches to
  the dynamic key: the length test on the key never fails.
\<close>

theorem DecodeInit_accepts_iff:
  "(\<exists>p. DecodeInit data = Inr p) = (170 \<le> length data \<and> data ! 0 = 0) \<and>
   (case DecodeInit data of Inl e \<Rightarrow> True
    | Inr p \<Rightarrow> RSAModulus p = sub_list 9 137 data \<and> length (RSAModulus p) = 128 \<and>
        BlowfishKey p = sub_list 153 169 data \<and> length (BlowfishKey p) = 16 \<and>
        SessionID p = u32_at data 1)"
  by (auto simp: DecodeInit_def login_layout OpInit_def idx_def)

text \<open>
  C37. A server list packet holding the entries of up to 255 servers, whatever follows them,
  decodes to exactly those servers, ports, flags and player counts included.
\<close>

theorem DecodeServerList_roundtrip:
  assumes "\<forall>s \<in> set ss. length (srvIP s) = 4" and "length ss \<le> 255"
  shows "DecodeServerList ([OpServerList, of_nat (length ss), lastID] @
      concat (map server_bytes ss) @ rest) = Inr \<lparr>Servers = ss, LastServerID = lastID\<rparr>"
proof -
  have "unat (of_nat (length ss) :: byte) = length ss"
    unfolding unsigned_of_nat take_bit_eq_mod using assms(2) by simp
  with decode_servers_bytes [OF assms(1), of "[OpServerList, of_nat (length ss), lastID]" 3 rest]
  show ?thesis by (simp add: DecodeServerList_def idx_def)
qed

definition sample_server :: GameServer where
  "sample_server = \<lparr>srvType = 1, srvPort = 7777, CurrentPlayers = 3, MaxPlayers = 100,
     srvIP = [127, 0, 0, 1], srvID = 2, AgeLimit = 15, PVP = True, Online = True, Brackets = False\<rparr>"

theorem DecodeServerList_roundtrip_witness:
  "DecodeServerList ([4, 1, 2] @ server_bytes sample_server @ [9]) =
     Inr \<lparr>Servers = [sample_server], LastServerID = 2\<rparr>"
  using DecodeServerList_roundtrip [of "[sample_server]" 2 "[9]"]
  by (simp add: sample_server_def OpServerList_def)

text \<open>
  An account of at most 14 bytes and a password of at most 16 sit in their own fields of
  the credential block, zero-padded, with the session id in the last four bytes.
\<close>

theorem login_block_fields:
  assumes "length acc \<le> 14" and "length pw \<le> 16"
  shows "login_block \<lparr>reqAccount = acc, reqPassword = pw, reqSessionID = sid\<rparr> =
    replicate 94 0 @ bytes_of acc @ replicate (14 - length acc) 0 @
    bytes_of pw @ replicate (16 - length pw) 0 @ le32_bytes sid"
  (is "?l = ?r")
proof (rule nth_equalityI)
  show "length ?l = length ?r" using assms by simp
  fix j
  assume "j < length ?l"
  then have "j < 128" by simp
  then show "?l ! j = ?r ! j"
    using assms by (auto simp: nth_login_block nth_append)
qed

theorem login_block_fields_witness:
  "drop 94 (login_block \<lparr>reqAccount = ''bot0'', reqPassword = ''pass0'', reqSessionID = 7\<rparr>) =
     bytes_of ''bot0'' @ replicate 10 0 @ bytes_of ''pass0'' @ replicate 11 0 @ [7, 0, 0, 0]"
  using login_block_fields [of "''bot0''" "''pass0''" 7] by (simp add: le32_bytes_def)

text \<open>
  C36. A longer account runs into the password field: what lies beyond its 14th byte is sent as
  if it were the part of the password that the password itself does not reach, so different
  credentials produce the same request.
\<close>

theorem login_block_overflow:
  assumes "length a = 14"
  shows "login_block \<lparr>reqAccount = a @ x, reqPassword = p, reqSessionID = sid\<rparr> =
    login_block \<lparr>reqAccount = a, reqPassword = p @ drop (length p) x, reqSessionID = sid\<rparr>"
  (is "?l = ?r")
proof (rule nth_equalityI)
  fix j
  assume "j < length ?l"
  then have "j < 128" by simp
  then show "?l ! j = ?r ! j"
    using assms by (auto simp: nth_login_block nth_append bytes_of_def)
qed simp

theorem login_block_overflow_witness:
  "login_block \<lparr>reqAccount = ''aaaaaaaaaaaaaaXY'', reqPassword = ''p'', reqSessionID = 7\<rparr> =
   login_block \<lparr>reqAccount = ''aaaaaaaaaaaaaa'', reqPassword = ''pY'', reqSessionID = 7\<rparr>"
  using login_block_overflow [of "''aaaaaaaaaaaaaa''" "''XY''" "''p''" 7] by simp

text \<open>
  C35. The login request is 146 bytes: the opcode, the credential block RSA-encrypted under the
  modulus the server scrambled into its Init packet, and 17 zero bytes.
\<close>

theorem EncodeLoginRequest_correct:
  assumes "length m = 128" and "be_nat m \<noteq> 0"
  shows "\<exists>enc. EncodeLoginRequest req (NewRSA (scramble m)) =
      Inr ([OpLoginRequest] @ enc @ replicate 17 0) \<and> length enc = 128 \<and>
    be_nat enc = be_nat (login_block req) ^ 65537 mod be_nat m"
proof -
  obtain enc where enc: "RSA_Encrypt (NewRSA (scramble m)) (login_block req) = Inr enc"
    "length enc = 128" "be_nat enc = be_nat (login_block req) ^ 65537 mod be_nat m"
    using RSA_Encrypt_value [OF assms(2) be_nat_128 [OF assms(1)] NewRSA_scramble [OF assms(1)]]
    by blast
  have "write_at 1 enc ((replicate 146 0)[0 := OpLoginRequest]) = [OpLoginRequest] @ enc @ replicate 17 0"
    using enc(2) by (simp add: write_at_def replicate_Suc numeral_eq_Suc)
  with enc show ?thesis by (simp add: EncodeLoginRequest_def Let_def)
qed

theorem EncodeLoginRequest_correct_witness:
  "\<exists>enc. EncodeLoginRequest \<lparr>reqAccount = ''bot'', reqPassword = ''pw'', reqSessionID = 7\<rparr>
      (NewRSA (scramble (replicate 127 0 @ [5]))) = Inr ([0] @ enc @ replicate 17 0)"
proof -
  have "be_nat (replicate 127 0 @ [5]) = 5" by (simp only: be_nat_zeros) (simp add: be_nat_def)
  with EncodeLoginRequest_correct [of "replicate 127 0 @ [5]"
      "\<lparr>reqAccount = ''bot'', reqPassword = ''pw'', reqSessionID = 7\<rparr>"]
  show ?thesis unfolding OpLoginRequest_def by auto
qed

end
