(* ===== verification/GameEncode.thy ===== *)
theory GameEncode
  imports Encoder
begin

text \<open>
  The game server encoders of \<open>internal/net/protocol.go\<close>. Each is one definition in the order of
  the code's writes; the \<open>..._bytes\<close> functions are their packets, and the interpretations of
  \<open>packet_encoder\<close> prove that the writes produce exactly those bytes and the returned length.
  One encoder is not of that kind: \<open>RequestMagicSkillUse\<close> counts three bytes it never writes.
\<close>

section \<open>Opcodes\<close>

definition OpGSLogout :: byte where "OpGSLogout = 0x00"
definition OpGSCharSelectionInfo :: byte where "OpGSCharSelectionInfo = 0x09"
definition OpGSLoginResult :: byte where "OpGSLoginResult = 0x0a"
definition OpGSCharSelected :: byte where "OpGSCharSelected = 0x0b"
definition OpGSStatusUpdate :: byte where "OpGSStatusUpdate = 0x18"
definition OpGSCharacterCreate :: byte where "OpGSCharacterCreate = 0x0c"
definition OpGSCharacterDelete :: byte where "OpGSCharacterDelete = 0x0d"
definition OpGSCharacterRestore :: byte where "OpGSCharacterRestore = 0x7b"
definition OpGSProtocolVersion :: byte where "OpGSProtocolVersion = 0x0e"
definition OpGSMoveToLocation :: byte where "OpGSMoveToLocation = 0x0f"
definition OpGSCharCreateSuccess :: byte where "OpGSCharCreateSuccess = 0x0f"
definition OpGSCharCreateFail :: byte where "OpGSCharCreateFail = 0x10"
definition OpGSEnterWorld :: byte where "OpGSEnterWorld = 0x11"
definition OpGSItemList :: byte where "OpGSItemList = 0x11"
definition OpGSCharacterSelect :: byte where "OpGSCharacterSelect = 0x12"
definition OpGSUseItem :: byte where "OpGSUseItem = 0x19"
definition OpGSAction :: byte where "OpGSAction = 0x1f"
definition OpGSAuthLogin :: byte where "OpGSAuthLogin = 0x2b"
definition OpGSKeyPacket :: byte where "OpGSKeyPacket = 0x2e"
definition OpGSCharInfo :: byte where "OpGSCharInfo = 0x31"
definition OpGSAttackRequest :: byte where "OpGSAttackRequest = 0x01"
definition OpGSAttack :: byte where "OpGSAttack = 0x33"
definition OpGSRequestMagicSkillUse :: byte where "OpGSRequestMagicSkillUse = 0x39"
definition OpGSMagicSkillUse :: byte where "OpGSMagicSkillUse = 0x48"
definition OpGSSay2 :: byte where "OpGSSay2 = 0x49"
definition OpGSRequestActionUse :: byte where "OpGSRequestActionUse = 0x56"
definition OpGSValidatePosition :: byte where "OpGSValidatePosition = 0x59"
definition OpGSNpcInfo :: byte where "OpGSNpcInfo = 0x0c"
definition OpGSTeleportToLocation :: byte where "OpGSTeleportToLocation = 0x22"
definition OpGSAppearing :: byte where "OpGSAppearing = 0x3a"
definition OpGSDie :: byte where "OpGSDie = 0x00"

lemmas gs_ops = OpGSLogout_def OpGSCharSelectionInfo_def OpGSLoginResult_def OpGSCharSelected_def
  OpGSStatusUpdate_def OpGSCharacterCreate_def OpGSCharacterDelete_def OpGSCharacterRestore_def
  OpGSProtocolVersion_def OpGSMoveToLocation_def OpGSCharCreateSuccess_def OpGSCharCreateFail_def
  OpGSEnterWorld_def OpGSItemList_def OpGSCharacterSelect_def OpGSUseItem_def OpGSAction_def
  OpGSAuthLogin_def OpGSKeyPacket_def OpGSCharInfo_def OpGSAttackRequest_def OpGSAttack_def
  OpGSRequestMagicSkillUse_def OpGSMagicSkillUse_def OpGSSay2_def OpGSRequestActionUse_def
  OpGSValidatePosition_def OpGSNpcInfo_def OpGSTeleportToLocation_def OpGSAppearing_def OpGSDie_def

section \<open>Pieces\<close>

text \<open>The write position of an encoder starts at 0.\<close>

definition at_start :: "piece \<Rightarrow> (gslice, nat) go" where
  "at_start w = w 0"

definition wFlag32 :: "bool \<Rightarrow> piece" where
  "wFlag32 b pos = (if b then w32 1 pos else w32 0 pos)"

definition wFlagB :: "bool \<Rightarrow> piece" where
  "wFlagB b pos = (if b then wB 1 pos else wB 0 pos)"

fun w_repeat :: "nat \<Rightarrow> piece \<Rightarrow> piece" where
  "w_repeat 0 w pos = ret pos"
| "w_repeat (Suc n) w pos = andThen (w pos) (\<lambda>pos. w_repeat n w pos)"

definition flag32 :: "bool \<Rightarrow> u32" where
  "flag32 b = (if b then 1 else 0)"

definition flagB :: "bool \<Rightarrow> byte" where
  "flagB b = (if b then 1 else 0)"

lemma emits_wFlag32 [emit_rules]: "emits (wFlag32 b) (le32_bytes (flag32 b))"
  using emits_w32 [of 1] emits_w32 [of 0] by (cases b) (simp_all add: emits_def wFlag32_def flag32_def)

lemma emits_wFlagB [emit_rules]: "emits (wFlagB b) [flagB b]"
  using emits_wB [of 1] emits_wB [of 0] by (cases b) (simp_all add: emits_def wFlagB_def flagB_def)

lemma emits_w_repeat [emit_rules]:
  assumes "emits w bs"
  shows "emits (w_repeat n w) (concat (replicate n bs))"
proof (induction n)
  case 0
  have "w_repeat 0 w = ret" by (rule ext) simp
  with emits_done show ?case by (simp only: replicate.simps concat.simps)
next
  case (Suc n)
  have "w_repeat (Suc n) w = (\<lambda>pos. andThen (w pos) (\<lambda>pos. w_repeat n w pos))"
    by (rule ext) simp
  with emits_seq [OF assms Suc] show ?case by simp
qed

lemma at_start_ok:
  assumes "emits w bs" and "wf_slice s" and "length bs \<le> slen s"
  shows "at_start w s = (Inr (length bs), s\<lparr>mem := bs @ drop (length bs) (mem s)\<rparr>)"
  using emitsD [OF assms(1,2), of 0] assms(3) by (simp add: at_start_def write_at_0)

lemma at_start_panic:
  assumes "emits w bs" and "wf_slice s" and "\<not> length bs \<le> slen s"
  shows "fst (at_start w s) = Inl Panic"
  using emits_panic [OF assms(1,2), of 0] assms(3) by (simp add: at_start_def)

section \<open>The encoders\<close>

definition EncodeProtocolVersionTo :: "i32 \<Rightarrow> (gslice, unit) go" where
  "EncodeProtocolVersionTo version =
     andThen (setB 0 OpGSProtocolVersion) (\<lambda>_. putU32 1 5 version)"

definition EncodeAuthLoginTo :: "string \<Rightarrow> u32 \<Rightarrow> u32 \<Rightarrow> u32 \<Rightarrow> u32 \<Rightarrow> (gslice, nat) go" where
  "EncodeAuthLoginTo account playKey1 playKey2 loginKey1 loginKey2 = at_start (\<lambda>pos.
     andThen (wB OpGSAuthLogin pos) (\<lambda>pos.
     andThen (w_utf16z (bytes_of account) pos) (\<lambda>pos.
     andThen (w32 playKey2 pos) (\<lambda>pos.
     andThen (w32 playKey1 pos) (\<lambda>pos.
     andThen (w32 loginKey1 pos) (\<lambda>pos.
     w32 loginKey2 pos))))))"

definition EncodeGSCharacterDeleteTo :: "i32 \<Rightarrow> (gslice, nat) go" where
  "EncodeGSCharacterDeleteTo charSlot = at_start (\<lambda>pos.
     andThen (wB OpGSCharacterDelete pos) (\<lambda>pos. w32 charSlot pos))"

definition EncodeGSCharacterRestoreTo :: "i32 \<Rightarrow> (gslice, nat) go" where
  "EncodeGSCharacterRestoreTo charSlot = at_start (\<lambda>pos.
     andThen (wB OpGSCharacterRestore pos) (\<lambda>pos. w32 charSlot pos))"

definition EncodeGSCharacterCreateTo ::
  "string \<Rightarrow> i32 \<Rightarrow> bool \<Rightarrow> i32 \<Rightarrow> i32 \<Rightarrow> i32 \<Rightarrow> i32 \<Rightarrow> (gslice, nat) go" where
  "EncodeGSCharacterCreateTo name race isFemale classID hairStyle hairColor face =
     at_start (\<lambda>pos.
     andThen (wB OpGSCharacterCreate pos) (\<lambda>pos.
     andThen (w_utf16z (bytes_of name) pos) (\<lambda>pos.
     andThen (w32 race pos) (\<lambda>pos.
     andThen (wFlag32 isFemale pos) (\<lambda>pos.
     andThen (w32 classID pos) (\<lambda>pos.
     andThen (w_repeat 6 (w32 40) pos) (\<lambda>pos.
     andThen (w32 hairStyle pos) (\<lambda>pos.
     andThen (w32 hairColor pos) (\<lambda>pos.
     w32 face pos)))))))))"

definition EncodeGSCharacterSelectTo :: "i32 \<Rightarrow> (gslice, nat) go" where
  "EncodeGSCharacterSelectTo charSlot = at_start (\<lambda>pos.
     andThen (wB OpGSCharacterSelect pos) (\<lambda>pos.
     andThen (w32 charSlot pos) (\<lambda>pos.
     andThen (w16 0 pos) (\<lambda>pos.
     andThen (w32 0 pos) (\<lambda>pos.
     andThen (w32 0 pos) (\<lambda>pos.
     w32 0 pos))))))"

definition EncodeGSMoveToLocationTo ::
  "i32 \<Rightarrow> i32 \<Rightarrow> i32 \<Rightarrow> i32 \<Rightarrow> i32 \<Rightarrow> i32 \<Rightarrow> (gslice, nat) go" where
  "EncodeGSMoveToLocationTo targetX targetY targetZ originX originY originZ =
     at_start (\<lambda>pos.
     andThen (wB OpGSMoveToLocation pos) (\<lambda>pos.
     andThen (w32 targetX pos) (\<lambda>pos.
     andThen (w32 targetY pos) (\<lambda>pos.
     andThen (w32 targetZ pos) (\<lambda>pos.
     andThen (w32 originX pos) (\<lambda>pos.
     andThen (w32 originY pos) (\<lambda>pos.
     andThen (w32 originZ pos) (\<lambda>pos.
     w32 1 pos))))))))"

definition EncodeGSValidatePositionTo :: "i32 \<Rightarrow> i32 \<Rightarrow> i32 \<Rightarrow> i32 \<Rightarrow> (gslice, nat) go" where
  "EncodeGSValidatePositionTo x y z heading = at_start (\<lambda>pos.
     andThen (wB OpGSValidatePosition pos) (\<lambda>pos.
     andThen (w32 x pos) (\<lambda>pos.
     andThen (w32 y pos) (\<lambda>pos.
     andThen (w32 z pos) (\<lambda>pos.
     andThen (w32 heading pos) (\<lambda>pos.
     w32 0 pos))))))"

definition EncodeGSRequestActionUseTo :: "i32 \<Rightarrow> bool \<Rightarrow> bool \<Rightarrow> (gslice, nat) go" where
  "EncodeGSRequestActionUseTo actionID ctrlPressed shiftPressed = at_start (\<lambda>pos.
     andThen (wB OpGSRequestActionUse pos) (\<lambda>pos.
     andThen (w32 actionID pos) (\<lambda>pos.
     andThen (wFlag32 ctrlPressed pos) (\<lambda>pos.
     wFlagB shiftPressed pos))))"

definition EncodeGSUseItemTo :: "u32 \<Rightarrow> bool \<Rightarrow> (gslice, nat) go" where
  "EncodeGSUseItemTo objectID ctrlPressed = at_start (\<lambda>pos.
     andThen (wB OpGSUseItem pos) (\<lambda>pos.
     andThen (w32 objectID pos) (\<lambda>pos.
     wFlag32 ctrlPressed pos)))"

definition EncodeGSActionTo :: "u32 \<Rightarrow> i32 \<Rightarrow> i32 \<Rightarrow> i32 \<Rightarrow> byte \<Rightarrow> (gslice, nat) go" where
  "EncodeGSActionTo objectID originX originY originZ actionID = at_start (\<lambda>pos.
     andThen (wB OpGSAction pos) (\<lambda>pos.
     andThen (w32 objectID pos) (\<lambda>pos.
     andThen (w32 originX pos) (\<lambda>pos.
     andThen (w32 originY pos) (\<lambda>pos.
     andThen (w32 originZ pos) (\<lambda>pos.
     wB actionID pos))))))"

definition EncodeGSAttackRequestTo :: "u32 \<Rightarrow> i32 \<Rightarrow> i32 \<Rightarrow> i32 \<Rightarrow> byte \<Rightarrow> (gslice, nat) go" where
  "EncodeGSAttackRequestTo objectID originX originY originZ attackID = at_start (\<lambda>pos.
     andThen (wB OpGSAttackRequest pos) (\<lambda>pos.
     andThen (w32 objectID pos) (\<lambda>pos.
     andThen (w32 originX pos) (\<lambda>pos.
     andThen (w32 originY pos) (\<lambda>pos.
     andThen (w32 originZ pos) (\<lambda>pos.
     wB attackID pos))))))"

text \<open>The shift flag is one byte, but the position moves by four (\<open>pos += 4\<close>).\<close>

definition EncodeGSRequestMagicSkillUseTo :: "u32 \<Rightarrow> bool \<Rightarrow> bool \<Rightarrow> (gslice, nat) go" where
  "EncodeGSRequestMagicSkillUseTo magicID ctrlPressed shiftPressed =
     andThen (at_start (\<lambda>pos.
       andThen (wB OpGSRequestMagicSkillUse pos) (\<lambda>pos.
       andThen (w32 magicID pos) (\<lambda>pos.
       wFlag32 ctrlPressed pos)))) (\<lambda>pos.
     andThen (if shiftPressed then setB pos 1 else setB pos 0) (\<lambda>_.
     ret (pos + 4)))"

definition EncodeGSEnterWorldTo :: "(gslice, nat) go" where
  "EncodeGSEnterWorldTo =
     andThen (setB 0 OpGSEnterWorld) (\<lambda>_.
     andThen (forRange [1..<105] (\<lambda>i. setB i 0)) (\<lambda>_.
     ret 105))"

definition EncodeGSSay2To :: "string \<Rightarrow> i32 \<Rightarrow> (gslice, nat) go" where
  "EncodeGSSay2To txt chatType = at_start (\<lambda>pos.
     andThen (wB OpGSSay2 pos) (\<lambda>pos.
     andThen (w_utf16z (bytes_of txt) pos) (\<lambda>pos.
     w32 chatType pos)))"

definition EncodeGSAppearingTo :: "(gslice, nat) go" where
  "EncodeGSAppearingTo = andThen (setB 0 OpGSAppearing) (\<lambda>_. ret 1)"

section \<open>Their packets\<close>

definition version_bytes :: "i32 \<Rightarrow> byte list" where
  "version_bytes v = [OpGSProtocolVersion] @ le32_bytes v"

definition authlogin_bytes :: "string \<times> u32 \<times> u32 \<times> u32 \<times> u32 \<Rightarrow> byte list" where
  "authlogin_bytes = (\<lambda>(account, pk1, pk2, lk1, lk2). [OpGSAuthLogin] @ utf16z (bytes_of account) @
     le32_bytes pk2 @ le32_bytes pk1 @ le32_bytes lk1 @ le32_bytes lk2)"

definition slot_bytes :: "byte \<Rightarrow> i32 \<Rightarrow> byte list" where
  "slot_bytes op slot = [op] @ le32_bytes slot"

definition create_bytes :: "string \<times> i32 \<times> bool \<times> i32 \<times> i32 \<times> i32 \<times> i32 \<Rightarrow> byte list" where
  "create_bytes = (\<lambda>(name, race, female, classID, style, color, face).
     [OpGSCharacterCreate] @ utf16z (bytes_of name) @ le32_bytes race @ le32_bytes (flag32 female) @
     le32_bytes classID @ concat (replicate 6 (le32_bytes 40)) @ le32_bytes style @
     le32_bytes color @ le32_bytes face)"

definition select_bytes :: "i32 \<Rightarrow> byte list" where
  "select_bytes slot = [OpGSCharacterSelect] @ le32_bytes slot @ le16_bytes 0 @ le32_bytes 0 @
     le32_bytes 0 @ le32_bytes 0"

definition move_bytes :: "i32 \<times> i32 \<times> i32 \<times> i32 \<times> i32 \<times> i32 \<Rightarrow> byte list" where
  "move_bytes = (\<lambda>(ax, ay, az, ox, oy, oz). [OpGSMoveToLocation] @ le32_bytes ax @ le32_bytes ay @
     le32_bytes az @ le32_bytes ox @ le32_bytes oy @ le32_bytes oz @ le32_bytes 1)"

definition validate_bytes :: "i32 \<times> i32 \<times> i32 \<times> i32 \<Rightarrow> byte list" where
  "validate_bytes = (\<lambda>(x, y, z, h). [OpGSValidatePosition] @ le32_bytes x @ le32_bytes y @
     le32_bytes z @ le32_bytes h @ le32_bytes 0)"

definition actionuse_bytes :: "i32 \<times> bool \<times> bool \<Rightarrow> byte list" where
  "actionuse_bytes = (\<lambda>(i, ctrl, shift). [OpGSRequestActionUse] @ le32_bytes i @
     le32_bytes (flag32 ctrl) @ [flagB shift])"

definition useitem_bytes :: "u32 \<times> bool \<Rightarrow> byte list" where
  "useitem_bytes = (\<lambda>(i, ctrl). [OpGSUseItem] @ le32_bytes i @ le32_bytes (flag32 ctrl))"

definition target_bytes :: "byte \<Rightarrow> u32 \<times> i32 \<times> i32 \<times> i32 \<times> byte \<Rightarrow> byte list" where
  "target_bytes op = (\<lambda>(i, x, y, z, a). [op] @ le32_bytes i @ le32_bytes x @ le32_bytes y @
     le32_bytes z @ [a])"

definition enterworld_bytes :: "unit \<Rightarrow> byte list" where
  "enterworld_bytes u = [OpGSEnterWorld] @ replicate 104 0"

definition say2_bytes :: "string \<times> i32 \<Rightarrow> byte list" where
  "say2_bytes = (\<lambda>(txt, c). [OpGSSay2] @ utf16z (bytes_of txt) @ le32_bytes c)"

definition appearing_bytes :: "unit \<Rightarrow> byte list" where
  "appearing_bytes u = [OpGSAppearing]"

lemmas gs_bytes_defs = version_bytes_def authlogin_bytes_def slot_bytes_def create_bytes_def
  select_bytes_def move_bytes_def validate_bytes_def actionuse_bytes_def useitem_bytes_def
  target_bytes_def enterworld_bytes_def say2_bytes_def appearing_bytes_def

lemma length_gs_bytes [simp]:
  "length (version_bytes v) = 5"
  "length (authlogin_bytes (acc, k1, k2, k3, k4)) = 2 * length acc + 19"
  "length (slot_bytes op slot) = 5"
  "length (create_bytes (name, r, f, c, s, co, fa)) = 2 * length name + 51"
  "length (select_bytes slot) = 19"
  "length (move_bytes (a, b, c', d, e, f')) = 29"
  "length (validate_bytes (a, b, c', d)) = 21"
  "length (actionuse_bytes (i, ct, sh)) = 10"
  "length (useitem_bytes (j, ct)) = 9"
  "length (target_bytes op (j, a, b, c', o')) = 18"
  "length (enterworld_bytes u) = 105"
  "length (say2_bytes (txt, ch)) = 2 * length txt + 7"
  "length (appearing_bytes u) = 1"
  by (simp_all add: gs_bytes_defs length_concat sum_list_replicate)

section \<open>The contracts\<close>

lemma fills_version: "fills (EncodeProtocolVersionTo v) [] (version_bytes v)"
  unfolding EncodeProtocolVersionTo_def version_bytes_def
  by (intro fills_seq fill_rules) simp_all

lemma fills_enterworld:
  "fills (andThen (setB 0 OpGSEnterWorld) (\<lambda>_. forRange [1..<105] (\<lambda>i. setB i 0))) []
     (enterworld_bytes u)"
  unfolding enterworld_bytes_def
  by (intro fills_seq fill_rules) simp_all

lemma fills_appearing: "fills (setB 0 OpGSAppearing) [] (appearing_bytes u)"
  unfolding appearing_bytes_def by (intro fill_rules) simp_all

interpretation enc_version: packet_encoder
  "\<lambda>v. andThen (EncodeProtocolVersionTo v) (\<lambda>_. ret 5)" version_bytes
  by unfold_locales (simp add: andThen_Inr [OF fills_start [OF fills_version]])

lemma EncodeAuthLoginTo_ok:
  "wf_slice s \<Longrightarrow> length (authlogin_bytes (acc, pk1, pk2, lk1, lk2)) \<le> slen s \<Longrightarrow>
     EncodeAuthLoginTo acc pk1 pk2 lk1 lk2 s = (Inr (length (authlogin_bytes (acc, pk1, pk2, lk1, lk2))),
       s\<lparr>mem := authlogin_bytes (acc, pk1, pk2, lk1, lk2) @ drop (length (authlogin_bytes (acc, pk1, pk2, lk1, lk2))) (mem s)\<rparr>)"
  unfolding EncodeAuthLoginTo_def authlogin_bytes_def prod.case by (intro at_start_ok emit_rules)

lemma EncodeGSCharacterDeleteTo_ok:
  "wf_slice s \<Longrightarrow> length (slot_bytes OpGSCharacterDelete slot) \<le> slen s \<Longrightarrow>
     EncodeGSCharacterDeleteTo slot s = (Inr (length (slot_bytes OpGSCharacterDelete slot)),
       s\<lparr>mem := slot_bytes OpGSCharacterDelete slot @ drop (length (slot_bytes OpGSCharacterDelete slot)) (mem s)\<rparr>)"
  unfolding EncodeGSCharacterDeleteTo_def slot_bytes_def prod.case by (intro at_start_ok emit_rules)

lemma EncodeGSCharacterRestoreTo_ok:
  "wf_slice s \<Longrightarrow> length (slot_bytes OpGSCharacterRestore slot) \<le> slen s \<Longrightarrow>
     EncodeGSCharacterRestoreTo slot s = (Inr (length (slot_bytes OpGSCharacterRestore slot)),
       s\<lparr>mem := slot_bytes OpGSCharacterRestore slot @ drop (length (slot_bytes OpGSCharacterRestore slot)) (mem s)\<rparr>)"
  unfolding EncodeGSCharacterRestoreTo_def slot_bytes_def prod.case by (intro at_start_ok emit_rules)

lemma EncodeGSCharacterCreateTo_ok:
  "wf_slice s \<Longrightarrow> length (create_bytes (name, race, female, classID, style, color, face)) \<le> slen s \<Longrightarrow>
     EncodeGSCharacterCreateTo name race female classID style color face s = (Inr (length (create_bytes (name, race, female, classID, style, color, face))),
       s\<lparr>mem := create_bytes (name, race, female, classID, style, color, face) @ drop (length (create_bytes (name, race, female, classID, style, color, face))) (mem s)\<rparr>)"
  unfolding EncodeGSCharacterCreateTo_def create_bytes_def prod.case by (intro at_start_ok emit_rules)

lemma EncodeGSCharacterSelectTo_ok:
  "wf_slice s \<Longrightarrow> length (select_bytes slot) \<le> slen s \<Longrightarrow>
     EncodeGSCharacterSelectTo slot s = (Inr (length (select_bytes slot)),
       s\<lparr>mem := select_bytes slot @ drop (length (select_bytes slot)) (mem s)\<rparr>)"
  unfolding EncodeGSCharacterSelectTo_def select_bytes_def prod.case by (intro at_start_ok emit_rules)

lemma EncodeGSMoveToLocationTo_ok:
  "wf_slice s \<Longrightarrow> length (move_bytes (ax, ay, az, ox, oy, oz)) \<le> slen s \<Longrightarrow>
     EncodeGSMoveToLocationTo ax ay az ox oy oz s = (Inr (length (move_bytes (ax, ay, az, ox, oy, oz))),
       s\<lparr>mem := move_bytes (ax, ay, az, ox, oy, oz) @ drop (length (move_bytes (ax, ay, az, ox, oy, oz))) (mem s)\<rparr>)"
  unfolding EncodeGSMoveToLocationTo_def move_bytes_def prod.case by (intro at_start_ok emit_rules)

lemma EncodeGSValidatePositionTo_ok:
  "wf_slice s \<Longrightarrow> length (validate_bytes (x, y, z, h)) \<le> slen s \<Longrightarrow>
     EncodeGSValidatePositionTo x y z h s = (Inr (length (validate_bytes (x, y, z, h))),
       s\<lparr>mem := validate_bytes (x, y, z, h) @ drop (length (validate_bytes (x, y, z, h))) (mem s)\<rparr>)"
  unfolding EncodeGSValidatePositionTo_def validate_bytes_def prod.case by (intro at_start_ok emit_rules)

lemma EncodeGSRequestActionUseTo_ok:
  "wf_slice s \<Longrightarrow> length (actionuse_bytes (i, ctrl, shift)) \<le> slen s \<Longrightarrow>
     EncodeGSRequestActionUseTo i ctrl shift s = (Inr (length (actionuse_bytes (i, ctrl, shift))),
       s\<lparr>mem := actionuse_bytes (i, ctrl, shift) @ drop (length (actionuse_bytes (i, ctrl, shift))) (mem s)\<rparr>)"
  unfolding EncodeGSRequestActionUseTo_def actionuse_bytes_def prod.case by (intro at_start_ok emit_rules)

lemma EncodeGSUseItemTo_ok:
  "wf_slice s \<Longrightarrow> length (useitem_bytes (i, ctrl)) \<le> slen s \<Longrightarrow>
     EncodeGSUseItemTo i ctrl s = (Inr (length (useitem_bytes (i, ctrl))),
       s\<lparr>mem := useitem_bytes (i, ctrl) @ drop (length (useitem_bytes (i, ctrl))) (mem s)\<rparr>)"
  unfolding EncodeGSUseItemTo_def useitem_bytes_def prod.case by (intro at_start_ok emit_rules)

lemma EncodeGSActionTo_ok:
  "wf_slice s \<Longrightarrow> length (target_bytes OpGSAction (i, x, y, z, a)) \<le> slen s \<Longrightarrow>
     EncodeGSActionTo i x y z a s = (Inr (length (target_bytes OpGSAction (i, x, y, z, a))),
       s\<lparr>mem := target_bytes OpGSAction (i, x, y, z, a) @ drop (length (target_bytes OpGSAction (i, x, y, z, a))) (mem s)\<rparr>)"
  unfolding EncodeGSActionTo_def target_bytes_def prod.case by (intro at_start_ok emit_rules)

lemma EncodeGSAttackRequestTo_ok:
  "wf_slice s \<Longrightarrow> length (target_bytes OpGSAttackRequest (i, x, y, z, a)) \<le> slen s \<Longrightarrow>
     EncodeGSAttackRequestTo i x y z a s = (Inr (length (target_bytes OpGSAttackRequest (i, x, y, z, a))),
       s\<lparr>mem := target_bytes OpGSAttackRequest (i, x, y, z, a) @ drop (length (target_bytes OpGSAttackRequest (i, x, y, z, a))) (mem s)\<rparr>)"
  unfolding EncodeGSAttackRequestTo_def target_bytes_def prod.case by (intro at_start_ok emit_rules)

lemma EncodeGSSay2To_ok:
  "wf_slice s \<Longrightarrow> length (say2_bytes (txt, c)) \<le> slen s \<Longrightarrow>
     EncodeGSSay2To txt c s = (Inr (length (say2_bytes (txt, c))),
       s\<lparr>mem := say2_bytes (txt, c) @ drop (length (say2_bytes (txt, c))) (mem s)\<rparr>)"
  unfolding EncodeGSSay2To_def say2_bytes_def prod.case by (intro at_start_ok emit_rules)

interpretation enc_auth: packet_encoder "\<lambda>(acc, pk1, pk2, lk1, lk2). EncodeAuthLoginTo acc pk1 pk2 lk1 lk2" authlogin_bytes
  by unfold_locales (auto simp: EncodeAuthLoginTo_ok)

interpretation enc_delete: packet_encoder EncodeGSCharacterDeleteTo "slot_bytes OpGSCharacterDelete"
  by unfold_locales (auto simp: EncodeGSCharacterDeleteTo_ok)

interpretation enc_restore: packet_encoder EncodeGSCharacterRestoreTo "slot_bytes OpGSCharacterRestore"
  by unfold_locales (auto simp: EncodeGSCharacterRestoreTo_ok)

interpretation enc_create: packet_encoder "\<lambda>(name, race, female, classID, style, color, face). EncodeGSCharacterCreateTo name race female classID style color face" create_bytes
  by unfold_locales (auto simp: EncodeGSCharacterCreateTo_ok)

interpretation enc_select: packet_encoder EncodeGSCharacterSelectTo select_bytes
  by unfold_locales (auto simp: EncodeGSCharacterSelectTo_ok)

interpretation enc_move: packet_encoder "\<lambda>(ax, ay, az, ox, oy, oz). EncodeGSMoveToLocationTo ax ay az ox oy oz" move_bytes
  by unfold_locales (auto simp: EncodeGSMoveToLocationTo_ok)

interpretation enc_validate: packet_encoder "\<lambda>(x, y, z, h). EncodeGSValidatePositionTo x y z h" validate_bytes
  by unfold_locales (auto simp: EncodeGSValidatePositionTo_ok)

interpretation enc_actionuse: packet_encoder "\<lambda>(i, ctrl, shift). EncodeGSRequestActionUseTo i ctrl shift" actionuse_bytes
  by unfold_locales (auto simp: EncodeGSRequestActionUseTo_ok)

interpretation enc_useitem: packet_encoder "\<lambda>(i, ctrl). EncodeGSUseItemTo i ctrl" useitem_bytes
  by unfold_locales (auto simp: EncodeGSUseItemTo_ok)

interpretation enc_action: packet_encoder "\<lambda>(i, x, y, z, a). EncodeGSActionTo i x y z a" "target_bytes OpGSAction"
  by unfold_locales (auto simp: EncodeGSActionTo_ok)

interpretation enc_attack: packet_encoder "\<lambda>(i, x, y, z, a). EncodeGSAttackRequestTo i x y z a" "target_bytes OpGSAttackRequest"
  by unfold_locales (auto simp: EncodeGSAttackRequestTo_ok)

interpretation enc_say2: packet_encoder "\<lambda>(txt, c). EncodeGSSay2To txt c" say2_bytes
  by unfold_locales (auto simp: EncodeGSSay2To_ok)

interpretation enc_enterworld: packet_encoder "\<lambda>u. EncodeGSEnterWorldTo" enterworld_bytes
proof unfold_locales
  fix s and u :: unit
  assume "wf_slice s" and "length (enterworld_bytes u) \<le> slen s"
  from fills_start [OF fills_enterworld this]
  show "EncodeGSEnterWorldTo s = (Inr (length (enterworld_bytes u)),
      s\<lparr>mem := enterworld_bytes u @ drop (length (enterworld_bytes u)) (mem s)\<rparr>)"
    unfolding EncodeGSEnterWorldTo_def andThen_assoc [symmetric]
    by (subst andThen_Inr) simp_all
qed

interpretation enc_appearing: packet_encoder "\<lambda>u. EncodeGSAppearingTo" appearing_bytes
  by unfold_locales
    (simp add: EncodeGSAppearingTo_def andThen_Inr [OF fills_start [OF fills_appearing]])

text \<open>
  The skill packet: ten bytes are written, thirteen are reported, so bytes 10 to 12 of what is
  sent are whatever the buffer held.
\<close>

definition skill_bytes :: "u32 \<Rightarrow> bool \<Rightarrow> bool \<Rightarrow> byte list" where
  "skill_bytes i ctrl shift =
     ([OpGSRequestMagicSkillUse] @ le32_bytes i @ le32_bytes (flag32 ctrl)) @ [flagB shift]"

lemma EncodeGSRequestMagicSkillUseTo_ok:
  assumes "wf_slice s" and "10 \<le> slen s"
  shows "EncodeGSRequestMagicSkillUseTo i ctrl shift s =
    (Inr 13, s\<lparr>mem := skill_bytes i ctrl shift @ drop 10 (mem s)\<rparr>)"
proof -
  let ?bs = "[OpGSRequestMagicSkillUse] @ le32_bytes i @ le32_bytes (flag32 ctrl)"
  have 1: "at_start (\<lambda>pos. andThen (wB OpGSRequestMagicSkillUse pos) (\<lambda>pos.
       andThen (w32 i pos) (\<lambda>pos. wFlag32 ctrl pos))) s =
      (Inr (length ?bs), s\<lparr>mem := ?bs @ drop (length ?bs) (mem s)\<rparr>)"
    by (intro at_start_ok emit_rules) (use assms in simp_all)
  have 2: "(if shift then setB 9 1 else setB 9 0) (s\<lparr>mem := ?bs @ drop (length ?bs) (mem s)\<rparr>) =
      (Inr (), s\<lparr>mem := skill_bytes i ctrl shift @ drop 10 (mem s)\<rparr>)"
    using fillsD [OF fills_setB, of 9 ?bs s "flagB shift"] assms
    by (cases shift) (simp_all add: skill_bytes_def flagB_def)
  have l: "length ?bs = 9" by simp
  show ?thesis
    using 1 2 l by (simp only: EncodeGSRequestMagicSkillUseTo_def andThen_def [of "at_start _"]
        andThen_def [of "if shift then _ else _"] prod.case sum.case ret_def) simp
qed

section \<open>The size of the buffer\<close>

lemma same_size_w_repeat [size_rules]:
  assumes "\<And>pos. same_size (w pos)"
  shows "same_size (w_repeat n w pos)"
proof (induction n arbitrary: pos)
  case 0
  show ?case unfolding w_repeat.simps by (rule size_rules)
next
  case (Suc n)
  show ?case unfolding w_repeat.simps by (intro size_rules assms Suc)
qed

lemma same_size_flags [size_rules]: "same_size (wFlag32 b pos)" "same_size (wFlagB b pos)"
  unfolding wFlag32_def wFlagB_def by (intro size_rules)+

lemma same_size_encoders [size_rules]:
  "same_size (EncodeProtocolVersionTo v)"
  "same_size (EncodeAuthLoginTo acc pk1 pk2 lk1 lk2)"
  "same_size (EncodeGSCharacterDeleteTo slot)"
  "same_size (EncodeGSCharacterRestoreTo slot)"
  "same_size (EncodeGSCharacterCreateTo name race female classID style color face)"
  "same_size (EncodeGSCharacterSelectTo slot)"
  "same_size (EncodeGSMoveToLocationTo ax ay az ox oy oz)"
  "same_size (EncodeGSValidatePositionTo ox oy oz h)"
  "same_size (EncodeGSRequestActionUseTo i ctrl shift)"
  "same_size (EncodeGSUseItemTo j ctrl)"
  "same_size (EncodeGSActionTo j ox oy oz a)"
  "same_size (EncodeGSAttackRequestTo j ox oy oz a)"
  "same_size (EncodeGSRequestMagicSkillUseTo j ctrl shift)"
  "same_size (EncodeGSEnterWorldTo)"
  "same_size (EncodeGSSay2To txt i)"
  "same_size (EncodeGSAppearingTo)"
  unfolding EncodeProtocolVersionTo_def EncodeAuthLoginTo_def EncodeGSCharacterDeleteTo_def EncodeGSCharacterRestoreTo_def
    EncodeGSCharacterCreateTo_def EncodeGSCharacterSelectTo_def EncodeGSMoveToLocationTo_def EncodeGSValidatePositionTo_def
    EncodeGSRequestActionUseTo_def EncodeGSUseItemTo_def EncodeGSActionTo_def
    EncodeGSAttackRequestTo_def
    EncodeGSRequestMagicSkillUseTo_def
    EncodeGSEnterWorldTo_def EncodeGSSay2To_def EncodeGSAppearingTo_def at_start_def
  by (intro size_rules)+

section \<open>Properties\<close>

text \<open>
  C40. The skill request reports thirteen bytes but writes ten: the last three bytes its caller
  encrypts and sends are whatever the send buffer still held from an earlier packet.
\<close>

theorem skill_packet_stale_bytes:
  assumes "wf_slice s" and "13 \<le> slen s"
  shows "\<exists>s'. EncodeGSRequestMagicSkillUseTo magicID ctrl shift s = (Inr 13, s') \<and>
    take 13 (visible s') = skill_bytes magicID ctrl shift @ sub_list 10 13 (visible s)"
proof -
  have l: "length (skill_bytes magicID ctrl shift) = 10" by (simp add: skill_bytes_def)
  have "sub_list 10 13 (visible s) = take 3 (drop 10 (mem s))"
    using assms by (simp add: sub_list_def visible_def drop_take min_def)
  with l assms show ?thesis
    by (simp add: EncodeGSRequestMagicSkillUseTo_ok visible_def min_def)
qed

theorem skill_packet_stale_bytes_witness:
  "\<exists>s'. EncodeGSRequestMagicSkillUseTo 1177 False False \<lparr>mem = replicate 15 7, slen = 15\<rparr> =
      (Inr 13, s') \<and> drop 10 (take 13 (visible s')) = [7, 7, 7]"
proof -
  have "sub_list 10 13 (visible \<lparr>mem = replicate 15 7, slen = 15\<rparr>) = [7, 7, 7 :: byte]"
    by (simp add: sub_list_def visible_def numeral_eq_Suc)
  then show ?thesis
    using skill_packet_stale_bytes [of "\<lparr>mem = replicate 15 7, slen = 15\<rparr>" 1177 False False]
    by (auto simp: wf_slice_def skill_bytes_def)
qed

end
