(* ===== verification/GameDecode.thy ===== *)
theory GameDecode
  imports GameEncode
begin

text \<open>
  The game server decoders of \<open>internal/net/protocol.go\<close>. \<open>DecodeCharSelectionInfo\<close> walks the
  packet with a cursor that its local closures \<open>u32\<close>, \<open>skip\<close> and \<open>readStr\<close> share: here the cursor
  is the state of a \<open>go\<close> computation. \<open>consumes m chunk x\<close> says that, wherever the cursor stands,
  \<open>m\<close> reads exactly the bytes \<open>chunk\<close> and returns \<open>x\<close>; it composes along \<open>andThen\<close>.
\<close>

section \<open>Strings in a packet\<close>

text \<open>
  The scan of \<open>readStr\<close> and \<open>skipString\<close>: the position of the first pair of zero bytes at an even
  distance, if there is one.
\<close>

function find_nul :: "byte list \<Rightarrow> nat \<Rightarrow> nat option" where
  "find_nul data i =
     (if i + 1 < length data
      then if data ! i = 0 \<and> data ! (i + 1) = 0 then Some i else find_nul data (i + 2)
      else None)"
  by pat_completeness auto
termination by (relation "measure (\<lambda>(data, i). length data - i)") auto

declare find_nul.simps [simp del]

fun low_bytes :: "byte list \<Rightarrow> byte list" where
  "low_bytes (a # b # bs) = a # low_bytes bs"
| "low_bytes bs = []"

lemma find_nul_bounds: "find_nul data i = Some p \<Longrightarrow> i \<le> p \<and> p + 1 < length data"
  by (induction data i rule: find_nul.induct)
    (subst (asm) (2) find_nul.simps, force split: if_splits)

lemma find_nul_utf16z:
  assumes "0 \<notin> set bs" and "i = length pre"
  shows "find_nul (pre @ utf16z bs @ post) i = Some (i + 2 * length bs)"
  using assms
proof (induction bs arbitrary: pre i)
  case Nil
  then show ?case by (subst find_nul.simps) (simp add: utf16z_def utf16_def nth_append)
next
  case (Cons b bs)
  have step: "find_nul ((pre @ [b, 0]) @ utf16z bs @ post) (i + 2) = Some (i + 2 + 2 * length bs)"
    using Cons.prems by (intro Cons.IH) auto
  have eq: "pre @ utf16z (b # bs) @ post = (pre @ [b, 0]) @ utf16z bs @ post"
    by (simp add: utf16z_def utf16_def)
  show ?case
    using Cons.prems step unfolding eq
    by (subst find_nul.simps) (auto simp: nth_append)
qed

lemma low_bytes_utf16 [simp]: "low_bytes (utf16 bs) = bs"
  by (induction bs) (simp_all add: utf16_def)

section \<open>The key packet\<close>

definition DecodeGSKeyPacket :: "byte list \<Rightarrow> byte list res" where
  "DecodeGSKeyPacket data =
     (if length data < 18 then Inl (Error ''packet too short for GS KeyPacket'')
      else rbind (idx data 0) (\<lambda>op.
      if op \<noteq> OpGSKeyPacket then Inl (Error ''invalid opcode for GS KeyPacket'')
      else rbind (rdSub data 2 18) (\<lambda>key. Inr (copy_at 0 key (replicate 16 0)))))"

section \<open>The character selection packet\<close>

record LobbyChar =
  Name :: string
  X :: i32
  Y :: i32
  Z :: i32
  Level :: i32
  ClassID :: u32
  DeleteTimer :: i32
  Paperdoll :: "u32 list"

record CharSelectionInfo =
  Characters :: "LobbyChar list"
  CharacterCount :: u32

text \<open>The closures: \<open>u32()\<close>, \<open>skip(n)\<close> and \<open>readStr()\<close>; \<open>None\<close> is their \<open>false\<close>.\<close>

definition cur_u32 :: "byte list \<Rightarrow> (nat, u32 option) go" where
  "cur_u32 data = (\<lambda>pos.
     if pos + 4 > length data then (Inr None, pos)
     else case rdU32 data pos of Inl e \<Rightarrow> (Inl e, pos) | Inr v \<Rightarrow> (Inr (Some v), pos + 4))"

definition cur_skip :: "nat \<Rightarrow> (nat, unit) go" where
  "cur_skip n = modifyS (\<lambda>pos. pos + n)"

definition cur_str :: "byte list \<Rightarrow> (nat, string option) go" where
  "cur_str data = (\<lambda>start. case find_nul data start of
     None \<Rightarrow> (Inr None, start)
   | Some pos \<Rightarrow> (case rdSub data start pos of
       Inl e \<Rightarrow> (Inl e, start)
     | Inr b \<Rightarrow> (Inr (Some (string_of (low_bytes b))), pos + 2)))"

text \<open>\<open>if v, ok = read(); !ok { return error }\<close> and \<open>if v, k := u32(); k { field = v }\<close>.\<close>

definition required :: "string \<Rightarrow> (nat, 'a option) go \<Rightarrow> (nat, 'a) go" where
  "required msg m = andThen m (\<lambda>v. case v of None \<Rightarrow> throw (Error msg) | Some x \<Rightarrow> ret x)"

definition or_zero :: "(nat, u32 option) go \<Rightarrow> (nat, u32) go" where
  "or_zero m = andThen m (\<lambda>v. ret (case v of None \<Rightarrow> 0 | Some x \<Rightarrow> x))"

fun read_paperdoll :: "nat \<Rightarrow> byte list \<Rightarrow> (nat, u32 list) go" where
  "read_paperdoll 0 data = ret []"
| "read_paperdoll (Suc n) data =
     andThen (or_zero (cur_u32 data)) (\<lambda>v.
     andThen (read_paperdoll n data) (\<lambda>vs. ret (v # vs)))"

definition read_char :: "byte list \<Rightarrow> (nat, LobbyChar) go" where
  "read_char data =
     andThen (required ''truncated: name'' (cur_str data)) (\<lambda>name.
     andThen (required ''truncated: id'' (cur_u32 data)) (\<lambda>_.
     andThen (required ''truncated: account'' (cur_str data)) (\<lambda>_.
     andThen (cur_skip 28) (\<lambda>_.
     andThen (or_zero (cur_u32 data)) (\<lambda>x.
     andThen (or_zero (cur_u32 data)) (\<lambda>y.
     andThen (or_zero (cur_u32 data)) (\<lambda>z.
     andThen (cur_skip 40) (\<lambda>_.
     andThen (or_zero (cur_u32 data)) (\<lambda>lvl.
     andThen (cur_skip 25) (\<lambda>_.
     andThen (read_paperdoll 33 data) (\<lambda>doll.
     andThen (cur_skip 94) (\<lambda>_.
     andThen (or_zero (cur_u32 data)) (\<lambda>dt.
     andThen (or_zero (cur_u32 data)) (\<lambda>cid.
     andThen (cur_skip 68) (\<lambda>_.
     andThen getS (\<lambda>pos.
     if pos > length data then throw (Error ''truncated character entry'')
     else ret \<lparr>Name = name, X = x, Y = y, Z = z, Level = lvl, ClassID = cid, DeleteTimer = dt,
               Paperdoll = doll\<rparr>))))))))))))))))"

fun read_chars :: "nat \<Rightarrow> byte list \<Rightarrow> (nat, LobbyChar list) go" where
  "read_chars 0 data = ret []"
| "read_chars (Suc n) data =
     andThen (read_char data) (\<lambda>ch. andThen (read_chars n data) (\<lambda>chs. ret (ch # chs)))"

definition DecodeCharSelectionInfo :: "byte list \<Rightarrow> CharSelectionInfo res" where
  "DecodeCharSelectionInfo data =
     (if length data < 5 then Inl (Error ''packet too short for CharSelectionInfo'')
      else rbind (idx data 0) (\<lambda>op.
      if op \<noteq> OpGSCharSelectionInfo then Inl (Error ''invalid opcode for CharSelectionInfo'')
      else rbind (rdU32 data 1) (\<lambda>count.
      rbind (fst (read_chars (unat count) data 18)) (\<lambda>chars.
      Inr \<lparr>Characters = chars, CharacterCount = count\<rparr>))))"

section \<open>The selected character\<close>

definition skipString :: "byte list \<Rightarrow> nat \<Rightarrow> nat res" where
  "skipString data pos = (case find_nul data pos of
     None \<Rightarrow> Inl (Error ''string not terminated'')
   | Some i \<Rightarrow> Inr (i + 2))"

definition DecodeCharSelected :: "byte list \<Rightarrow> (u32 \<times> u32 \<times> i32 \<times> i32 \<times> i32) res" where
  "DecodeCharSelected data =
     (if length data < 1 then Inl (Error ''packet too short'')
      else rbind (skipString data 1) (\<lambda>pos.
      if pos + 4 > length data then Inl (Error ''packet too short'')
      else rbind (rdU32 data pos) (\<lambda>objID.
      rbind (skipString data (pos + 4)) (\<lambda>pos.
      if pos + 36 > length data then Inl (Error ''packet too short'')
      else
        let pos = pos + 4 + 4 + 4 + 4 + 4 in
        rbind (rdU32 data pos) (\<lambda>classID.
        let pos = pos + 4 + 4 in
        rbind (rdU32 data pos) (\<lambda>x.
        rbind (rdU32 data (pos + 4)) (\<lambda>y.
        rbind (rdU32 data (pos + 4 + 4)) (\<lambda>z.
        Inr (objID, classID, x, y, z)))))))))"

section \<open>The item list\<close>

text \<open>The soul crystal block: two counted arrays; \<open>None\<close> when the loop breaks off inside it.\<close>

definition soul_crystal :: "byte \<Rightarrow> byte list \<Rightarrow> nat \<Rightarrow> nat option res" where
  "soul_crystal flags data pos =
     (if flags AND 16 = 0 then Inr (Some pos)
      else if pos \<ge> length data then Inr None
      else rbind (idx data pos) (\<lambda>regSize.
        let pos = pos + 1 + unat regSize * 4 in
        if pos \<ge> length data then Inr None
        else rbind (idx data pos) (\<lambda>specSize. Inr (Some (pos + 1 + unat specSize * 4)))))"

definition mask_size :: "byte \<Rightarrow> nat" where
  "mask_size flags = (if flags AND 1 \<noteq> 0 then 8 else 0) + (if flags AND 2 \<noteq> 0 then 16 else 0) +
     (if flags AND 4 \<noteq> 0 then 12 else 0) + (if flags AND 8 \<noteq> 0 then 4 else 0)"

fun extract_loop :: "nat \<Rightarrow> byte list \<Rightarrow> nat \<Rightarrow> u32 list res" where
  "extract_loop 0 data pos = Inr []"
| "extract_loop (Suc n) data pos =
     (if pos + 43 > length data then Inr []
      else rbind (idx data pos) (\<lambda>flags.
        rbind (rdU32 data (pos + 1)) (\<lambda>objectID.
        rbind (idx data (pos + 18)) (\<lambda>type2.
        let items = (if type2 \<le> 2 then [objectID] else []) in
        rbind (soul_crystal flags data (pos + 43 + mask_size flags)) (\<lambda>nxt.
        case nxt of
          None \<Rightarrow> Inr items
        | Some pos' \<Rightarrow> rbind (extract_loop n data pos') (\<lambda>rest. Inr (items @ rest)))))))"

definition ExtractEquippableItems :: "byte list \<Rightarrow> u32 list res" where
  "ExtractEquippableItems data =
     (if length data < 11 then Inr []
      else rbind (idx data 0) (\<lambda>op.
      if op \<noteq> OpGSItemList then Inr []
      else rbind (idx data 1) (\<lambda>sendType.
      if sendType = 2
      then if 2 + 8 > length data then Inr []
           else rbind (rdU32 data 6) (\<lambda>count. extract_loop (unat count) data 10)
      else Inr [])))"

section \<open>Status updates and skill reuse\<close>

fun status_loop :: "nat \<Rightarrow> byte list \<Rightarrow> nat \<Rightarrow> i32 \<times> i32 \<times> bool \<Rightarrow> (i32 \<times> i32 \<times> bool) res" where
  "status_loop 0 data pos acc = Inr acc"
| "status_loop (Suc n) data pos (mp, maxMp, ok) =
     (if pos + 5 > length data then Inr (mp, maxMp, ok)
      else rbind (rdU32 data (pos + 1)) (\<lambda>val.
        rbind (idx data pos) (\<lambda>attr.
        status_loop n data (pos + 5)
          (if attr = 0x0B then (val, maxMp, True)
           else if attr = 0x0C then (mp, val, ok) else (mp, maxMp, ok)))))"

definition ParseSelfMp :: "byte list \<Rightarrow> u32 \<Rightarrow> (i32 \<times> i32 \<times> bool) res" where
  "ParseSelfMp data selfObjID =
     (if length data < 11 then Inr (0, 0, False)
      else rbind (idx data 0) (\<lambda>op.
      if op \<noteq> OpGSStatusUpdate then Inr (0, 0, False)
      else rbind (rdU32 data 1) (\<lambda>objID.
      if objID \<noteq> selfObjID then Inr (0, 0, False)
      else rbind (idx data 10) (\<lambda>count. status_loop (unat count) data 11 (0, 0, False)))))"

definition ParseOwnSkillReuse :: "byte list \<Rightarrow> u32 \<Rightarrow> (u32 \<times> i32 \<times> bool) res" where
  "ParseOwnSkillReuse data selfObjID =
     (if length data < 33 then Inr (0, 0, False)
      else rbind (idx data 0) (\<lambda>op.
      if op \<noteq> OpGSMagicSkillUse then Inr (0, 0, False)
      else rbind (rdU32 data 5) (\<lambda>objID.
      if objID \<noteq> selfObjID then Inr (0, 0, False)
      else rbind (rdU32 data 13) (\<lambda>skillID.
      rbind (rdU32 data 29) (\<lambda>reuseMs. Inr (skillID, reuseMs, True))))))"

section \<open>No decoder panics\<close>

lemma safe_cursor [safe_rules]:
  "never_panics (cur_u32 data)" "never_panics (cur_skip n)" "never_panics (cur_str data)"
  by (auto simp: never_panics_def cur_u32_def cur_skip_def cur_str_def split: option.splits
      dest!: find_nul_bounds)

lemma safe_required [safe_rules]: "never_panics m \<Longrightarrow> never_panics (required msg m)"
  unfolding required_def
  by (intro never_panics_andThen) (auto split: option.split intro: safe_rules)

lemma safe_or_zero [safe_rules]: "never_panics m \<Longrightarrow> never_panics (or_zero m)"
  unfolding or_zero_def by (intro safe_rules)

lemma safe_paperdoll [safe_rules]: "never_panics (read_paperdoll n data)"
proof (induction n)
  case 0
  show ?case unfolding read_paperdoll.simps by (intro safe_rules)
next
  case (Suc n)
  show ?case unfolding read_paperdoll.simps by (intro safe_rules Suc)
qed

lemma safe_read_char [safe_rules]: "never_panics (read_char data)"
  unfolding read_char_def by (intro safe_rules)

lemma safe_read_chars [safe_rules]: "never_panics (read_chars n data)"
proof (induction n)
  case 0
  show ?case unfolding read_chars.simps by (intro safe_rules)
next
  case (Suc n)
  show ?case unfolding read_chars.simps by (intro safe_rules Suc)
qed

lemma DecodeCharSelectionInfo_safe: "DecodeCharSelectionInfo data \<noteq> Inl Panic"
  using never_panicsD [OF safe_read_chars, of "unat (u32_at data 1)" data 18]
  by (auto simp: DecodeCharSelectionInfo_def rbind_Panic_iff idx_def)

lemma soul_crystal_safe: "soul_crystal fl data pos \<noteq> Inl Panic"
  by (auto simp: soul_crystal_def Let_def)

lemma extract_loop_safe: "extract_loop n data pos \<noteq> Inl Panic"
  by (induction n arbitrary: pos)
    (auto simp: rbind_Panic_iff Let_def soul_crystal_safe split: option.splits)

lemma status_loop_safe: "status_loop n data pos acc \<noteq> Inl Panic"
  by (induction n data pos acc rule: status_loop.induct) (auto simp: rbind_Panic_iff)

section \<open>What the cursor reads\<close>

named_theorems consume_rules \<open>which bytes the pieces of a decoder read\<close>

definition consumes :: "(byte list \<Rightarrow> (nat, 'a) go) \<Rightarrow> byte list \<Rightarrow> 'a \<Rightarrow> bool" where
  "consumes m chunk x \<longleftrightarrow> (\<forall>pre post. m (pre @ chunk @ post) (length pre) =
     (Inr x, length pre + length chunk))"

lemma consumesD:
  "consumes m chunk x \<Longrightarrow> data = pre @ chunk @ post \<Longrightarrow> pos = length pre \<Longrightarrow>
     m data pos = (Inr x, pos + length chunk)"
  by (simp add: consumes_def)

lemma consumes_andThen:
  assumes "consumes m c1 x" and "consumes (\<lambda>data. f data x) c2 y"
  shows "consumes (\<lambda>data. andThen (m data) (f data)) (c1 @ c2) y"
  unfolding consumes_def
proof (intro allI)
  fix pre post
  have "m (pre @ (c1 @ c2) @ post) (length pre) = (Inr x, length pre + length c1)"
    by (rule consumesD [OF assms(1), where post = "c2 @ post"]) simp_all
  moreover have "f (pre @ (c1 @ c2) @ post) x (length pre + length c1) =
      (Inr y, length pre + length c1 + length c2)"
    by (rule consumesD [OF assms(2), where pre = "pre @ c1" and post = post]) simp_all
  ultimately show "andThen (m (pre @ (c1 @ c2) @ post)) (f (pre @ (c1 @ c2) @ post)) (length pre) =
      (Inr y, length pre + length (c1 @ c2))"
    by (simp add: andThen_def)
qed

lemma consumes_ret [consume_rules]: "consumes (\<lambda>data. ret x) [] x"
  by (simp add: consumes_def)

lemma consumes_u32 [consume_rules]: "consumes cur_u32 (le32_bytes v) (Some v)"
  by (simp add: consumes_def cur_u32_def le_simps)

lemma consumes_skip [consume_rules]: "length c = n \<Longrightarrow> consumes (\<lambda>data. cur_skip n) c ()"
  by (simp add: consumes_def cur_skip_def)

lemma consumes_str [consume_rules]:
  assumes "0 \<notin> set bs"
  shows "consumes cur_str (utf16z bs) (Some (string_of bs))"
  unfolding consumes_def
proof (intro allI)
  fix pre post :: "byte list"
  have "sub_list (length pre) (length pre + 2 * length bs) (pre @ utf16z bs @ post) = utf16 bs"
    by (simp add: sub_list_def utf16z_def)
  then show "cur_str (pre @ utf16z bs @ post) (length pre) =
      (Inr (Some (string_of bs)), length pre + length (utf16z bs))"
    by (simp add: cur_str_def find_nul_utf16z [OF assms refl])
qed

lemma consumes_required [consume_rules]:
  "consumes m c (Some x) \<Longrightarrow> consumes (\<lambda>data. required msg (m data)) c x"
  by (simp add: consumes_def required_def andThen_def)

lemma consumes_or_zero [consume_rules]:
  "consumes m c (Some x) \<Longrightarrow> consumes (\<lambda>data. or_zero (m data)) c x"
  by (simp add: consumes_def or_zero_def andThen_def)

lemma consumes_paperdoll [consume_rules]:
  "length vs = n \<Longrightarrow> consumes (read_paperdoll n) (concat (map le32_bytes vs)) vs"
proof (induction vs arbitrary: n)
  case Nil
  then show ?case by (simp add: consumes_def)
next
  case (Cons v vs)
  then obtain k where n: "n = Suc k" and k: "length vs = k" by auto
  have "consumes (\<lambda>data. andThen (or_zero (cur_u32 data)) (\<lambda>v.
      andThen (read_paperdoll k data) (\<lambda>vs. ret (v # vs))))
      (le32_bytes v @ (concat (map le32_bytes vs) @ [])) (v # vs)"
    by (rule consumes_andThen, rule consumes_or_zero, rule consumes_u32,
        rule consumes_andThen, rule Cons.IH [OF k], rule consumes_ret)
  then show ?case by (simp add: n consumes_def)
qed

text \<open>
  A character entry on the wire: the named fields, and the stretches the decoder skips
  (\<open>object id\<close>, account name and four blocks of unread fields).
\<close>

record char_pad =
  pad_id :: u32
  pad_account :: "byte list"
  pad28 :: "byte list"
  pad40 :: "byte list"
  pad25 :: "byte list"
  pad94 :: "byte list"
  pad68 :: "byte list"

definition char_bytes :: "LobbyChar \<times> char_pad \<Rightarrow> byte list" where
  "char_bytes = (\<lambda>(ch, p). utf16z (bytes_of (Name ch)) @ le32_bytes (pad_id p) @
     utf16z (pad_account p) @ pad28 p @ le32_bytes (X ch) @ le32_bytes (Y ch) @ le32_bytes (Z ch) @
     pad40 p @ le32_bytes (Level ch) @ pad25 p @ concat (map le32_bytes (Paperdoll ch)) @ pad94 p @
     le32_bytes (DeleteTimer ch) @ le32_bytes (ClassID ch) @ pad68 p)"

definition wf_char :: "LobbyChar \<times> char_pad \<Rightarrow> bool" where
  "wf_char = (\<lambda>(ch, p). 0 \<notin> set (bytes_of (Name ch)) \<and> 0 \<notin> set (pad_account p) \<and>
     length (Paperdoll ch) = 33 \<and> length (pad28 p) = 28 \<and> length (pad40 p) = 40 \<and>
     length (pad25 p) = 25 \<and> length (pad94 p) = 94 \<and> length (pad68 p) = 68)"

lemma consumes_end:
  "consumes (\<lambda>data. andThen getS (\<lambda>pos. if pos > length data then throw e else ret x)) [] x"
  by (simp add: consumes_def andThen_def)

lemma consumes_read_char:
  assumes "wf_char (ch, p)"
  shows "consumes read_char (char_bytes (ch, p)) ch"
proof -
  have eta: "\<lparr>Name = string_of (bytes_of (Name ch)), X = X ch, Y = Y ch, Z = Z ch,
      Level = Level ch, ClassID = ClassID ch, DeleteTimer = DeleteTimer ch,
      Paperdoll = Paperdoll ch\<rparr> = ch"
    by (cases ch) simp
  note wf = assms [unfolded wf_char_def prod.case]
  have "consumes read_char (utf16z (bytes_of (Name ch)) @ le32_bytes (pad_id p) @
     utf16z (pad_account p) @ pad28 p @ le32_bytes (X ch) @ le32_bytes (Y ch) @ le32_bytes (Z ch) @
     pad40 p @ le32_bytes (Level ch) @ pad25 p @ concat (map le32_bytes (Paperdoll ch)) @ pad94 p @
     le32_bytes (DeleteTimer ch) @ le32_bytes (ClassID ch) @ pad68 p @ [])
     \<lparr>Name = string_of (bytes_of (Name ch)), X = X ch, Y = Y ch, Z = Z ch, Level = Level ch,
      ClassID = ClassID ch, DeleteTimer = DeleteTimer ch, Paperdoll = Paperdoll ch\<rparr>"
    unfolding read_char_def
    by (rule consumes_andThen consumes_end consume_rules
        | use wf in blast)+
  then show ?thesis unfolding eta by (simp add: char_bytes_def)
qed

lemma consumes_read_chars:
  "list_all wf_char es \<Longrightarrow>
     consumes (read_chars (length es)) (concat (map char_bytes es)) (map fst es)"
proof (induction es)
  case Nil
  show ?case by (simp add: consumes_def)
next
  case (Cons e es)
  then have ch: "consumes read_char (char_bytes e) (fst e)"
    by (cases e) (simp add: consumes_read_char)
  have "consumes (\<lambda>data. andThen (read_char data) (\<lambda>ch.
      andThen (read_chars (length es) data) (\<lambda>chs. ret (ch # chs))))
      (char_bytes e @ (concat (map char_bytes es) @ [])) (fst e # map fst es)"
    using Cons by (intro consumes_andThen [OF ch] consumes_andThen [OF Cons.IH] consumes_ret) simp
  then show ?case by (simp add: consumes_def)
qed

section \<open>How far the cursor moves\<close>

text \<open>
  \<open>advances len k m\<close>: a successful \<open>m\<close> never moves the cursor back, and moves it by at least \<open>k\<close>
  unless it ends within 64 bytes of the packet's end, where a missing field is silently zero.
\<close>

named_theorems advance_rules \<open>how far the pieces of a decoder move the cursor\<close>

definition advances :: "nat \<Rightarrow> nat \<Rightarrow> (nat, 'a) go \<Rightarrow> bool" where
  "advances len k m \<longleftrightarrow> (\<forall>s x t. m s = (Inr x, t) \<longrightarrow> s \<le> t \<and> (t + 64 \<le> len \<longrightarrow> s + k \<le> t))"

lemma advancesD:
  "advances len k m \<Longrightarrow> m s = (Inr x, t) \<Longrightarrow> s \<le> t \<and> (t + 64 \<le> len \<longrightarrow> s + k \<le> t)"
  by (simp add: advances_def)

lemma advances_andThen:
  assumes "advances len k m" and "\<And>x. advances len l (f x)"
  shows "advances len (k + l) (andThen m f)"
  unfolding advances_def
proof (intro allI impI)
  fix s x u
  assume "andThen m f s = (Inr x, u)"
  then obtain y t where "m s = (Inr y, t)" and "f y t = (Inr x, u)" by (rule andThen_InrE)
  with advancesD [OF assms(1)] advancesD [OF assms(2)]
  show "s \<le> u \<and> (u + 64 \<le> len \<longrightarrow> s + (k + l) \<le> u)" by fastforce
qed

lemma advances_basic [advance_rules]:
  "advances len 0 (ret x)" "advances len 0 (throw e)" "advances len n (cur_skip n)"
  by (simp_all add: advances_def cur_skip_def)

lemma advances_str [advance_rules]: "advances len 2 (required msg (cur_str data))"
  by (auto simp: advances_def required_def cur_str_def andThen_def dest!: find_nul_bounds
      split: option.splits sum.splits)

lemma advances_u32 [advance_rules]:
  "advances (length data) 4 (or_zero (cur_u32 data))"
  "advances (length data) 4 (required msg (cur_u32 data))"
  by (auto simp: advances_def or_zero_def required_def cur_u32_def andThen_def split: if_splits)

lemma advances_paperdoll [advance_rules]: "advances (length data) (n * 4) (read_paperdoll n data)"
proof (induction n)
  case 0
  show ?case unfolding read_paperdoll.simps mult_0 by (rule advance_rules)
next
  case (Suc n)
  have "advances (length data) (4 + (n * 4 + 0)) (read_paperdoll (Suc n) data)"
    unfolding read_paperdoll.simps
    by (rule advances_andThen advance_rules Suc)+
  then show ?case by (simp add: add.commute)
qed

text \<open>\<open>lands len k m\<close>: on success, the cursor ends inside the packet, at least \<open>k\<close> further.\<close>

definition lands :: "nat \<Rightarrow> nat \<Rightarrow> (nat, 'a) go \<Rightarrow> bool" where
  "lands len k m \<longleftrightarrow> (\<forall>s x t. m s = (Inr x, t) \<longrightarrow> t \<le> len \<and> s + k \<le> t \<and> s + 64 \<le> len)"

lemma landsD: "lands len k m \<Longrightarrow> m s = (Inr x, t) \<Longrightarrow> t \<le> len \<and> s + k \<le> t \<and> s + 64 \<le> len"
  by (simp add: lands_def)

lemma lands_andThen:
  assumes "advances len k m" and "\<And>x. lands len l (f x)"
  shows "lands len (k + l) (andThen m f)"
  unfolding lands_def
proof (intro allI impI)
  fix s x u
  assume "andThen m f s = (Inr x, u)"
  then obtain y t where "m s = (Inr y, t)" and "f y t = (Inr x, u)" by (rule andThen_InrE)
  with advancesD [OF assms(1)] landsD [OF assms(2)]
  show "u \<le> len \<and> s + (k + l) \<le> u \<and> s + 64 \<le> len" by fastforce
qed

lemma lands_end:
  "lands (length data) 68 (andThen (cur_skip 68) (\<lambda>_. andThen getS (\<lambda>pos.
     if pos > length data then throw e else ret x)))"
  by (auto simp: lands_def cur_skip_def andThen_def split: if_splits)

text \<open>An accepted entry lies inside the packet and is at least 419 bytes long.\<close>

lemma read_char_bounds: "lands (length data) 419 (read_char data)"
proof -
  have "lands (length data) (2 + (4 + (2 + (28 + (4 + (4 + (4 + (40 + (4 + (25 + (33 * 4 +
      (94 + (4 + (4 + 68)))))))))))))) (read_char data)"
    unfolding read_char_def by (rule lands_end lands_andThen advance_rules)+
  then show ?thesis by simp
qed

lemma read_chars_bounds:
  "read_chars n data s = (Inr chs, t) \<Longrightarrow> length chs = n \<and> s + 419 * n \<le> t \<and> (0 < n \<longrightarrow> t \<le> length data)"
proof (induction n arbitrary: s chs)
  case 0
  then show ?case by simp
next
  case (Suc n)
  then obtain ch u chs' where ch: "read_char data s = (Inr ch, u)"
    and chs': "read_chars n data u = (Inr chs', t)" and eq: "chs = ch # chs'"
    by (auto elim!: andThen_InrE)
  note b = landsD [OF read_char_bounds ch]
  note IH = Suc.IH [OF chs']
  have "u \<le> length data \<and> n = 0 \<longrightarrow> t \<le> length data" using chs' by auto
  with b IH eq show ?case by auto
qed

section \<open>Items on the wire\<close>

record item_rec =
  item_flags :: byte
  item_obj :: u32
  item_mid :: "byte list"
  item_type2 :: byte
  item_tail :: "byte list"
  item_extra :: "byte list"
  item_reg :: "u32 list"
  item_spec :: "u32 list"

definition soul_bytes :: "item_rec \<Rightarrow> byte list" where
  "soul_bytes i = (if item_flags i AND 16 = 0 then []
     else [of_nat (length (item_reg i))] @ concat (map le32_bytes (item_reg i)) @
          [of_nat (length (item_spec i))] @ concat (map le32_bytes (item_spec i)))"

definition item_bytes :: "item_rec \<Rightarrow> byte list" where
  "item_bytes i = [item_flags i] @ le32_bytes (item_obj i) @ item_mid i @ [item_type2 i] @
     item_tail i @ item_extra i @ soul_bytes i"

definition wf_item :: "item_rec \<Rightarrow> bool" where
  "wf_item i \<longleftrightarrow> length (item_mid i) = 13 \<and> length (item_tail i) = 24 \<and>
     length (item_extra i) = mask_size (item_flags i) \<and> length (item_reg i) < 256 \<and>
     length (item_spec i) < 256"

lemma length_concat_le32 [simp]: "length (concat (map le32_bytes vs)) = 4 * length vs"
  by (induction vs) simp_all

lemma unat_byte_of_nat: "n < 256 \<Longrightarrow> unat (of_nat n :: byte) = n"
  unfolding unsigned_of_nat take_bit_eq_mod by simp

lemma soul_crystal_bytes:
  assumes "wf_item i" and "pos = length pre"
  shows "soul_crystal (item_flags i) (pre @ soul_bytes i @ post) pos =
    Inr (Some (pos + length (soul_bytes i)))"
proof (cases "item_flags i AND 16 = 0")
  case True
  with assms show ?thesis by (simp add: soul_crystal_def soul_bytes_def)
next
  case False
  let ?reg = "concat (map le32_bytes (item_reg i))" and ?spec = "concat (map le32_bytes (item_spec i))"
  have sz: "unat (of_nat (length (item_reg i)) :: byte) = length (item_reg i)"
    "unat (of_nat (length (item_spec i)) :: byte) = length (item_spec i)"
    using assms(1) by (simp_all add: wf_item_def unat_byte_of_nat)
  have bytes: "pre @ soul_bytes i @ post = pre @ of_nat (length (item_reg i)) #
      ?reg @ of_nat (length (item_spec i)) # ?spec @ post"
    using False by (simp add: soul_bytes_def)
  have r1: "idx (pre @ soul_bytes i @ post) pos = Inr (of_nat (length (item_reg i)))"
    unfolding bytes assms(2) by (simp add: idx_def)
  have r2: "idx (pre @ soul_bytes i @ post) (pos + 1 + length (item_reg i) * 4) =
      Inr (of_nat (length (item_spec i)))"
    unfolding bytes assms(2) by (simp add: idx_def nth_append)
  have len: "length (pre @ soul_bytes i @ post) =
      pos + 2 + 4 * length (item_reg i) + 4 * length (item_spec i) + length post"
    and sl: "length (soul_bytes i) = 2 + 4 * length (item_reg i) + 4 * length (item_spec i)"
    using False assms(2) by (simp_all add: soul_bytes_def)
  show ?thesis
    unfolding soul_crystal_def r1 len using False sz r2 sl by (simp add: Let_def)
qed

lemma extract_loop_items:
  assumes "list_all wf_item is"
  shows "extract_loop (length is) (pre @ concat (map item_bytes is) @ post) (length pre) =
    Inr (map item_obj (filter (\<lambda>i. item_type2 i \<le> 2) is))"
  using assms
proof (induction "is" arbitrary: pre)
  case Nil
  then show ?case by simp
next
  case (Cons i "is")
  then have wf: "wf_item i" and wfs: "list_all wf_item is" by simp_all
  note wfl = wf [unfolded wf_item_def]
  define more where "more = concat (map item_bytes is) @ post"
  define data where "data = pre @ item_bytes i @ more"
  have d1: "data = pre @ [item_flags i] @ le32_bytes (item_obj i) @ item_mid i @ [item_type2 i] @
      item_tail i @ item_extra i @ soul_bytes i @ more"
    by (simp add: data_def item_bytes_def)
  have r1: "idx data (length pre) = Inr (item_flags i)" by (simp add: d1 idx_def)
  have r2: "rdU32 data (length pre + 1) = Inr (item_obj i)"
    using u32_at_append [of "pre @ [item_flags i]" "length pre + 1" "item_obj i"]
    by (simp add: d1)
  have r3: "idx data (length pre + 18) = Inr (item_type2 i)"
    using wfl by (simp add: d1 idx_def nth_append)
  have r4: "soul_crystal (item_flags i) data (length pre + 43 + mask_size (item_flags i)) =
      Inr (Some (length pre + length (item_bytes i)))"
  proof -
    have "soul_crystal (item_flags i) ((pre @ [item_flags i] @ le32_bytes (item_obj i) @ item_mid i @
        [item_type2 i] @ item_tail i @ item_extra i) @ soul_bytes i @ more)
        (length pre + 43 + mask_size (item_flags i)) =
      Inr (Some (length pre + 43 + mask_size (item_flags i) + length (soul_bytes i)))"
      using wfl by (intro soul_crystal_bytes wf) simp
    then show ?thesis using wfl by (simp add: d1 item_bytes_def)
  qed
  have r5: "extract_loop (length is) data (length pre + length (item_bytes i)) =
      Inr (map item_obj (filter (\<lambda>i. item_type2 i \<le> 2) is))"
    using Cons.IH [OF wfs, of "pre @ item_bytes i"] by (simp add: data_def more_def)
  have len: "\<not> length data < length pre + 43" using wfl by (simp add: d1)
  have "extract_loop (Suc (length is)) data (length pre) =
      Inr (map item_obj (filter (\<lambda>i. item_type2 i \<le> 2) (i # is)))"
    unfolding extract_loop.simps r1 r2 r3 using r4 r5 len by simp
  then show ?case by (simp add: data_def more_def)
qed

section \<open>Properties\<close>

text \<open>
  C32. Whatever bytes the game server sends, the five game decoders other than \<open>DecodeCharSelected\<close>
  (which is the subject of a property of its own) never panic: every read they do is covered by
  one of their length checks.
\<close>

theorem game_decoders_no_panic:
  "DecodeGSKeyPacket data \<noteq> Inl Panic \<and> DecodeCharSelectionInfo data \<noteq> Inl Panic \<and>
   ExtractEquippableItems data \<noteq> Inl Panic \<and> ParseSelfMp data obj \<noteq> Inl Panic \<and>
   ParseOwnSkillReuse data obj \<noteq> Inl Panic"
proof (intro conjI)
  show "DecodeGSKeyPacket data \<noteq> Inl Panic"
    by (auto simp: DecodeGSKeyPacket_def rbind_Panic_iff idx_def)
  show "DecodeCharSelectionInfo data \<noteq> Inl Panic" by (rule DecodeCharSelectionInfo_safe)
  show "ExtractEquippableItems data \<noteq> Inl Panic"
    by (auto simp: ExtractEquippableItems_def rbind_Panic_iff extract_loop_safe idx_def)
  show "ParseSelfMp data obj \<noteq> Inl Panic"
    by (auto simp: ParseSelfMp_def rbind_Panic_iff status_loop_safe idx_def)
  show "ParseOwnSkillReuse data obj \<noteq> Inl Panic"
    by (auto simp: ParseOwnSkillReuse_def rbind_Panic_iff idx_def)
qed

lemma DecodeCharSelectionInfo_chars:
  assumes "list_all wf_char es" and "length es < 2 ^ 32" and "length hdr = 13"
  shows "DecodeCharSelectionInfo ([OpGSCharSelectionInfo] @ le32_bytes (of_nat (length es)) @ hdr @
      concat (map char_bytes es) @ rest) =
    Inr \<lparr>Characters = map fst es, CharacterCount = of_nat (length es)\<rparr>"
proof -
  define data where "data = [OpGSCharSelectionInfo] @ le32_bytes (of_nat (length es)) @ hdr @
      concat (map char_bytes es) @ rest"
  have n: "unat (of_nat (length es) :: u32) = length es"
    unfolding unsigned_of_nat take_bit_eq_mod using assms(2) by simp
  have cnt: "rdU32 data 1 = Inr (of_nat (length es))"
    using u32_at_append [of "[OpGSCharSelectionInfo]" 1 "of_nat (length es)"]
    by (simp add: data_def)
  have "read_chars (length es) data 18 =
      (Inr (map fst es), 18 + length (concat (map char_bytes es)))"
    by (rule consumesD [OF consumes_read_chars [OF assms(1)],
          where pre = "[OpGSCharSelectionInfo] @ le32_bytes (of_nat (length es)) @ hdr" and post = rest])
      (simp_all add: data_def assms(3))
  moreover have "\<not> length data < 5" and "idx data 0 = Inr OpGSCharSelectionInfo"
    by (simp_all add: data_def idx_def)
  ultimately show ?thesis
    unfolding data_def [symmetric] using cnt n by (simp add: DecodeCharSelectionInfo_def)
qed

text \<open>
  C26. A character list the server encoded decodes to exactly its characters: names, positions,
  levels, classes, deletion timers and all 33 worn items, whatever the skipped fields and the
  trailing bytes hold.
\<close>

theorem DecodeCharSelectionInfo_roundtrip:
  assumes "list_all wf_char es" and "length es < 2 ^ 32" and "length hdr = 13"
  shows "DecodeCharSelectionInfo ([OpGSCharSelectionInfo] @ le32_bytes (of_nat (length es)) @ hdr @
      concat (map char_bytes es) @ rest) =
    Inr \<lparr>Characters = map fst es, CharacterCount = of_nat (length es)\<rparr>"
  using assms by (rule DecodeCharSelectionInfo_chars)

definition sample_char :: LobbyChar where
  "sample_char = \<lparr>Name = ''Bot'', X = 1, Y = 2, Z = 3, Level = 4, ClassID = 10, DeleteTimer = 0,
     Paperdoll = replicate 33 7\<rparr>"

definition sample_pad :: char_pad where
  "sample_pad = \<lparr>pad_id = 9, pad_account = [65], pad28 = replicate 28 0, pad40 = replicate 40 0,
     pad25 = replicate 25 0, pad94 = replicate 94 0, pad68 = replicate 68 0\<rparr>"

lemma wf_sample_char: "wf_char (sample_char, sample_pad)"
  by (simp add: wf_char_def sample_char_def sample_pad_def bytes_of_def byte_of_char_def)

theorem DecodeCharSelectionInfo_roundtrip_witness:
  "DecodeCharSelectionInfo ([OpGSCharSelectionInfo] @ le32_bytes 1 @ replicate 13 0 @
     char_bytes (sample_char, sample_pad) @ [1, 2]) =
   Inr \<lparr>Characters = [sample_char], CharacterCount = 1\<rparr>"
  using DecodeCharSelectionInfo_roundtrip [of "[(sample_char, sample_pad)]" "replicate 13 0" "[1, 2]"]
  by (simp add: wf_sample_char)

text \<open>
  C27. An accepted character list has exactly as many entries as it announces, each of at least
  419 bytes inside the packet: a count that the packet does not back is refused, so the
  decoder's work is bounded by the packet and not by the announced count.
\<close>

theorem DecodeCharSelectionInfo_count:
  assumes "DecodeCharSelectionInfo data = Inr info"
  shows "length (Characters info) = unat (CharacterCount info) \<and>
    CharacterCount info = u32_at data 1 \<and>
    (CharacterCount info = 0 \<or> 18 + 419 * unat (CharacterCount info) \<le> length data)"
proof -
  obtain chs t where rd: "read_chars (unat (u32_at data 1)) data 18 = (Inr chs, t)"
    and info: "info = \<lparr>Characters = chs, CharacterCount = u32_at data 1\<rparr>"
    using assms
    by (auto simp: DecodeCharSelectionInfo_def rbind_Inr_iff split: if_splits)
      (metis prod.collapse)
  note b = read_chars_bounds [OF rd]
  define c where "c = u32_at data 1"
  have "0 < unat c" if "c \<noteq> 0"
    using that by (metis gr0I unsigned_eq_0_iff)
  with b show ?thesis unfolding info c_def [symmetric] by (cases "c = 0") auto
qed

theorem DecodeCharSelectionInfo_count_witness:
  "\<exists>info. DecodeCharSelectionInfo ([OpGSCharSelectionInfo] @ le32_bytes 1 @ replicate 13 0 @
       char_bytes (sample_char, sample_pad)) = Inr info \<and>
     length (Characters info) = unat (CharacterCount info) \<and> CharacterCount info = 1 \<and>
     437 \<le> length ([OpGSCharSelectionInfo] @ le32_bytes 1 @ replicate 13 0 @ char_bytes (sample_char, sample_pad))"
proof -
  let ?data = "[OpGSCharSelectionInfo] @ le32_bytes 1 @ replicate 13 0 @ char_bytes (sample_char, sample_pad)"
  have "DecodeCharSelectionInfo ?data = Inr \<lparr>Characters = [sample_char], CharacterCount = 1\<rparr>"
    using DecodeCharSelectionInfo_chars [of "[(sample_char, sample_pad)]" "replicate 13 0" "[]"]
    by (simp add: wf_sample_char)
  note accepted = this and DecodeCharSelectionInfo_count [OF this]
  then show ?thesis by (intro exI [of _ "\<lparr>Characters = [sample_char], CharacterCount = 1\<rparr>"]) simp
qed

text \<open>
  C33. \<open>DecodeCharSelected\<close> checks for 36 bytes after the title but reads 40: it panics exactly
  when the packet ends one to four bytes before the end of the z coordinate.
\<close>

theorem DecodeCharSelected_panics_iff:
  "DecodeCharSelected data = Inl Panic \<longleftrightarrow>
     (\<exists>i j. find_nul data 1 = Some i \<and> find_nul data (i + 6) = Some j \<and>
        j + 38 \<le> length data \<and> length data < j + 42)"
proof (cases "find_nul data 1")
  case None
  then show ?thesis by (simp add: DecodeCharSelected_def skipString_def)
next
  case (Some i)
  note i = find_nul_bounds [OF Some]
  show ?thesis
  proof (cases "find_nul data (i + 6)")
    case None
    then show ?thesis using Some
      by (auto simp: DecodeCharSelected_def skipString_def rbind_Panic_iff rdU32_def add.commute)
  next
    case (Some j)
    note j = find_nul_bounds [OF Some]
    have "DecodeCharSelected data = (if j + 2 + 36 > length data then Inl (Error ''packet too short'')
        else if j + 2 + 40 > length data then Inl Panic
        else Inr (u32_at data (i + 2), u32_at data (j + 22), u32_at data (j + 30),
               u32_at data (j + 34), u32_at data (j + 38)))"
      using \<open>find_nul data 1 = Some i\<close> Some i j
      by (simp add: DecodeCharSelected_def skipString_def rdU32_def add.commute Let_def)
    with Some \<open>find_nul data 1 = Some i\<close> show ?thesis by auto
  qed
qed

text \<open>
  A complete selected-character packet is decoded to its object id, class and position,
  wherever the name and the title end.
\<close>

theorem DecodeCharSelected_fields:
  assumes "0 \<notin> set name" and "0 \<notin> set title" and "length mid = 20" and "length act = 4"
  shows "DecodeCharSelected ([op] @ utf16z name @ le32_bytes objID @ utf16z title @ mid @
      le32_bytes classID @ act @ le32_bytes px @ le32_bytes py @ le32_bytes pz @ rest) =
    Inr (objID, classID, px, py, pz)"
proof -
  define body where "body = mid @ le32_bytes classID @ act @ le32_bytes px @ le32_bytes py @
      le32_bytes pz @ rest"
  define data where "data = [op] @ utf16z name @ le32_bytes objID @ utf16z title @ body"
  let ?p = "1 + length (utf16z name)"
  let ?q = "?p + 4 + length (utf16z title)"
  have s1: "skipString data 1 = Inr ?p"
    unfolding skipString_def data_def by (subst find_nul_utf16z [OF assms(1)]) simp_all
  have s2: "skipString data (?p + 4) = Inr ?q"
    using find_nul_utf16z [OF assms(2), of "?p + 4" "[op] @ utf16z name @ le32_bytes objID" body]
    by (simp add: skipString_def data_def)
  have r: "u32_at data ?p = objID"
    using u32_at_append [of "[op] @ utf16z name" ?p objID "utf16z title @ body"]
    by (simp add: data_def)
  have f: "u32_at data (?q + length pre) = v"
    if "body = pre @ le32_bytes v @ post" for pre v post
    using u32_at_append [of "([op] @ utf16z name @ le32_bytes objID @ utf16z title) @ pre"
        "?q + length pre" v post] that
    by (simp add: data_def)
  have r1: "u32_at data (?q + 20) = classID"
    using f [of mid classID] assms(3) by (simp add: body_def)
  have r2: "u32_at data (?q + 28) = px"
    using f [of "mid @ le32_bytes classID @ act" px] assms(3,4) by (simp add: body_def)
  have r3: "u32_at data (?q + 32) = py"
    using f [of "mid @ le32_bytes classID @ act @ le32_bytes px" py] assms(3,4)
    by (simp add: body_def)
  have r4: "u32_at data (?q + 36) = pz"
    using f [of "mid @ le32_bytes classID @ act @ le32_bytes px @ le32_bytes py" pz] assms(3,4)
    by (simp add: body_def)
  have len: "length data = ?q + 40 + length rest"
    using assms(3,4) by (simp add: data_def body_def)
  have "?p + 4 \<le> length data" using len by linarith
  then have "DecodeCharSelected data = Inr (objID, classID, px, py, pz)"
    unfolding DecodeCharSelected_def Let_def
    using s1 s2 r r1 r2 r3 r4 len by (simp del: length_utf16 add: add.assoc)
  then show ?thesis by (simp add: data_def body_def)
qed

theorem DecodeCharSelected_fields_witness:
  "DecodeCharSelected ([0x0b] @ utf16z [66] @ le32_bytes 7 @ utf16z [] @ replicate 20 0 @
     le32_bytes 10 @ replicate 4 0 @ le32_bytes 1 @ le32_bytes 2 @ le32_bytes 3 @ []) =
   Inr (7, 10, 1, 2, 3)"
  by (rule DecodeCharSelected_fields) simp_all

text \<open>
  C28. From a complete item list the client keeps exactly the object ids of the items of type 0,
  1 and 2, in order, whichever optional blocks (augment, element, enchant, visual, soul crystal)
  each item carries.
\<close>

theorem ExtractEquippableItems_correct:
  assumes "list_all wf_item is" and "length is < 2 ^ 32" and "length count1 = 4"
    and "concat (map item_bytes is) @ rest \<noteq> []"
  shows "ExtractEquippableItems ([OpGSItemList, 2] @ count1 @ le32_bytes (of_nat (length is)) @
      concat (map item_bytes is) @ rest) =
    Inr (map item_obj (filter (\<lambda>i. item_type2 i \<le> 2) is))"
proof -
  define data where "data = [OpGSItemList, 2] @ count1 @ le32_bytes (of_nat (length is)) @
      concat (map item_bytes is) @ rest"
  have n: "unat (of_nat (length is) :: u32) = length is"
    unfolding unsigned_of_nat take_bit_eq_mod using assms(2) by simp
  have cnt: "rdU32 data 6 = Inr (of_nat (length is))"
    using u32_at_append [of "[OpGSItemList, 2] @ count1" 6 "of_nat (length is)"] assms(3)
    by (simp add: data_def)
  have l10: "length ([OpGSItemList, 2] @ count1 @ le32_bytes (of_nat (length is))) = 10"
    using assms(3) by simp
  have loop: "extract_loop (length is) data 10 =
      Inr (map item_obj (filter (\<lambda>i. item_type2 i \<le> 2) is))"
    using extract_loop_items [OF assms(1), of "[OpGSItemList, 2] @ count1 @ le32_bytes (of_nat (length is))" rest]
    unfolding l10 by (simp add: data_def)
  define body where "body = concat (map item_bytes is) @ rest"
  have "0 < length body" using assms(4) by (simp only: body_def length_greater_0_conv) simp
  then have "\<not> length data < 11"
    using assms(3) unfolding data_def body_def [symmetric] by simp
  moreover have "idx data 0 = Inr OpGSItemList" and "idx data 1 = Inr 2"
    by (simp_all add: data_def idx_def)
  ultimately show ?thesis
    unfolding data_def [symmetric] using cnt n loop by (simp add: ExtractEquippableItems_def)
qed

definition sample_item :: item_rec where
  "sample_item = \<lparr>item_flags = 17, item_obj = 99, item_mid = replicate 13 0, item_type2 = 1,
     item_tail = replicate 24 0, item_extra = replicate 8 0, item_reg = [5], item_spec = []\<rparr>"

theorem ExtractEquippableItems_correct_witness:
  "ExtractEquippableItems ([OpGSItemList, 2] @ [0, 0, 0, 0] @ le32_bytes 2 @
     item_bytes sample_item @ item_bytes (sample_item\<lparr>item_type2 := 5\<rparr>) @ []) = Inr [99]"
proof -
  have "wf_item sample_item \<and> wf_item (sample_item\<lparr>item_type2 := 5\<rparr>)"
    by (simp add: wf_item_def sample_item_def mask_size_def)
  then show ?thesis
    using ExtractEquippableItems_correct [of "[sample_item, sample_item\<lparr>item_type2 := 5\<rparr>]"
        "[0, 0, 0, 0]" "[]"]
    by (simp add: sample_item_def item_bytes_def)
qed

text \<open>
  A status update on the wire is a list of attribute/value pairs; \<open>last_value\<close> is the one a reader
  that overwrites keeps.
\<close>

definition attr_bytes :: "byte \<times> i32 \<Rightarrow> byte list" where
  "attr_bytes = (\<lambda>(a, v). [a] @ le32_bytes v)"

definition last_value :: "byte \<Rightarrow> (byte \<times> i32) list \<Rightarrow> i32 option" where
  "last_value a as = map_of (rev as) a"

definition keep_last :: "i32 \<Rightarrow> i32 option \<Rightarrow> i32" where
  "keep_last v o' = (case o' of None \<Rightarrow> v | Some w \<Rightarrow> w)"

lemma status_loop_attrs:
  "status_loop (length as) (pre @ concat (map attr_bytes as) @ post) (length pre) (mp, maxMp, ok) =
     Inr (keep_last mp (last_value 0x0B as), keep_last maxMp (last_value 0x0C as),
       ok \<or> last_value 0x0B as \<noteq> None)"
proof (induction as arbitrary: pre mp maxMp ok)
  case Nil
  show ?case by (simp add: last_value_def keep_last_def)
next
  case (Cons av as)
  obtain a v where av: "av = (a, v)" by (cases av)
  define data where "data = pre @ attr_bytes (a, v) @ concat (map attr_bytes as) @ post"
  have r1: "idx data (length pre) = Inr a" by (simp add: data_def attr_bytes_def idx_def)
  have r2: "rdU32 data (length pre + 1) = Inr v"
    using u32_at_append [of "pre @ [a]" "length pre + 1" v]
    by (simp add: data_def attr_bytes_def)
  have len: "\<not> length data < length pre + 5" by (simp add: data_def attr_bytes_def)
  have IH: "status_loop (length as) data (length pre + 5) (m1, m2, k) =
      Inr (keep_last m1 (last_value 0x0B as), keep_last m2 (last_value 0x0C as),
        k \<or> last_value 0x0B as \<noteq> None)" for m1 m2 k
    using Cons.IH [of "pre @ attr_bytes (a, v)" m1 m2 k] by (simp add: data_def attr_bytes_def)
  have lv: "last_value b (av # as) = (case last_value b as of None \<Rightarrow> (if b = a then Some v else None)
      | Some w \<Rightarrow> Some w)" for b
    by (auto simp: last_value_def av map_add_def split: option.splits)
  have "status_loop (Suc (length as)) data (length pre) (mp, maxMp, ok) =
      Inr (keep_last mp (last_value 0x0B (av # as)), keep_last maxMp (last_value 0x0C (av # as)),
        ok \<or> last_value 0x0B (av # as) \<noteq> None)"
    unfolding status_loop.simps r1 r2 using len
    by (auto simp: IH lv keep_last_def split: option.splits)
  then show ?case by (simp add: data_def av)
qed

text \<open>
  From a status update about its own object the client reads the last current-MP value and the
  last maximum-MP value of the packet, and reports success exactly when a current-MP value was
  there; an update about another object is ignored.
\<close>

theorem ParseSelfMp_correct:
  assumes "length as < 256" and "length hdr = 5"
    and "data = [OpGSStatusUpdate] @ le32_bytes obj @ hdr @ [of_nat (length as)] @
      concat (map attr_bytes as) @ rest"
  shows "ParseSelfMp data self =
    (if self \<noteq> obj then Inr (0, 0, False)
     else Inr (keep_last 0 (last_value 0x0B as), keep_last 0 (last_value 0x0C as),
       last_value 0x0B as \<noteq> None))"
proof -
  have obj: "rdU32 data 1 = Inr obj"
    using u32_at_append [of "[OpGSStatusUpdate]" 1 obj] by (simp add: assms(3))
  have cnt: "idx data 10 = Inr (of_nat (length as))"
    using assms(2) by (simp add: assms(3) idx_def nth_append)
  have l11: "length ([OpGSStatusUpdate] @ le32_bytes obj @ hdr @ [of_nat (length as)]) = 11"
    using assms(2) by simp
  have loop: "status_loop (length as) data 11 (0, 0, False) =
      Inr (keep_last 0 (last_value 0x0B as), keep_last 0 (last_value 0x0C as),
        last_value 0x0B as \<noteq> None)"
    using status_loop_attrs [of as "[OpGSStatusUpdate] @ le32_bytes obj @ hdr @ [of_nat (length as)]" rest]
    unfolding l11 by (simp add: assms(3))
  have n: "unat (of_nat (length as) :: byte) = length as"
    using assms(1) by (rule unat_byte_of_nat)
  have l: "\<not> length data < 11" using assms(2) by (simp add: assms(3))
  have op: "idx data 0 = Inr OpGSStatusUpdate" by (simp add: assms(3) idx_def)
  show ?thesis
    using obj cnt loop n l op by (simp add: ParseSelfMp_def)
qed

theorem ParseSelfMp_correct_witness:
  "ParseSelfMp ([OpGSStatusUpdate] @ le32_bytes 77 @ replicate 5 0 @ [of_nat 3] @
     concat (map attr_bytes [(0x0B, 50), (0x0C, 90), (0x0B, 40)]) @ []) 77 = Inr (40, 90, True)"
proof -
  have "last_value 0x0B [(0x0B, 50), (0x0C, 90), (0x0B, 40)] = Some 40"
    and "last_value 0x0C [(0x0B, 50), (0x0C, 90), (0x0B, 40)] = Some 90"
    by (simp_all add: last_value_def)
  then show ?thesis
    using ParseSelfMp_correct [of "[(0x0B, 50), (0x0C, 90), (0x0B, 40)]" "replicate 5 0" _ 77 "[]" 77,
        OF _ _ refl]
    by (simp add: keep_last_def)
qed

end
