(* ===== verification/ClientState.thy ===== *)
theory ClientState
  imports Packet GameCrypt ServerCrypt LoginProtocol GameDecode
begin

text \<open>
  The \<open>Client\<close> struct of \<open>internal/client/client.go\<close> and the method calls on what it points to.
  A field \<open>f\<close> of the struct is \<open>c_f\<close> here; a pointer that may be nil is an option, and calling a
  method through a nil one panics (\<open>via\<close>). A \<open>Reader\<close> or \<open>Writer\<close> keeps the connection it was
  made with: \<open>ls_sock\<close> and \<open>gs_sock\<close> are those connections, while \<open>c_conn\<close> and \<open>c_gsConn\<close> only say
  whether the client still holds them. The logger is left out: it reads nothing the client
  writes and the client never looks at it, so it has no effect on the state modelled here.
\<close>

datatype State = StateDisconnected | StateConnected | StateInitialized | StateGGAuth | StateLoggedIn
  | StateGSConnected | StateGSHandshake | StateGSLoggedIn

text \<open>The constants are numbered by \<open>iota\<close>; that order makes \<open>State\<close> a linear order.\<close>

primrec state_number :: "State \<Rightarrow> nat" where
  "state_number StateDisconnected = 0"
| "state_number StateConnected = 1"
| "state_number StateInitialized = 2"
| "state_number StateGGAuth = 3"
| "state_number StateLoggedIn = 4"
| "state_number StateGSConnected = 5"
| "state_number StateGSHandshake = 6"
| "state_number StateGSLoggedIn = 7"

instantiation State :: linorder
begin

definition less_eq_State :: "State \<Rightarrow> State \<Rightarrow> bool" where
  "S \<le> S' \<longleftrightarrow> state_number S \<le> state_number S'"

definition less_State :: "State \<Rightarrow> State \<Rightarrow> bool" where
  "S < S' \<longleftrightarrow> state_number S < state_number S'"

instance
proof
  fix S S' :: State
  assume "S \<le> S'" and "S' \<le> S"
  then show "S = S'" by (cases S; cases S') (simp_all add: less_eq_State_def)
qed (auto simp: less_eq_State_def less_State_def)

end

record 'k Client =
  c_conn :: bool
  c_gsConn :: bool
  ls_sock :: Conn
  gs_sock :: Conn
  c_reader :: "Reader option"
  c_gsReader :: "Reader option"
  c_gsWriter :: "Writer option"
  c_crypt :: "'k Crypt option"
  c_writer :: "Writer option"
  c_rsa :: "RSA option"
  c_attackChan :: nat
  c_inventory :: "u32 list option"
  c_skillReady :: "u32 \<Rightarrow> int option"
  c_addr :: string
  c_password :: string
  c_account :: string
  c_npcs :: "u32 list"
  c_Servers :: "GameServer list"
  c_staticKey :: "byte list"
  c_npcsNext :: nat
  c_State :: State
  c_playKey2 :: u32
  c_loginKey2 :: u32
  c_playKey1 :: u32
  c_sessionID :: u32
  c_objectID :: u32
  c_classID :: u32
  c_loginKey1 :: u32
  c_x :: i32
  c_y :: i32
  c_z :: i32
  c_mp :: i32
  c_maxMp :: i32
  c_pendingAppear :: bool
  c_converged :: bool
  c_dead :: bool
  c_gsCrypt :: GameCrypt

text \<open>A socket that was never dialled; no reader or writer refers to it.\<close>

definition no_conn :: Conn where
  "no_conn = \<lparr>rx = [], rx_end = ''EOF'', tx = [], writes_left = 0, closed = True\<rparr>"

definition NewClient :: "string \<Rightarrow> string \<Rightarrow> string \<Rightarrow> byte list \<Rightarrow> 'k Client" where
  "NewClient addr account password staticKey =
     \<lparr>c_conn = False, c_gsConn = False, ls_sock = no_conn, gs_sock = no_conn,
      c_reader = None, c_gsReader = None, c_gsWriter = None, c_crypt = None, c_writer = None,
      c_rsa = None, c_attackChan = 0, c_inventory = None, c_skillReady = (\<lambda>_. None),
      c_addr = addr, c_password = password, c_account = account, c_npcs = [], c_Servers = [],
      c_staticKey = staticKey, c_npcsNext = 0, c_State = StateDisconnected, c_playKey2 = 0,
      c_loginKey2 = 0, c_playKey1 = 0, c_sessionID = 0, c_objectID = 0, c_classID = 0,
      c_loginKey1 = 0, c_x = 0, c_y = 0, c_z = 0, c_mp = 0, c_maxMp = 0,
      c_pendingAppear = False, c_converged = False, c_dead = False, c_gsCrypt = GameCrypt_zero\<rparr>"

section \<open>Calls through a pointer\<close>

definition via :: "('s \<Rightarrow> 'p option) \<Rightarrow> ('p \<Rightarrow> 's \<Rightarrow> 's) \<Rightarrow> ('p, 'a) go \<Rightarrow> ('s, 'a) go" where
  "via get put m = (\<lambda>s. case get s of
     None \<Rightarrow> (Inl Panic, s)
   | Some p \<Rightarrow> (case m p of (r, p') \<Rightarrow> (r, put p' s)))"

definition ls_read :: "('k Client, byte list) go" where
  "ls_read = via (\<lambda>c. map_option (\<lambda>r. (r, ls_sock c)) (c_reader c))
     (\<lambda>(r, s) c. c\<lparr>c_reader := Some r, ls_sock := s\<rparr>) Reader_Read"

definition ls_send :: "nat \<Rightarrow> ('k Client, unit) go" where
  "ls_send n = via (\<lambda>c. map_option (\<lambda>w. (w, ls_sock c)) (c_writer c))
     (\<lambda>(w, s) c. c\<lparr>c_writer := Some w, ls_sock := s\<rparr>) (Writer_Send n)"

definition gs_read :: "('k Client, byte list) go" where
  "gs_read = via (\<lambda>c. map_option (\<lambda>r. (r, gs_sock c)) (c_gsReader c))
     (\<lambda>(r, s) c. c\<lparr>c_gsReader := Some r, gs_sock := s\<rparr>) Reader_Read"

definition gs_send :: "nat \<Rightarrow> ('k Client, unit) go" where
  "gs_send n = via (\<lambda>c. map_option (\<lambda>w. (w, gs_sock c)) (c_gsWriter c))
     (\<lambda>(w, s) c. c\<lparr>c_gsWriter := Some w, gs_sock := s\<rparr>) (Writer_Send n)"

text \<open>
  \<open>payload := c.writer.Prepare(n)\<close> and what is then done to \<open>payload\<close>: the slice is part of the
  writer's buffer, so the changes stay there. A received packet is part of the reader's buffer,
  but no byte of it is read again before the next \<open>Read\<close> overwrites it, so decrypting one in
  place is the decrypted list here.
\<close>

definition on_payload :: "nat \<Rightarrow> (gslice, 'a) go \<Rightarrow> (Writer, 'a) go" where
  "on_payload n e = (\<lambda>w. case e (Writer_Prepare n w) of (r, s) \<Rightarrow> (r, keep_payload s w))"

definition ls_payload :: "nat \<Rightarrow> (gslice, 'a) go \<Rightarrow> ('k Client, 'a) go" where
  "ls_payload n e = via c_writer (\<lambda>w c. c\<lparr>c_writer := Some w\<rparr>) (on_payload n e)"

definition gs_payload :: "nat \<Rightarrow> (gslice, 'a) go \<Rightarrow> ('k Client, 'a) go" where
  "gs_payload n e = via c_gsWriter (\<lambda>w c. c\<lparr>c_gsWriter := Some w\<rparr>) (on_payload n e)"

section \<open>The buffers stay whole\<close>

definition wf_client :: "'k Client \<Rightarrow> bool" where
  "wf_client c \<longleftrightarrow>
     pred_option wf_reader (c_reader c) \<and> pred_option wf_writer (c_writer c) \<and>
     pred_option wf_reader (c_gsReader c) \<and> pred_option wf_writer (c_gsWriter c) \<and>
     wf_crypt (c_gsCrypt c)"

lemma wf_NewClient [simp]: "wf_client (NewClient addr account password key)"
  by (simp add: wf_client_def NewClient_def wf_crypt_preserved)

lemma via_None: "get s = None \<Longrightarrow> via get put m s = (Inl Panic, s)"
  by (simp add: via_def)

lemma via_Some: "get s = Some p \<Longrightarrow> m p = (r, p') \<Longrightarrow> via get put m s = (r, put p' s)"
  by (simp add: via_def)

lemma wf_prepared [simp]:
  assumes "wf_writer w" and "n + 2 \<le> 65535"
  shows "Writer_Prepare n w = \<lparr>mem = drop 2 (wbuf w), slen = n\<rparr>"
    and "wf_slice \<lparr>mem = drop 2 (wbuf w), slen = n\<rparr>"
  using assms
  by (simp_all add: Writer_Prepare_def HeaderSize_def MaxPacketSize_def wf_slice_def wf_writer_def)

lemma keep_payload_drop:
  assumes "wf_writer w" and "length (mem s) = 65533"
  shows "drop 2 (wbuf (keep_payload s w)) = mem s" and "wf_writer (keep_payload s w)"
  using assms
  by (simp_all add: keep_payload_def HeaderSize_def MaxPacketSize_def wf_writer_def write_at_def)

lemma preserves_via:
  "(\<And>s p r p'. P s \<Longrightarrow> get s = Some p \<Longrightarrow> m p = (r, p') \<Longrightarrow> P (put p' s)) \<Longrightarrow>
     preserves P (via get put m)"
  by (auto simp: preserves_def keeps_def via_def split: option.splits prod.splits)

lemma Writer_Send_wf: "Writer_Send n (w, k) = (r, (w', k')) \<Longrightarrow> wf_writer w \<Longrightarrow> wf_writer w'"
  by (auto simp: Writer_Send_def wf_writer_def MaxPacketSize_def Let_def split: if_splits prod.splits)

lemma on_payload_wf:
  assumes "on_payload n e w = (r, w')" and "wf_writer w" and "same_size e"
  shows "wf_writer w'"
proof -
  let ?s = "Writer_Prepare n w"
  obtain t where e: "e ?s = (r, t)" and w': "w' = keep_payload t w"
    using assms(1) by (auto simp: on_payload_def split: prod.splits)
  have wf: "wf_slice ?s" and len: "length (mem ?s) = 0 \<or> length (mem ?s) = 65533"
    using assms(2)
    by (auto simp: Writer_Prepare_def HeaderSize_def MaxPacketSize_def wf_slice_def wf_writer_def
        nil_slice_def Let_def)
  from same_sizeD [OF assms(3) e wf] len have "length (mem t) = 0 \<or> length (mem t) = 65533" by simp
  then show ?thesis
    using assms(2) by (auto simp: w' keep_payload_def wf_writer_def MaxPacketSize_def HeaderSize_def)
qed

lemma wf_client_socket_ops [preserve_rules]:
  "preserves wf_client ls_read" "preserves wf_client (ls_send n)"
  "preserves wf_client gs_read" "preserves wf_client (gs_send n)"
proof -
  show "preserves wf_client ls_read" "preserves wf_client gs_read"
    unfolding ls_read_def gs_read_def
    by (rule preserves_via, clarsimp simp: wf_client_def, drule Reader_Read_outcome, simp, simp)+
  show "preserves wf_client (ls_send n)" "preserves wf_client (gs_send n)"
    unfolding ls_send_def gs_send_def
    by (rule preserves_via, clarsimp simp: wf_client_def Writer_Send_wf)+
qed

lemma wf_client_payload [preserve_rules]:
  assumes "same_size e"
  shows "preserves wf_client (ls_payload n e)" and "preserves wf_client (gs_payload n e)"
  unfolding ls_payload_def gs_payload_def
  by (rule preserves_via, use on_payload_wf [OF _ _ assms] in \<open>auto simp: wf_client_def\<close>)+

section \<open>What the calls do when they succeed\<close>

lemma ls_read_Inr:
  assumes "ls_read c = (Inr data, c')"
  obtains r r' s' where "c_reader c = Some r"
    and "Reader_Read (r, ls_sock c) = (Inr data, (r', s'))"
    and "c' = c\<lparr>c_reader := Some r', ls_sock := s'\<rparr>"
  using assms by (auto simp: ls_read_def via_def split: option.splits prod.splits)

lemma gs_read_Inr:
  assumes "gs_read c = (Inr data, c')"
  obtains r r' s' where "c_gsReader c = Some r"
    and "Reader_Read (r, gs_sock c) = (Inr data, (r', s'))"
    and "c' = c\<lparr>c_gsReader := Some r', gs_sock := s'\<rparr>"
  using assms by (auto simp: gs_read_def via_def split: option.splits prod.splits)

end
