(* ===== verification/LoginClient.thy ===== *)
theory LoginClient
  imports ClientState
begin

text \<open>
  The login server half of \<open>internal/client/client.go\<close>: from \<open>Connect\<close> to \<open>ConnectToGameServer\<close>.
  Every handler is a \<open>go\<close> computation on the whole client: the guard on \<open>State\<close>, the request
  written into the send buffer, encrypted there and sent, the response read and decrypted, the
  opcode dispatch and the fields it stores. \<open>dial\<close> stands for the dialer (an address is refused
  or gives a connection) and \<open>L\<close> for the Blowfish library.
\<close>

definition Connect :: "(string \<Rightarrow> string + Conn) \<Rightarrow> ('k Client, unit) go" where
  "Connect dial = andThen getS (\<lambda>c. case dial (c_addr c) of
     Inl err \<Rightarrow> throw (Error err)
   | Inr conn \<Rightarrow> modifyS (\<lambda>c. c\<lparr>c_conn := True, ls_sock := conn, c_reader := Some NewReader,
       c_writer := Some NewWriter, c_State := StateConnected\<rparr>))"

section \<open>The request and the response of a handler\<close>

text \<open>
  \<open>c.crypt.Encrypt(payload[:n])\<close> on the slice \<open>payload\<close> that \<open>Prepare(k)\<close> gave. The result is the
  length of the encrypted packet; when \<open>Encrypt\<close> had to reallocate, the buffer does not hold it.
\<close>

definition ls_encrypt :: "'k cipher_lib \<Rightarrow> nat \<Rightarrow> nat \<Rightarrow> ('k Client, nat) go" where
  "ls_encrypt L k n = andThen getS (\<lambda>c. case c_writer c of
     None \<Rightarrow> throw Panic
   | Some w \<Rightarrow>
       (let payload = (Writer_Prepare k w)\<lparr>slen := n\<rparr> in
        if n > length (mem payload) then throw Panic
        else andThen (via c_crypt (\<lambda>k c. c\<lparr>c_crypt := Some k\<rparr>) (Crypt_Encrypt L payload))
          (\<lambda>(encrypted, in_place).
           andThen (if in_place then modifyS (\<lambda>c. c\<lparr>c_writer := Some (keep_payload encrypted w)\<rparr>)
                    else ret ())
             (\<lambda>_. ret (slen encrypted)))))"

definition ls_decrypt :: "'k cipher_lib \<Rightarrow> string \<Rightarrow> byte list \<Rightarrow> ('k Client, byte list) go" where
  "ls_decrypt L msg data = andThen getS (\<lambda>c. case c_crypt c of
     None \<Rightarrow> throw Panic
   | Some k \<Rightarrow> (case Crypt_Decrypt L data k of
       (ok, data') \<Rightarrow> if \<not> ok then throw (Error msg) else ret data'))"

text \<open>Prepare, encode, encrypt, send; then read and decrypt: what the four handlers share.\<close>

definition ls_request :: "'k cipher_lib \<Rightarrow> nat \<Rightarrow> nat \<Rightarrow> (gslice, unit) go \<Rightarrow> ('k Client, unit) go" where
  "ls_request L k n e =
     andThen (ls_payload k e) (\<lambda>_.
     andThen (ls_encrypt L k n) (\<lambda>len.
     ls_send len))"

definition ls_response :: "'k cipher_lib \<Rightarrow> string \<Rightarrow> ('k Client, byte list) go" where
  "ls_response L msg = andThen ls_read (\<lambda>data. ls_decrypt L msg data)"

section \<open>The handlers\<close>

text \<open>\<open>HandleInit\<close> once the packet is read: decrypt, decode, store, switch to the dynamic key.\<close>

definition init_rest :: "'k cipher_lib \<Rightarrow> byte list \<Rightarrow> ('k Client, unit) go" where
  "init_rest L data =
     andThen (modifyS (\<lambda>c. c\<lparr>c_crypt := Some (NewCrypt L (c_staticKey c))\<rparr>)) (\<lambda>_.
     andThen getS (\<lambda>c.
     andThen (case c_crypt c of None \<Rightarrow> throw Panic | Some k \<Rightarrow> liftR (Crypt_DecryptInit L data k)) (\<lambda>data.
     andThen (liftR (DecodeInit data)) (\<lambda>init.
     andThen (modifyS (\<lambda>c. c\<lparr>c_sessionID := SessionID init,
       c_rsa := Some (NewRSA (RSAModulus init))\<rparr>)) (\<lambda>_.
     andThen (if length (BlowfishKey init) > 0
              then via c_crypt (\<lambda>k c. c\<lparr>c_crypt := Some k\<rparr>) (modifyS (Crypt_UpdateKey L (BlowfishKey init)))
              else ret ()) (\<lambda>_.
     modifyS (\<lambda>c. c\<lparr>c_State := StateInitialized\<rparr>)))))))"

definition HandleInit :: "'k cipher_lib \<Rightarrow> ('k Client, unit) go" where
  "HandleInit L = andThen getS (\<lambda>c.
     if c_State c \<noteq> StateConnected then throw (Error ''invalid state for init'')
     else andThen ls_read (\<lambda>data. init_rest L data))"

definition SendAuthGG :: "'k cipher_lib \<Rightarrow> ('k Client, unit) go" where
  "SendAuthGG L = andThen getS (\<lambda>c.
     if c_State c \<noteq> StateInitialized then throw (Error ''invalid state for AuthGG'')
     else
       andThen (ls_request L 25 25 (EncodeAuthGGRequestTo (c_sessionID c))) (\<lambda>_.
       andThen (ls_response L ''failed to decrypt AuthGG response'') (\<lambda>data.
       andThen (liftR (idx data 0)) (\<lambda>opcode.
       if opcode \<noteq> OpGGAuthResponse then throw (Error ''unexpected AuthGG response opcode'')
       else modifyS (\<lambda>c. c\<lparr>c_State := StateGGAuth\<rparr>)))))"

text \<open>\<open>copy(buf, payload)\<close>\<close>

definition copy_into :: "byte list \<Rightarrow> (gslice, unit) go" where
  "copy_into bs = (\<lambda>s. (Inr (), s\<lparr>mem := copy_at 0 bs (visible s) @ drop (slen s) (mem s)\<rparr>))"

definition cryptoOverhead :: nat where
  "cryptoOverhead = 16"

definition Login :: "'k cipher_lib \<Rightarrow> ('k Client, unit) go" where
  "Login L = andThen getS (\<lambda>c.
     if c_State c \<noteq> StateGGAuth \<and> c_State c \<noteq> StateInitialized
     then throw (Error ''invalid state for login'')
     else
       let req = \<lparr>reqAccount = c_account c, reqPassword = c_password c,
                  reqSessionID = c_sessionID c\<rparr> in
       andThen (case c_rsa c of None \<Rightarrow> throw Panic | Some rsa \<Rightarrow> liftR (EncodeLoginRequest req rsa)) (\<lambda>payload.
       andThen (ls_request L (length payload + cryptoOverhead) (length payload) (copy_into payload)) (\<lambda>_.
       andThen (ls_response L ''failed to decrypt login response'') (\<lambda>data.
       andThen (liftR (idx data 0)) (\<lambda>opcode.
       if opcode = OpLoginSuccess then
         andThen (liftR (DecodeLoginOk data)) (\<lambda>ok.
         modifyS (\<lambda>c. c\<lparr>c_loginKey1 := LoginKey1 ok, c_loginKey2 := LoginKey2 ok,
           c_State := StateLoggedIn\<rparr>))
       else if opcode = OpLoginFail then
         andThen (liftR (GetLoginFailReason data)) (\<lambda>reason. throw (Error reason))
       else throw (Error ''unexpected login response opcode''))))))"

definition FetchServerList :: "'k cipher_lib \<Rightarrow> ('k Client, unit) go" where
  "FetchServerList L = andThen getS (\<lambda>c.
     if c_State c \<noteq> StateLoggedIn then throw (Error ''must be logged in to fetch server list'')
     else
       andThen (ls_request L 9 9 (EncodeRequestServerListTo (c_loginKey1 c) (c_loginKey2 c))) (\<lambda>_.
       andThen (ls_response L ''failed to decrypt server list'') (\<lambda>data.
       andThen (liftR (idx data 0)) (\<lambda>opcode.
       if opcode \<noteq> OpServerList then throw (Error ''unexpected server list opcode'')
       else andThen (liftR (DecodeServerList data)) (\<lambda>sl.
         modifyS (\<lambda>c. c\<lparr>c_Servers := Servers sl\<rparr>))))))"

definition SelectServer :: "'k cipher_lib \<Rightarrow> byte \<Rightarrow> ('k Client, unit) go" where
  "SelectServer L serverID = andThen getS (\<lambda>c.
     if c_State c \<noteq> StateLoggedIn then throw (Error ''must be logged in to select server'')
     else
       andThen (ls_request L 10 10 (EncodeRequestServerLoginTo (c_loginKey1 c) (c_loginKey2 c) serverID)) (\<lambda>_.
       andThen (ls_response L ''failed to decrypt play response'') (\<lambda>data.
       andThen (liftR (idx data 0)) (\<lambda>opcode.
       if opcode = OpPlaySuccess then
         andThen (liftR (DecodePlayOk data)) (\<lambda>ok.
         modifyS (\<lambda>c. c\<lparr>c_playKey1 := PlayKey1 ok, c_playKey2 := PlayKey2 ok\<rparr>))
       else if opcode = OpPlayFail then throw (Error ''server selection failed'')
       else throw (Error ''unexpected play response opcode'')))))"

section \<open>ConnectToGameServer\<close>

text \<open>
  The address is formatted by hand in a 32-byte array with a moving position:
  \<open>copy(buf[pos:], s); pos += len(s)\<close> and \<open>buf[pos] = b; pos++\<close>.
\<close>

definition fmt_copy :: "string \<Rightarrow> (byte list \<times> nat, unit) go" where
  "fmt_copy s = (\<lambda>(buf, pos). if pos > length buf then (Inl Panic, (buf, pos))
     else (Inr (), (copy_at pos (bytes_of s) buf, pos + length s)))"

definition fmt_char :: "char \<Rightarrow> (byte list \<times> nat, unit) go" where
  "fmt_char b = (\<lambda>(buf, pos). if pos < length buf
     then (Inr (), (buf[pos := byte_of_char b], pos + 1)) else (Inl Panic, (buf, pos)))"

fun fmt_ip :: "nat \<Rightarrow> byte list \<Rightarrow> (byte list \<times> nat, unit) go" where
  "fmt_ip i [] = ret ()"
| "fmt_ip i (b # ip) =
     andThen (fmt_copy (itoa (int (unat b)))) (\<lambda>_.
     andThen (if i < 3 then fmt_char (CHR ''.'') else ret ()) (\<lambda>_.
     fmt_ip (Suc i) ip))"

definition format_addr :: "byte list \<Rightarrow> u16 \<Rightarrow> string res" where
  "format_addr ip port =
     (case andThen (fmt_ip 0 ip) (\<lambda>_. andThen (fmt_char (CHR '':'')) (\<lambda>_.
           fmt_copy (itoa (int (unat port))))) (replicate 32 0, 0) of
        (Inl e, _) \<Rightarrow> Inl e
      | (Inr _, (buf, pos)) \<Rightarrow> rbind (rdSub buf 0 pos) (\<lambda>bs. Inr (string_of bs)))"

text \<open>\<open>ip\<close> is an array of four bytes.\<close>

definition ConnectToGameServer ::
  "(string \<Rightarrow> string + Conn) \<Rightarrow> byte list \<Rightarrow> u16 \<Rightarrow> ('k Client, unit) go" where
  "ConnectToGameServer dial ip port =
     andThen (liftR (format_addr ip port)) (\<lambda>addr. case dial addr of
       Inl err \<Rightarrow> throw (Error err)
     | Inr conn \<Rightarrow>
         andThen (modifyS (\<lambda>c. c\<lparr>c_gsConn := True, gs_sock := conn, c_gsReader := Some NewReader,
           c_gsWriter := Some NewWriter, c_State := StateGSConnected\<rparr>)) (\<lambda>_.
         modifyS (\<lambda>c. if c_conn c then c\<lparr>c_conn := False, ls_sock := conn_close (ls_sock c)\<rparr> else c)))"

section \<open>The invariant of the client\<close>

text \<open>
  From \<open>StateConnected\<close> on, the login reader and writer exist; from \<open>StateInitialized\<close> on, the
  cipher and the key too; in the game server states, the game reader and writer, and from the
  handshake on an initialised cipher. The buffers always have their full size.
\<close>

definition in_login :: "State \<Rightarrow> bool" where
  "in_login S \<longleftrightarrow> S = StateConnected \<or> S = StateInitialized \<or> S = StateGGAuth \<or> S = StateLoggedIn"

definition in_game :: "State \<Rightarrow> bool" where
  "in_game S \<longleftrightarrow> S = StateGSConnected \<or> S = StateGSHandshake \<or> S = StateGSLoggedIn"

definition client_inv :: "'k Client \<Rightarrow> bool" where
  "client_inv c \<longleftrightarrow> wf_client c \<and>
     (in_login (c_State c) \<longrightarrow> c_reader c \<noteq> None \<and> c_writer c \<noteq> None) \<and>
     (in_login (c_State c) \<and> c_State c \<noteq> StateConnected \<longrightarrow> c_crypt c \<noteq> None \<and> c_rsa c \<noteq> None) \<and>
     (in_game (c_State c) \<longrightarrow> c_gsReader c \<noteq> None \<and> c_gsWriter c \<noteq> None) \<and>
     (c_State c = StateGSHandshake \<or> c_State c = StateGSLoggedIn \<longrightarrow> initd (c_gsCrypt c))"

definition inv_in :: "State \<Rightarrow> 'k Client \<Rightarrow> bool" where
  "inv_in S c \<longleftrightarrow> client_inv c \<and> c_State c = S"

lemma inv_in_set [simp]:
  "inv_in S c \<Longrightarrow> wf_reader r \<Longrightarrow> inv_in S (c\<lparr>c_reader := Some r, ls_sock := k\<rparr>)"
  "inv_in S c \<Longrightarrow> wf_writer w \<Longrightarrow> inv_in S (c\<lparr>c_writer := Some w, ls_sock := k\<rparr>)"
  "inv_in S c \<Longrightarrow> wf_writer w \<Longrightarrow> inv_in S (c\<lparr>c_writer := Some w\<rparr>)"
  "inv_in S c \<Longrightarrow> inv_in S (c\<lparr>c_crypt := Some x\<rparr>)"
  by (simp_all add: inv_in_def client_inv_def wf_client_def)

lemma inv_in_login:
  assumes "inv_in S c" and "in_login S"
  obtains r w where "c_reader c = Some r" and "wf_reader r" and "c_writer c = Some w" and "wf_writer w"
  using assms unfolding inv_in_def client_inv_def wf_client_def
  by (cases "c_reader c"; cases "c_writer c") simp_all

lemma inv_in_keyed:
  assumes "inv_in S c" and "in_login S" and "S \<noteq> StateConnected"
  obtains k rsa where "c_crypt c = Some k" and "c_rsa c = Some rsa"
  using assms unfolding inv_in_def client_inv_def
  by (cases "c_crypt c"; cases "c_rsa c") simp_all

lemma runs_ls_read [runs_rules]:
  assumes "in_login S"
  shows "runs (inv_in S) (\<lambda>data. length data \<le> 65533) (inv_in S) ls_read"
proof -
  have "(case res of Inr data \<Rightarrow> length data \<le> 65533 | Inl e \<Rightarrow> e \<noteq> Panic) \<and> inv_in S t"
    if c: "inv_in S c" and m: "ls_read c = (res, t)" for c res t
  proof -
    from inv_in_login [OF c assms] obtain r where r: "c_reader c = Some r" "wf_reader r" by blast
    obtain res' r' s' where o: "Reader_Read (r, ls_sock c) = (res', (r', s'))" by (metis prod.exhaust)
    have "ls_read c = (res', c\<lparr>c_reader := Some r', ls_sock := s'\<rparr>)"
      using r(1) o by (simp add: ls_read_def via_def)
    then have eq: "res = res'" "t = c\<lparr>c_reader := Some r', ls_sock := s'\<rparr>" using m by simp_all
    note out = Reader_Read_outcome [OF o r(2)]
    then have "inv_in S t" using c eq by simp
    with out eq show ?thesis by (cases res') auto
  qed
  then show ?thesis by (intro runsI) fastforce+
qed

lemma Writer_Send_no_panic:
  assumes "wf_writer w" and "n + 2 \<le> 65535" and "Writer_Send n (w, k) = (r, (w', k'))"
  shows "r \<noteq> Inl Panic"
  using assms
  by (auto simp: Writer_Send_def wf_writer_def MaxPacketSize_def HeaderSize_def Let_def conn_write_def
      split: if_splits prod.splits nat.splits)

lemma runs_ls_send [runs_rules]:
  assumes "in_login S" and "n + 2 \<le> 65535"
  shows "runs (inv_in S) (\<lambda>_. True) (inv_in S) (ls_send n)"
proof -
  have "r \<noteq> Inl Panic \<and> inv_in S t" if c: "inv_in S c" and m: "ls_send n c = (r, t)" for c r t
  proof -
    from inv_in_login [OF c assms(1)] obtain w where w: "c_writer c = Some w" "wf_writer w" by blast
    obtain res w' s' where o: "Writer_Send n (w, ls_sock c) = (res, (w', s'))" by (metis prod.exhaust)
    have "ls_send n c = (res, c\<lparr>c_writer := Some w', ls_sock := s'\<rparr>)"
      using w(1) o by (simp add: ls_send_def via_def)
    with m Writer_Send_no_panic [OF w(2) assms(2) o] Writer_Send_wf [OF o w(2)] c
    show ?thesis by auto
  qed
  then show ?thesis by (intro runsI) auto
qed

text \<open>\<open>e\<close> encodes into any buffer of \<open>k\<close> bytes without panicking.\<close>

definition fits :: "nat \<Rightarrow> (gslice, 'a) go \<Rightarrow> bool" where
  "fits k e \<longleftrightarrow> same_size e \<and> (\<forall>s. wf_slice s \<and> slen s = k \<longrightarrow> (\<exists>x t. e s = (Inr x, t)))"

lemma runs_ls_payload [runs_rules]:
  assumes "in_login S" and "fits k e" and "k + 2 \<le> 65535"
  shows "runs (inv_in S) (\<lambda>_. True) (inv_in S) (ls_payload k e)"
proof -
  have "(\<exists>x. r = Inr x) \<and> inv_in S t" if c: "inv_in S c" and m: "ls_payload k e c = (r, t)" for c r t
  proof -
    from inv_in_login [OF c assms(1)] obtain w where w: "c_writer c = Some w" "wf_writer w" by blast
    note prep = wf_prepared [OF w(2) assms(3)]
    obtain x s' where e: "e (Writer_Prepare k w) = (Inr x, s')"
      using assms(2) prep unfolding fits_def by (metis gslice.select_convs(2))
    then have op: "on_payload k e w = (Inr x, keep_payload s' w)" by (simp add: on_payload_def)
    have "wf_writer (keep_payload s' w)"
      using on_payload_wf [OF op w(2)] assms(2) by (simp add: fits_def)
    moreover have "ls_payload k e c = (Inr x, c\<lparr>c_writer := Some (keep_payload s' w)\<rparr>)"
      using w(1) op by (simp add: ls_payload_def via_def)
    ultimately show ?thesis using m c by auto
  qed
  then show ?thesis by (intro runsI) fastforce+
qed

lemma runs_ls_encrypt [runs_rules]:
  assumes "in_login S" and "S \<noteq> StateConnected" and "cipher_laws L" and "n \<le> k" and "k + 26 \<le> 65535"
  shows "runs (inv_in S) (\<lambda>m. m + 2 \<le> 65535) (inv_in S) (ls_encrypt L k n)"
proof -
  have "(\<exists>m. r = Inr m \<and> m + 2 \<le> 65535) \<and> inv_in S t"
    if c: "inv_in S c" and m: "ls_encrypt L k n c = (r, t)" for c r t
  proof -
    from inv_in_login [OF c assms(1)] obtain w where w: "c_writer c = Some w" "wf_writer w" by blast
    from inv_in_keyed [OF c assms(1,2)] obtain cr where cr: "c_crypt c = Some cr" by blast
    let ?data = "\<lparr>mem = drop 2 (wbuf w), slen = n\<rparr>"
    have prep: "(Writer_Prepare k w)\<lparr>slen := n\<rparr> = ?data"
      using wf_prepared(1) [OF w(2), of k] assms(5) by simp
    have len: "length (mem ?data) = 65533" using w(2) by (simp add: wf_writer_def MaxPacketSize_def)
    then have wf: "wf_slice ?data" using assms(4,5) by (simp add: wf_slice_def)
    let ?t = "total_len n (reserve_of cr)"
    have t: "?t \<le> 65533"
      using total_len_bounds(3) [of n "reserve_of cr"] assms(4,5) by (simp add: reserve_of_def split: if_splits)
    obtain out where out: "Crypt_Encrypt L ?data cr = (Inr (out, True), cr\<lparr>updatedKey := True\<rparr>)"
      and so: "slen out = ?t" and lo: "length (mem out) = 65533"
      using Crypt_Encrypt_ok [OF assms(3) wf, of cr] t len by auto
    have "wf_writer (keep_payload out w)"
      using w(2) lo by (simp add: keep_payload_def wf_writer_def HeaderSize_def MaxPacketSize_def)
    moreover have "ls_encrypt L k n c = (Inr ?t, c\<lparr>c_crypt := Some (cr\<lparr>updatedKey := True\<rparr>),
        c_writer := Some (keep_payload out w)\<rparr>)"
      using w(1) prep len assms(4,5) cr out so
      by (simp add: ls_encrypt_def via_def andThen_def Let_def)
    ultimately show ?thesis using m c t by auto
  qed
  then show ?thesis by (intro runsI) fastforce+
qed

lemma Crypt_Decrypt_nonempty:
  assumes "cipher_laws L" and "Crypt_Decrypt L data k = (True, data')"
  shows "data' \<noteq> [] \<and> length data' = length data"
proof -
  have m: "length data mod 8 = 0" and n: "0 < length data"
    and d: "data' = DecipherRange L (cipher k) data 0 (length data)"
    using assms(2) by (auto simp: Crypt_Decrypt_def split: if_splits)
  have "length data' = length data" unfolding d using assms(1) m by (simp add: cipher_laws_def)
  with n show ?thesis by auto
qed

lemma runs_ls_response [runs_rules]:
  assumes "in_login S" and "S \<noteq> StateConnected" and "cipher_laws L"
  shows "runs (inv_in S) (\<lambda>data. data \<noteq> []) (inv_in S) (ls_response L msg)"
proof -
  have dec: "runs (inv_in S) (\<lambda>data. data \<noteq> []) (inv_in S) (ls_decrypt L msg data)" for data
  proof -
    have "(case r of Inr d \<Rightarrow> d \<noteq> [] | Inl f \<Rightarrow> f \<noteq> Panic) \<and> t = c"
      if c: "inv_in S c" and m: "ls_decrypt L msg data c = (r, t)" for c r t
    proof -
      from inv_in_keyed [OF c assms(1,2)] obtain cr where "c_crypt c = Some cr" by blast
      with m Crypt_Decrypt_nonempty [OF assms(3), of data cr] show ?thesis
        by (auto simp: ls_decrypt_def split: prod.splits if_splits)
    qed
    then show ?thesis by (intro runsI) fastforce+
  qed
  show ?thesis unfolding ls_response_def
    by (rule runs_andThen [OF runs_ls_read [OF assms(1)] dec])
qed

lemma runs_ls_request [runs_rules]:
  assumes "in_login S" and "S \<noteq> StateConnected" and "cipher_laws L" and "n \<le> k" and "k + 26 \<le> 65535"
    and "fits k e"
  shows "runs (inv_in S) (\<lambda>_. True) (inv_in S) (ls_request L k n e)"
  unfolding ls_request_def
  by (rule runs_andThen [OF runs_ls_payload [OF assms(1,6)]], use assms(5) in simp,
      rule runs_andThen [OF runs_ls_encrypt [OF assms(1-5)]], rule runs_ls_send [OF assms(1)])

lemma runs_opcode [runs_rules]:
  "data \<noteq> [] \<Longrightarrow> runs J (\<lambda>op. idx data 0 = Inr op) J (liftR (idx data 0))"
  by (rule runs_liftR) (simp add: idx_def)

lemma fits_login:
  "fits 25 (EncodeAuthGGRequestTo sid)"
  "fits 9 (EncodeRequestServerListTo k1 k2)"
  "fits 10 (EncodeRequestServerLoginTo k1 k2 i)"
  using fills_start [OF fills_authgg] fills_start [OF fills_serverlist] fills_start [OF fills_serverlogin]
  by (auto simp: fits_def intro: size_rules)

lemma fits_copy_into: "fits k (copy_into bs)"
  by (auto simp: fits_def same_size_def preserves_def keeps_def has_size_def copy_into_def visible_def)

section \<open>Every handler keeps the invariant\<close>

lemma in_login_simps [simp]:
  "in_login StateConnected" "in_login StateInitialized" "in_login StateGGAuth" "in_login StateLoggedIn"
  "\<not> in_login StateDisconnected" "\<not> in_login StateGSConnected" "\<not> in_login StateGSHandshake"
  "\<not> in_login StateGSLoggedIn"
  by (simp_all add: in_login_def)

lemma client_inv_simps:
  "client_inv c \<Longrightarrow> in_login (c_State c) \<Longrightarrow> c_State c \<noteq> StateConnected \<Longrightarrow> in_login S \<Longrightarrow>
     client_inv (c\<lparr>c_State := S\<rparr>)"
  by (cases S) (simp_all add: client_inv_def wf_client_def in_game_def)

lemma inv_in_frame [simp]:
  "inv_in S (c\<lparr>c_Servers := ss\<rparr>) = inv_in S c"
  "inv_in S (c\<lparr>c_playKey1 := k1\<rparr>) = inv_in S c"
  "inv_in S (c\<lparr>c_playKey2 := k2\<rparr>) = inv_in S c"
  "inv_in S (c\<lparr>c_loginKey1 := k1\<rparr>) = inv_in S c"
  "inv_in S (c\<lparr>c_loginKey2 := k2\<rparr>) = inv_in S c"
  "inv_in S (c\<lparr>c_sessionID := k1\<rparr>) = inv_in S c"
  by (simp_all add: inv_in_def client_inv_def wf_client_def)

lemma inv_in_step [simp]:
  assumes "inv_in S c" and "in_login S" and "S \<noteq> StateConnected" and "in_login S'"
  shows "inv_in S' (c\<lparr>c_State := S'\<rparr>)"
  using assms client_inv_simps [of c S'] by (simp add: inv_in_def)

lemmas handler_rules = runs_andThen [OF runs_ls_request] runs_andThen [OF runs_ls_response]
  runs_andThen [OF runs_opcode] runs_andThen [OF runs_liftR] runs_if runs_basic runs_modifyS

lemma runs_SendAuthGG:
  assumes "cipher_laws L"
  shows "runs (inv_in StateInitialized) (\<lambda>_. True) (inv_in StateGGAuth) (SendAuthGG L)"
  unfolding SendAuthGG_def
  by (rule runs_guard handler_rules assms | use fits_login in \<open>simp add: inv_in_def; fail\<close>
      | simp; fail)+

lemma runs_FetchServerList:
  assumes "cipher_laws L"
  shows "runs (inv_in StateLoggedIn) (\<lambda>_. True) (inv_in StateLoggedIn) (FetchServerList L)"
  unfolding FetchServerList_def
  by (rule runs_guard handler_rules assms | use fits_login login_decoders_safe in \<open>simp add: inv_in_def; fail\<close>
      | simp; fail)+

lemma runs_SelectServer:
  assumes "cipher_laws L"
  shows "runs (inv_in StateLoggedIn) (\<lambda>_. True) (inv_in StateLoggedIn) (SelectServer L i)"
  unfolding SelectServer_def
  by (rule runs_guard handler_rules assms | use fits_login login_decoders_safe in \<open>simp add: inv_in_def; fail\<close>
      | simp; fail)+

lemma EncodeLoginRequest_146: "\<exists>p. EncodeLoginRequest req rsa = Inr p \<and> length p = 146"
proof -
  obtain enc where enc: "RSA_Encrypt rsa (login_block req) = Inr enc" and len: "128 \<le> length enc"
    by (cases "length (be_bytes (big_Exp (be_nat (login_block req)) (pubE rsa) (modN rsa))) < 128")
      (auto simp: RSA_Encrypt_def Let_def)
  then show ?thesis by (simp add: EncodeLoginRequest_def Let_def)
qed

lemma runs_Login:
  assumes "cipher_laws L" and "S = StateInitialized \<or> S = StateGGAuth"
  shows "runs (inv_in S) (\<lambda>_. True) (inv_in StateLoggedIn) (Login L)"
proof -
  have S: "in_login S" "S \<noteq> StateConnected" using assms(2) by auto
  have start: "runs (inv_in S) (\<lambda>p. length p = 146) (inv_in S)
      (case c_rsa c of None \<Rightarrow> throw Panic | Some rsa \<Rightarrow> liftR (EncodeLoginRequest req rsa))"
    if c: "inv_in S c" for c :: "'a Client" and req
  proof -
    from inv_in_keyed [OF c S] obtain rsa where "c_rsa c = Some rsa" by blast
    with EncodeLoginRequest_146 [of req rsa] show ?thesis by (auto simp: runs_def)
  qed
  show ?thesis
    unfolding Login_def Let_def
    by (rule runs_guard handler_rules runs_andThen [OF start] S assms
        | use assms(2) in \<open>auto simp: inv_in_def; fail\<close>
        | use fits_copy_into login_decoders_safe S in \<open>simp add: cryptoOverhead_def; fail\<close>)+
qed

lemma runs_init_rest:
  assumes "cipher_laws L" and "length data \<le> 65533" and "length data \<noteq> 8"
  shows "runs (inv_in StateConnected) (\<lambda>_. True) (inv_in StateInitialized) (init_rest L data)"
proof -
  let ?J1 = "\<lambda>c :: 'a Client. inv_in StateConnected c \<and> c_crypt c \<noteq> None"
  let ?J2 = "\<lambda>c :: 'a Client. ?J1 c \<and> c_rsa c \<noteq> None"
  have dec: "runs ?J1 (\<lambda>_. True) ?J1
      (case c_crypt c of None \<Rightarrow> throw Panic | Some k \<Rightarrow> liftR (Crypt_DecryptInit L data k))"
    if J: "?J1 c" for c :: "'a Client"
  proof -
    from J obtain k where k: "c_crypt c = Some k" by blast
    have "length data < 2 ^ 32" using assms(2) by simp
    from DecryptInit_outcome [OF assms(1) this, of k] assms(3)
    obtain raw where "Crypt_DecryptInit L data k = Inr raw" by auto
    with k show ?thesis by (simp add: runs_def)
  qed
  have upd: "runs ?J2 (\<lambda>_. True) ?J2 (via c_crypt (\<lambda>k c. c\<lparr>c_crypt := Some k\<rparr>) (modifyS f))" for f
    by (auto simp: runs_def via_def inv_in_def client_inv_def wf_client_def)
  have rest: "runs ?J1 (\<lambda>_. True) (inv_in StateInitialized) (andThen
       (modifyS (\<lambda>c. c\<lparr>c_sessionID := SessionID init, c_rsa := Some (NewRSA (RSAModulus init))\<rparr>)) (\<lambda>_.
     andThen (if length (BlowfishKey init) > 0
              then via c_crypt (\<lambda>k c. c\<lparr>c_crypt := Some k\<rparr>) (modifyS (Crypt_UpdateKey L (BlowfishKey init)))
              else ret ()) (\<lambda>_.
     modifyS (\<lambda>c. c\<lparr>c_State := StateInitialized\<rparr>))))" for init
    by (rule runs_modify_then [where J' = ?J2] runs_andThen [where \<phi> = "\<lambda>_. True"] runs_if upd
        runs_weaken [OF runs_basic(3)] runs_modifyS
        | simp add: inv_in_def client_inv_def wf_client_def in_game_def; fail)+
  show ?thesis
    unfolding init_rest_def
    by (rule runs_modify_then [where J' = ?J1] runs_read runs_andThen [OF dec] runs_andThen [OF runs_liftR] rest
        | use login_decoders_safe in \<open>simp; fail\<close>)+
qed

section \<open>What a request puts on the wire\<close>

text \<open>
  \<open>delivered L k sent req\<close>: \<open>sent\<close> is one framed packet that a server with the same key deciphers
  to a body starting with the request \<open>req\<close>, whose checksum is right.
\<close>

definition delivered :: "'k cipher_lib \<Rightarrow> 'k Crypt \<Rightarrow> byte list \<Rightarrow> byte list \<Rightarrow> bool" where
  "delivered L k sent req \<longleftrightarrow> (\<exists>ct body. sent = frame ct \<and> Crypt_Decrypt L ct k = (True, body) \<and>
     take (length req) body = req \<and> xor_sum (words_of body) = 0)"

text \<open>An encoder that puts the bytes \<open>req\<close> at the front of its buffer.\<close>

definition writes :: "(gslice, unit) go \<Rightarrow> byte list \<Rightarrow> bool" where
  "writes e req \<longleftrightarrow> (\<forall>s. wf_slice s \<and> length req \<le> slen s \<longrightarrow>
     e s = (Inr (), s\<lparr>mem := req @ drop (length req) (mem s)\<rparr>))"

lemma writes_login:
  "writes (EncodeAuthGGRequestTo sid) (authgg_bytes sid)"
  "writes (EncodeRequestServerListTo k1 k2) (serverlist_bytes (k1, k2))"
  "writes (EncodeRequestServerLoginTo k1 k2 i) (serverlogin_bytes (k1, k2, i))"
  using fills_start [OF fills_authgg] fills_start [OF fills_serverlist] fills_start [OF fills_serverlogin]
  by (auto simp: writes_def)

lemma writes_copy_into: "writes (copy_into bs) bs"
proof -
  have "take (n - length bs) (drop (length bs) m) @ drop n m = drop (length bs) m"
    if "length bs \<le> n" for n and m :: "byte list"
    using that by (metis append_take_drop_id drop_drop le_add_diff_inverse2)
  then show ?thesis
    by (auto simp: writes_def copy_into_def copy_at_def visible_def wf_slice_def write_at_def drop_take)
qed

lemma ls_request_ok:
  assumes L: "cipher_laws L" and c: "inv_in S c" "in_login S" and cr: "c_crypt c = Some cr"
    and k: "length req \<le> k" "k + 26 \<le> 65535" and e: "writes e req"
    and sock: "\<not> closed (ls_sock c)" "writes_left (ls_sock c) = Suc j"
  shows "\<exists>sent w'. ls_request L k (length req) e c = (Inr (), c\<lparr>c_writer := Some w',
      c_crypt := Some (cr\<lparr>updatedKey := True\<rparr>),
      ls_sock := (ls_sock c)\<lparr>tx := tx (ls_sock c) @ sent, writes_left := j\<rparr>\<rparr>) \<and>
    delivered L cr sent req \<and> wf_writer w'"
proof -
  from inv_in_login [OF c] obtain w where w: "c_writer c = Some w" "wf_writer w" by blast
  let ?s0 = "\<lparr>mem = drop 2 (wbuf w), slen = k\<rparr>"
  let ?m1 = "req @ drop (length req) (drop 2 (wbuf w))"
  let ?w1 = "keep_payload \<lparr>mem = ?m1, slen = k\<rparr> w"
  have k2: "k + 2 \<le> 65535" using k(2) by simp
  have "e ?s0 = (Inr (), ?s0\<lparr>mem := ?m1\<rparr>)"
    using e wf_prepared(2) [OF w(2) k2] k(1) unfolding writes_def by (metis gslice.select_convs)
  then have 1: "ls_payload k e c = (Inr (), c\<lparr>c_writer := Some ?w1\<rparr>)"
    using w wf_prepared(1) [OF w(2) k2] by (simp add: ls_payload_def via_def on_payload_def)
  have len0: "length (drop 2 (wbuf w)) = 65533"
    using w(2) by (simp add: wf_writer_def MaxPacketSize_def)
  then have lm1: "length ?m1 = 65533" using k by simp
  note kp = keep_payload_drop [OF w(2), of "\<lparr>mem = ?m1, slen = k\<rparr>", unfolded gslice.select_convs, OF lm1]
  let ?data = "\<lparr>mem = ?m1, slen = length req\<rparr>"
  have prep: "(Writer_Prepare k ?w1)\<lparr>slen := length req\<rparr> = ?data"
    using wf_prepared(1) [OF kp(2) k2] kp(1) by simp
  have wf: "wf_slice ?data" using lm1 k by (simp add: wf_slice_def)
  obtain out body where out: "Crypt_Encrypt L ?data cr =
        (Inr (out, slen out \<le> length (mem ?data)), cr\<lparr>updatedKey := True\<rparr>)"
    and dec: "Crypt_Decrypt L (visible out) cr = (True, body)"
    and so: "length (visible out) = slen out" "slen out < length req + reserve_of cr + 8"
    and body: "take (length req) body = req" "xor_sum (words_of body) = 0"
    and mo: "slen out \<le> length (mem ?data) \<longrightarrow> length (mem out) = length (mem ?data)"
    using Crypt_Encrypt_seals [OF L wf, of cr] by (auto simp: visible_def)
  have fit: "slen out \<le> 65533" using so(2) k by (simp add: reserve_of_def split: if_splits)
  then have lo: "length (mem out) = 65533" using mo lm1 by simp
  let ?w2 = "keep_payload out ?w1"
  let ?c2 = "c\<lparr>c_writer := Some ?w2, c_crypt := Some (cr\<lparr>updatedKey := True\<rparr>)\<rparr>"
  note kp2 = keep_payload_drop [OF kp(2) lo]
  have 2: "ls_encrypt L k (length req) (c\<lparr>c_writer := Some ?w1\<rparr>) = (Inr (slen out), ?c2)"
    unfolding ls_encrypt_def using prep lm1 k cr out fit
    by (simp add: via_def andThen_def Let_def del: append_take_drop_id)
  have fit2: "slen out + 2 \<le> 65535" using fit by simp
  obtain w' where snd: "Writer_Send (slen out) (?w2, ls_sock c) = (Inr (), (w', (ls_sock c)\<lparr>
      tx := tx (ls_sock c) @ frame (visible out), writes_left := j\<rparr>))" and w': "wf_writer w'"
    using Writer_Send_ok [OF kp2(2) fit2 sock] kp2(1) by (auto simp: visible_def)
  have 3: "ls_send (slen out) ?c2 = (Inr (), ?c2\<lparr>c_writer := Some w', ls_sock := (ls_sock c)\<lparr>
      tx := tx (ls_sock c) @ frame (visible out), writes_left := j\<rparr>\<rparr>)"
    using snd by (simp add: ls_send_def via_def)
  have "ls_request L k (length req) e c = (Inr (), ?c2\<lparr>c_writer := Some w', ls_sock := (ls_sock c)\<lparr>
      tx := tx (ls_sock c) @ frame (visible out), writes_left := j\<rparr>\<rparr>)"
    using 1 2 3 by (simp add: ls_request_def andThen_def)
  moreover have "delivered L cr (frame (visible out)) req"
    using dec body by (auto simp: delivered_def)
  ultimately show ?thesis
    using w' by (intro exI [of _ "frame (visible out)"] exI [of _ w']) simp
qed

lemma Crypt_Decrypt_updated [simp]: "Crypt_Decrypt L data (k\<lparr>updatedKey := b\<rparr>) = Crypt_Decrypt L data k"
  by (simp add: Crypt_Decrypt_def)

lemma ls_response_ok:
  assumes "c_reader c = Some r" and "wf_reader r" and "c_crypt c = Some cr"
    and "\<not> closed (ls_sock c)" and "rx (ls_sock c) = frame resp @ rest" and "length resp \<le> 65533"
    and "Crypt_Decrypt L resp cr = (True, body)"
  shows "\<exists>r'. ls_response L msg c = (Inr body, c\<lparr>c_reader := Some r', ls_sock := (ls_sock c)\<lparr>rx := rest\<rparr>\<rparr>)
    \<and> wf_reader r'"
proof -
  have "length resp + 2 \<le> 65535" using assms(6) by simp
  from Reader_Read_ok [OF assms(2,4,5) this] obtain r' where
    rd: "Reader_Read (r, ls_sock c) = (Inr resp, (r', (ls_sock c)\<lparr>rx := rest\<rparr>))" and r': "wf_reader r'"
    by blast
  then have "ls_read c = (Inr resp, c\<lparr>c_reader := Some r', ls_sock := (ls_sock c)\<lparr>rx := rest\<rparr>\<rparr>)"
    using assms(1) by (simp add: ls_read_def via_def)
  then have "ls_response L msg c = (Inr body, c\<lparr>c_reader := Some r', ls_sock := (ls_sock c)\<lparr>rx := rest\<rparr>\<rparr>)"
    using assms(3,7) by (simp add: ls_response_def andThen_def ls_decrypt_def)
  with r' show ?thesis by blast
qed

text \<open>
  The two together: with the connection up and one packet arriving, a handler sends its request
  and goes on with the deciphered response.
\<close>

lemma ls_exchange_ok:
  assumes L: "cipher_laws L" and c: "inv_in S c" "in_login S" and cr: "c_crypt c = Some cr"
    and k: "length req \<le> k" "k + 26 \<le> 65535" and e: "writes e req"
    and sock: "\<not> closed (ls_sock c)" "writes_left (ls_sock c) = Suc j"
    and resp: "rx (ls_sock c) = frame resp @ rest" "length resp \<le> 65533"
      "Crypt_Decrypt L resp cr = (True, body)"
  shows "\<exists>sent w' r'. (\<forall>g. andThen (ls_request L k (length req) e) (\<lambda>_. andThen (ls_response L msg) g) c =
      g body (c\<lparr>c_writer := Some w', c_crypt := Some (cr\<lparr>updatedKey := True\<rparr>), c_reader := Some r',
        ls_sock := (ls_sock c)\<lparr>tx := tx (ls_sock c) @ sent, writes_left := j, rx := rest\<rparr>\<rparr>)) \<and>
    delivered L cr sent req"
proof -
  from inv_in_login [OF c] obtain r where r: "c_reader c = Some r" "wf_reader r" by blast
  obtain sent w' where req: "ls_request L k (length req) e c = (Inr (), c\<lparr>c_writer := Some w',
      c_crypt := Some (cr\<lparr>updatedKey := True\<rparr>),
      ls_sock := (ls_sock c)\<lparr>tx := tx (ls_sock c) @ sent, writes_left := j\<rparr>\<rparr>)"
    and d: "delivered L cr sent req"
    using ls_request_ok [OF L c cr k e sock] by blast
  let ?c1 = "c\<lparr>c_writer := Some w', c_crypt := Some (cr\<lparr>updatedKey := True\<rparr>),
      ls_sock := (ls_sock c)\<lparr>tx := tx (ls_sock c) @ sent, writes_left := j\<rparr>\<rparr>"
  obtain r' where "ls_response L msg ?c1 =
      (Inr body, ?c1\<lparr>c_reader := Some r', ls_sock := (ls_sock ?c1)\<lparr>rx := rest\<rparr>\<rparr>)"
    using ls_response_ok [of ?c1 r "cr\<lparr>updatedKey := True\<rparr>" resp rest L body msg] r sock resp by auto
  with req have "\<forall>g. andThen (ls_request L k (length req) e) (\<lambda>_. andThen (ls_response L msg) g) c =
      g body (c\<lparr>c_writer := Some w', c_crypt := Some (cr\<lparr>updatedKey := True\<rparr>), c_reader := Some r',
        ls_sock := (ls_sock c)\<lparr>tx := tx (ls_sock c) @ sent, writes_left := j, rx := rest\<rparr>\<rparr>)"
    by (simp add: andThen_def)
  with d show ?thesis by blast
qed

section \<open>The address of the game server\<close>

definition addr_string :: "byte \<Rightarrow> byte \<Rightarrow> byte \<Rightarrow> byte \<Rightarrow> u16 \<Rightarrow> string" where
  "addr_string a b c d port = itoa (uint a) @ ''.'' @ itoa (uint b) @ ''.'' @ itoa (uint c) @ ''.'' @
     itoa (uint d) @ '':'' @ itoa (uint port)"

text \<open>The text formatted so far is at the front of the array, and the position is its length.\<close>

definition formatted :: "string \<Rightarrow> byte list \<times> nat \<Rightarrow> bool" where
  "formatted s = (\<lambda>(buf, pos). length buf = 32 \<and> pos = length s \<and> pos \<le> 32 \<and>
     take pos buf = bytes_of s)"

lemma bytes_of_append [simp]: "bytes_of (s @ t) = bytes_of s @ bytes_of t"
  by (simp add: bytes_of_def)

lemma fmt_copy_ok:
  "formatted s st \<Longrightarrow> length s + length t \<le> 32 \<Longrightarrow>
     \<exists>st'. fmt_copy t st = (Inr (), st') \<and> formatted (s @ t) st'"
  by (cases st) (auto simp: formatted_def fmt_copy_def copy_at_def write_at_def)

lemma fmt_char_ok:
  "formatted s st \<Longrightarrow> length s < 32 \<Longrightarrow>
     \<exists>st'. fmt_char b st = (Inr (), st') \<and> formatted (s @ [b]) st'"
  by (cases st) (auto simp: formatted_def fmt_char_def write_at_single write_at_def bytes_of_def)

lemma length_itoa_byte: "length (itoa (int (unat (b :: byte)))) \<le> 3"
proof -
  have "unat b < 256" using unsigned_less [of b, where ?'a = nat] by simp
  then have "unat b < 10 ^ 3" by simp
  from length_digits_in_le [OF this] show ?thesis by (simp add: itoa_def)
qed

lemma length_itoa_port: "length (itoa (int (unat (p :: u16)))) \<le> 5"
proof -
  have "unat p < 65536" using unsigned_less [of p, where ?'a = nat] by simp
  then have "unat p < 10 ^ 5" by simp
  from length_digits_in_le [OF this] show ?thesis by (simp add: itoa_def)
qed

lemma format_addr_ok: "format_addr [a, b, c, d] port = Inr (addr_string a b c d port)"
proof -
  let ?s1 = "itoa (int (unat a))" and ?s2 = "itoa (int (unat b))" and ?s3 = "itoa (int (unat c))"
    and ?s4 = "itoa (int (unat d))" and ?sp = "itoa (int (unat port))"
  note len = length_itoa_byte [of a] length_itoa_byte [of b] length_itoa_byte [of c]
    length_itoa_byte [of d] length_itoa_port [of port]
  have "formatted [] (replicate 32 0, 0)" by (simp add: formatted_def bytes_of_def)
  from fmt_copy_ok [OF this, of ?s1] len obtain t1 where
    1: "fmt_copy ?s1 (replicate 32 0, 0) = (Inr (), t1)" "formatted ?s1 t1" by auto
  from fmt_char_ok [OF 1(2), of "CHR ''.''"] len obtain t2 where
    2: "fmt_char (CHR ''.'') t1 = (Inr (), t2)" "formatted (?s1 @ ''.'') t2" by auto
  from fmt_copy_ok [OF 2(2), of ?s2] len obtain t3 where
    3: "fmt_copy ?s2 t2 = (Inr (), t3)" "formatted (?s1 @ ''.'' @ ?s2) t3" by auto
  from fmt_char_ok [OF 3(2), of "CHR ''.''"] len obtain t4 where
    4: "fmt_char (CHR ''.'') t3 = (Inr (), t4)" "formatted (?s1 @ ''.'' @ ?s2 @ ''.'') t4" by auto
  from fmt_copy_ok [OF 4(2), of ?s3] len obtain t5 where
    5: "fmt_copy ?s3 t4 = (Inr (), t5)" "formatted (?s1 @ ''.'' @ ?s2 @ ''.'' @ ?s3) t5" by auto
  from fmt_char_ok [OF 5(2), of "CHR ''.''"] len obtain t6 where
    6: "fmt_char (CHR ''.'') t5 = (Inr (), t6)"
      "formatted (?s1 @ ''.'' @ ?s2 @ ''.'' @ ?s3 @ ''.'') t6" by auto
  from fmt_copy_ok [OF 6(2), of ?s4] len obtain t7 where
    7: "fmt_copy ?s4 t6 = (Inr (), t7)"
      "formatted (?s1 @ ''.'' @ ?s2 @ ''.'' @ ?s3 @ ''.'' @ ?s4) t7" by auto
  from fmt_char_ok [OF 7(2), of "CHR '':''"] len obtain t8 where
    8: "fmt_char (CHR '':'') t7 = (Inr (), t8)"
      "formatted (?s1 @ ''.'' @ ?s2 @ ''.'' @ ?s3 @ ''.'' @ ?s4 @ '':'') t8" by auto
  from fmt_copy_ok [OF 8(2), of ?sp] len obtain t9 where
    9: "fmt_copy ?sp t8 = (Inr (), t9)"
      "formatted (addr_string a b c d port) t9"
    by (auto simp: addr_string_def)
  obtain buf pos where t9: "t9 = (buf, pos)" by (cases t9)
  have "rdSub buf 0 pos = Inr (bytes_of (addr_string a b c d port))"
    using 9(2) by (auto simp: t9 formatted_def sub_list_def)
  then show ?thesis
    using 1(1) 2(1) 3(1) 4(1) 5(1) 6(1) 7(1) 8(1) 9(1)
    by (simp add: format_addr_def andThen_def t9)
qed

section \<open>Properties\<close>

text \<open>A client in the middle of a login, for the witnesses; its cipher leaves bytes as they are.\<close>

definition sample_client :: "State \<Rightarrow> byte list \<Rightarrow> byte Client" where
  "sample_client S arriving =
     (NewClient ''127.0.0.1:2106'' ''bot'' ''pw'' [])\<lparr>c_State := S, ls_sock := sample_conn arriving,
       c_conn := True, c_reader := Some NewReader, c_writer := Some NewWriter,
       c_crypt := Some (NewCrypt xor_lib []), c_rsa := Some (NewRSA [])\<rparr>"

lemma sample_client_inv: "in_login S \<Longrightarrow> inv_in S (sample_client S arriving)"
  by (auto simp: inv_in_def client_inv_def wf_client_def sample_client_def NewClient_def in_login_def
      in_game_def wf_crypt_preserved)

lemma xor_lib_plain:
  "length data mod 8 = 0 \<Longrightarrow> data \<noteq> [] \<Longrightarrow>
     Crypt_Decrypt xor_lib data (NewCrypt xor_lib []) = (True, data)"
  by (simp add: Crypt_Decrypt_def NewCrypt_def xor_lib_def)

text \<open>
  C22. The four handlers that follow \<open>HandleInit\<close> never panic, whatever the server sends and whenever the
  connection breaks: an error leaves the client in the state it was in, with its invariant;
  \<open>SendAuthGG\<close> and \<open>Login\<close> move a client they succeed on to the next state, \<open>FetchServerList\<close> and
  \<open>SelectServer\<close> keep it logged in. (\<open>HandleInit\<close> does panic on one kind of packet.)
\<close>

theorem login_handlers_run:
  assumes "cipher_laws L"
  shows "runs (inv_in StateInitialized) (\<lambda>_. True) (inv_in StateGGAuth) (SendAuthGG L) \<and>
    runs (inv_in StateInitialized) (\<lambda>_. True) (inv_in StateLoggedIn) (Login L) \<and>
    runs (inv_in StateGGAuth) (\<lambda>_. True) (inv_in StateLoggedIn) (Login L) \<and>
    runs (inv_in StateLoggedIn) (\<lambda>_. True) (inv_in StateLoggedIn) (FetchServerList L) \<and>
    runs (inv_in StateLoggedIn) (\<lambda>_. True) (inv_in StateLoggedIn) (SelectServer L serverID)"
  by (intro conjI runs_SendAuthGG runs_Login runs_FetchServerList runs_SelectServer assms) simp_all

theorem login_handlers_run_witness:
  "fst (SendAuthGG xor_lib (sample_client StateInitialized [1, 0])) \<noteq> Inl Panic"
proof -
  have "inv_in StateInitialized (sample_client StateInitialized [1, 0])"
    by (rule sample_client_inv) simp
  with login_handlers_run [OF xor_lib_laws, of 0] show ?thesis
    by (cases "SendAuthGG xor_lib (sample_client StateInitialized [1, 0])")
      (auto simp: runs_def split: sum.splits)
qed

lemma HandleInit_run:
  assumes "cipher_laws L" and "inv_in StateConnected c"
  shows "(fst (HandleInit L c) = Inl Panic \<longleftrightarrow> (\<exists>data. fst (ls_read c) = Inr data \<and> length data = 8)) \<and>
    (fst (HandleInit L c) = Inr () \<longrightarrow> inv_in StateInitialized (snd (HandleInit L c))) \<and>
    (\<forall>e. fst (HandleInit L c) = Inl e \<longrightarrow> inv_in StateConnected (snd (HandleInit L c)))"
proof -
  have eq: "HandleInit L c = andThen ls_read (init_rest L) c"
    using assms(2) by (simp add: HandleInit_def inv_in_def)
  obtain res t where rd: "ls_read c = (res, t)" by (metis prod.exhaust)
  show ?thesis
  proof (cases res)
    case (Inl e)
    with rd runs_Inl [OF runs_ls_read assms(2), of e t] show ?thesis
      by (auto simp: eq andThen_def)
  next
    case (Inr data)
    from rd runs_Inr [OF runs_ls_read assms(2), of data t] Inr
    have d: "length data \<le> 65533" and t: "inv_in StateConnected t" by auto
    have eq2: "HandleInit L c = init_rest L data t" using rd Inr by (simp add: eq andThen_def)
    show ?thesis
    proof (cases "length data = 8")
      case True
      have "length data < 2 ^ 32" using d by simp
      from DecryptInit_outcome [OF assms(1) this] True
      have "init_rest L data t = (Inl Panic, t\<lparr>c_crypt := Some (NewCrypt L (c_staticKey t))\<rparr>)"
        by (simp add: init_rest_def)
      with True t show ?thesis using rd Inr by (simp add: eq2)
    next
      case False
      note run = runs_init_rest [OF assms(1) d False]
      obtain r u where r: "init_rest L data t = (r, u)" by (metis prod.exhaust)
      with run t False show ?thesis
        by (cases r) (auto simp: eq2 rd Inr dest: runs_Inr runs_Inl)
    qed
  qed
qed

lemma goes_HandleInit:
  assumes "cipher_laws L"
  shows "goes True (inv_in StateConnected) (\<lambda>_. True) (inv_in StateInitialized) (HandleInit L)"
proof (rule goesI)
  fix c t x
  assume "inv_in StateConnected c" and "HandleInit L c = (Inr x, t)"
  with HandleInit_run [OF assms, of c] show "True \<and> inv_in StateInitialized t" by simp
next
  fix c t e
  assume "inv_in StateConnected c" and "HandleInit L c = (Inl e, t)"
  with HandleInit_run [OF assms, of c] show "(e = Panic \<longrightarrow> True) \<and> inv_in StateConnected t"
    by simp
qed

text \<open>
  C23. \<open>HandleInit\<close> panics exactly when the first packet of the server is 8 bytes long; an error
  or that panic leaves the client connected, and a success leaves it initialised, with its key and cipher set.
\<close>

theorem HandleInit_outcome:
  assumes "cipher_laws L" and "inv_in StateConnected c"
  shows "(fst (HandleInit L c) = Inl Panic \<longleftrightarrow> (\<exists>data. fst (ls_read c) = Inr data \<and> length data = 8)) \<and>
    (fst (HandleInit L c) = Inr () \<longrightarrow> inv_in StateInitialized (snd (HandleInit L c))) \<and>
    (\<forall>e. fst (HandleInit L c) = Inl e \<longrightarrow> inv_in StateConnected (snd (HandleInit L c)))"
  using assms by (rule HandleInit_run)

theorem HandleInit_outcome_witness:
  "fst (HandleInit xor_lib (sample_client StateConnected (frame (replicate 8 0)))) = Inl Panic"
proof -
  let ?c = "sample_client StateConnected (frame (replicate 8 0))"
  have "inv_in StateConnected ?c" by (rule sample_client_inv) simp
  note out = HandleInit_outcome [OF xor_lib_laws this]
  obtain r' where "Reader_Read (NewReader, ls_sock ?c) = (Inr (replicate 8 0), r')"
    using Reader_Read_ok [of NewReader "ls_sock ?c" "replicate 8 0" "[]"]
    by (auto simp: sample_client_def)
  then have "fst (ls_read ?c) = Inr (replicate 8 0)"
    by (cases r') (simp add: ls_read_def via_def sample_client_def)
  with out show ?thesis by auto
qed

text \<open>
  A handler called in the wrong state does nothing: it returns its error and neither sends,
  reads nor stores anything.
\<close>

theorem login_guards:
  "(c_State c \<noteq> StateConnected \<longrightarrow> HandleInit L c = (Inl (Error ''invalid state for init''), c)) \<and>
   (c_State c \<noteq> StateInitialized \<longrightarrow> SendAuthGG L c = (Inl (Error ''invalid state for AuthGG''), c)) \<and>
   (c_State c \<noteq> StateGGAuth \<and> c_State c \<noteq> StateInitialized \<longrightarrow>
      Login L c = (Inl (Error ''invalid state for login''), c)) \<and>
   (c_State c \<noteq> StateLoggedIn \<longrightarrow>
      FetchServerList L c = (Inl (Error ''must be logged in to fetch server list''), c) \<and>
      SelectServer L i c = (Inl (Error ''must be logged in to select server''), c))"
  by (simp add: HandleInit_def SendAuthGG_def Login_def FetchServerList_def SelectServer_def)

theorem login_guards_witness:
  "Login xor_lib (sample_client StateConnected []) =
     (Inl (Error ''invalid state for login''), sample_client StateConnected [])"
  using login_guards [of "sample_client StateConnected []" xor_lib 0]
  by (simp add: sample_client_def)

text \<open>
  C21. What \<open>Login\<close> does when one response arrives: it has sent the login request, readable under
  the server's key with a correct checksum, and its result is decided by the response alone: a
  success packet's two keys are stored and the client is logged in, a fail packet gives the text
  of its reason, anything else an error, and no error changes the state.
\<close>

theorem Login_outcome:
  fixes c :: "'k Client"
  assumes L: "cipher_laws L" and c: "inv_in S c" and S: "S = StateInitialized \<or> S = StateGGAuth"
    and k: "c_crypt c = Some k" and rsa: "c_rsa c = Some rsa"
    and sock: "\<not> closed (ls_sock c)" "writes_left (ls_sock c) = Suc j"
    and resp: "rx (ls_sock c) = frame resp @ rest" "length resp \<le> 65533"
      "Crypt_Decrypt L resp k = (True, body)"
  shows "\<exists>req sent t. EncodeLoginRequest \<lparr>reqAccount = c_account c, reqPassword = c_password c,
        reqSessionID = c_sessionID c\<rparr> rsa = Inr req \<and>
    tx (ls_sock t) = tx (ls_sock c) @ sent \<and> delivered L k sent req \<and> rx (ls_sock t) = rest \<and>
    Login L c = (if body ! 0 = OpLoginSuccess
       then (case DecodeLoginOk body of Inl e \<Rightarrow> (Inl e, t)
             | Inr ok \<Rightarrow> (Inr (), t\<lparr>c_loginKey1 := LoginKey1 ok, c_loginKey2 := LoginKey2 ok,
                 c_State := StateLoggedIn\<rparr>))
       else if body ! 0 = OpLoginFail
       then (case GetLoginFailReason body of Inl e \<Rightarrow> (Inl e, t) | Inr msg \<Rightarrow> (Inl (Error msg), t))
       else (Inl (Error ''unexpected login response opcode''), t)) \<and>
    c_State t = S"
proof -
  have S': "in_login S" using S by auto
  have cS: "c_State c = S" using c by (simp add: inv_in_def)
  obtain req where req: "EncodeLoginRequest \<lparr>reqAccount = c_account c, reqPassword = c_password c,
        reqSessionID = c_sessionID c\<rparr> rsa = Inr req" and len: "length req = 146"
    using EncodeLoginRequest_146 by blast
  have k2: "length req \<le> length req + cryptoOverhead" "length req + cryptoOverhead + 26 \<le> 65535"
    using len by (simp_all add: cryptoOverhead_def)
  obtain sent w' r' where ex: "\<And>g :: byte list \<Rightarrow> ('k Client, unit) go. andThen (ls_request L (length req + cryptoOverhead) (length req) (copy_into req))
      (\<lambda>_. andThen (ls_response L ''failed to decrypt login response'') g) c =
      g body (c\<lparr>c_writer := Some w', c_crypt := Some (k\<lparr>updatedKey := True\<rparr>), c_reader := Some r',
        ls_sock := (ls_sock c)\<lparr>tx := tx (ls_sock c) @ sent, writes_left := j, rx := rest\<rparr>\<rparr>)"
    and d: "delivered L k sent req"
    using ls_exchange_ok [OF L c S' k k2 writes_copy_into sock resp] by blast
  let ?t = "c\<lparr>c_writer := Some w', c_crypt := Some (k\<lparr>updatedKey := True\<rparr>), c_reader := Some r',
      ls_sock := (ls_sock c)\<lparr>tx := tx (ls_sock c) @ sent, writes_left := j, rx := rest\<rparr>\<rparr>"
  have "body \<noteq> []" using Crypt_Decrypt_nonempty [OF L resp(3)] by simp
  then have op: "idx body 0 = Inr (body ! 0)" by (simp add: idx_def)
  have "Login L c = (if body ! 0 = OpLoginSuccess
       then (case DecodeLoginOk body of Inl e \<Rightarrow> (Inl e, ?t)
             | Inr ok \<Rightarrow> (Inr (), ?t\<lparr>c_loginKey1 := LoginKey1 ok, c_loginKey2 := LoginKey2 ok,
                 c_State := StateLoggedIn\<rparr>))
       else if body ! 0 = OpLoginFail
       then (case GetLoginFailReason body of Inl e \<Rightarrow> (Inl e, ?t) | Inr msg \<Rightarrow> (Inl (Error msg), ?t))
       else (Inl (Error ''unexpected login response opcode''), ?t))"
    using S cS rsa req by (elim disjE) (simp_all add: Login_def ex op split: sum.splits)
  with req d cS show ?thesis
    by (intro exI [of _ req] exI [of _ sent] exI [of _ ?t]) simp
qed

theorem Login_outcome_witness:
  "\<exists>t. Login xor_lib (sample_client StateInitialized
       (frame (OpLoginSuccess # le32_bytes 11 @ le32_bytes 22 @ replicate 7 0))) = (Inr (), t) \<and>
     c_loginKey1 t = 11 \<and> c_loginKey2 t = 22 \<and> c_State t = StateLoggedIn"
proof -
  define body where "body = OpLoginSuccess # le32_bytes 11 @ le32_bytes 22 @ replicate 7 0"
  let ?c = "sample_client StateInitialized (frame body)"
  have c: "inv_in StateInitialized ?c" by (rule sample_client_inv) simp
  have dec: "Crypt_Decrypt xor_lib body (NewCrypt xor_lib []) = (True, body)"
    by (rule xor_lib_plain) (simp_all add: body_def)
  have f: "c_crypt ?c = Some (NewCrypt xor_lib [])" "c_rsa ?c = Some (NewRSA [])"
    "\<not> closed (ls_sock ?c)" "writes_left (ls_sock ?c) = Suc 8" "rx (ls_sock ?c) = frame body @ []"
    "length body \<le> 65533"
    by (simp_all add: sample_client_def body_def)
  have ok: "DecodeLoginOk body = Inr \<lparr>LoginKey1 = 11, LoginKey2 = 22\<rparr>"
    using u32_at_append [of "[OpLoginSuccess]" 1 11 "le32_bytes 22 @ replicate 7 0"]
      u32_at_append [of "OpLoginSuccess # le32_bytes 11" 5 22 "replicate 7 0"]
    by (simp add: DecodeLoginOk_def body_def)
  have op: "body ! 0 = OpLoginSuccess" by (simp add: body_def)
  from Login_outcome [OF xor_lib_laws c _ f(1,2,3,4,5,6) dec] obtain t where
    "Login xor_lib ?c = (Inr (), t\<lparr>c_loginKey1 := 11, c_loginKey2 := 22, c_State := StateLoggedIn\<rparr>)"
    by (auto simp: op ok)
  then show ?thesis by (simp add: body_def)
qed

text \<open>
  C38. \<open>SelectServer\<close> sends the login keys it holds and the chosen server id; the play keys it
  stores are those of the response, and a refusal or any other packet stores nothing.
\<close>

theorem SelectServer_outcome:
  fixes c :: "'k Client"
  assumes L: "cipher_laws L" and c: "inv_in StateLoggedIn c" and k: "c_crypt c = Some k"
    and sock: "\<not> closed (ls_sock c)" "writes_left (ls_sock c) = Suc j"
    and resp: "rx (ls_sock c) = frame resp @ rest" "length resp \<le> 65533"
      "Crypt_Decrypt L resp k = (True, body)"
  shows "\<exists>sent t. tx (ls_sock t) = tx (ls_sock c) @ sent \<and>
    delivered L k sent (serverlogin_bytes (c_loginKey1 c, c_loginKey2 c, serverID)) \<and>
    c_playKey1 t = c_playKey1 c \<and> c_playKey2 t = c_playKey2 c \<and>
    SelectServer L serverID c = (if body ! 0 = OpPlaySuccess
       then (case DecodePlayOk body of Inl e \<Rightarrow> (Inl e, t)
             | Inr ok \<Rightarrow> (Inr (), t\<lparr>c_playKey1 := PlayKey1 ok, c_playKey2 := PlayKey2 ok\<rparr>))
       else if body ! 0 = OpPlayFail then (Inl (Error ''server selection failed''), t)
       else (Inl (Error ''unexpected play response opcode''), t))"
proof -
  let ?req = "serverlogin_bytes (c_loginKey1 c, c_loginKey2 c, serverID)"
  have g: "\<not> c_State c \<noteq> StateLoggedIn" using c by (simp add: inv_in_def)
  have S: "in_login StateLoggedIn" by simp
  have k2: "length ?req \<le> 10" "10 + 26 \<le> (65535 :: nat)" by simp_all
  obtain sent w' r' where ex: "\<And>g :: byte list \<Rightarrow> ('k Client, unit) go. andThen (ls_request L 10 (length ?req)
        (EncodeRequestServerLoginTo (c_loginKey1 c) (c_loginKey2 c) serverID))
      (\<lambda>_. andThen (ls_response L ''failed to decrypt play response'') g) c =
      g body (c\<lparr>c_writer := Some w', c_crypt := Some (k\<lparr>updatedKey := True\<rparr>), c_reader := Some r',
        ls_sock := (ls_sock c)\<lparr>tx := tx (ls_sock c) @ sent, writes_left := j, rx := rest\<rparr>\<rparr>)"
    and d: "delivered L k sent ?req"
    using ls_exchange_ok [OF L c S k k2 writes_login(3) sock resp] by blast
  let ?t = "c\<lparr>c_writer := Some w', c_crypt := Some (k\<lparr>updatedKey := True\<rparr>), c_reader := Some r',
      ls_sock := (ls_sock c)\<lparr>tx := tx (ls_sock c) @ sent, writes_left := j, rx := rest\<rparr>\<rparr>"
  have "body \<noteq> []" using Crypt_Decrypt_nonempty [OF L resp(3)] by simp
  then have op: "idx body 0 = Inr (body ! 0)" by (simp add: idx_def)
  have "SelectServer L serverID c = (if body ! 0 = OpPlaySuccess
       then (case DecodePlayOk body of Inl e \<Rightarrow> (Inl e, ?t)
             | Inr ok \<Rightarrow> (Inr (), ?t\<lparr>c_playKey1 := PlayKey1 ok, c_playKey2 := PlayKey2 ok\<rparr>))
       else if body ! 0 = OpPlayFail then (Inl (Error ''server selection failed''), ?t)
       else (Inl (Error ''unexpected play response opcode''), ?t))"
    using g ex by (simp add: SelectServer_def op split: sum.splits)
  with d show ?thesis by (intro exI [of _ sent] exI [of _ ?t]) simp
qed

theorem SelectServer_outcome_witness:
  "\<exists>t. SelectServer xor_lib 1 (sample_client StateLoggedIn (frame (OpPlayFail # replicate 7 0))) =
     (Inl (Error ''server selection failed''), t)"
proof -
  define body where "body = OpPlayFail # replicate 7 0"
  let ?c = "sample_client StateLoggedIn (frame body)"
  have c: "inv_in StateLoggedIn ?c" by (rule sample_client_inv) simp
  have dec: "Crypt_Decrypt xor_lib body (NewCrypt xor_lib []) = (True, body)"
    by (rule xor_lib_plain) (simp_all add: body_def)
  have f: "c_crypt ?c = Some (NewCrypt xor_lib [])" "\<not> closed (ls_sock ?c)"
    "writes_left (ls_sock ?c) = Suc 8" "rx (ls_sock ?c) = frame body @ []" "length body \<le> 65533"
    by (simp_all add: sample_client_def body_def)
  have op: "body ! 0 = OpPlayFail" "OpPlayFail \<noteq> OpPlaySuccess"
    by (simp_all add: body_def login_ops)
  from SelectServer_outcome [OF xor_lib_laws c f dec, of 1] show ?thesis
    unfolding op body_def [symmetric] using op(2) by auto
qed

text \<open>
  C39. The game server address is dialled as the dotted form of the four bytes and the port, which
  always fits the 32-byte array; the client moves to the game server only when the dial succeeds,
  and then it closes the login connection.
\<close>

theorem ConnectToGameServer_dials:
  "ConnectToGameServer dial [a, b, d, e] port c =
     (case dial (addr_string a b d e port) of
        Inl err \<Rightarrow> (Inl (Error err), c)
      | Inr conn \<Rightarrow> (Inr (), c\<lparr>c_gsConn := True, gs_sock := conn, c_gsReader := Some NewReader,
          c_gsWriter := Some NewWriter, c_State := StateGSConnected, c_conn := False,
          ls_sock := (if c_conn c then conn_close (ls_sock c) else ls_sock c)\<rparr>))"
  by (cases "c_conn c") (simp_all add: ConnectToGameServer_def format_addr_ok split: sum.split)

end
