(* ===== verification/GameClient.thy ===== *)
theory GameClient
  imports LoginClient
begin

text \<open>
  The game server half of \<open>internal/client/client.go\<close> up to the game loop: the encrypted channel
  (\<open>sendGS\<close>, \<open>recvGS\<close>), the handshake to the lobby, the starter character, the entry into the
  world, \<open>Logout\<close> and \<open>Close\<close>. The coin of \<open>rand.IntN(2)\<close> is an argument. The wait for the
  selected character is a loop over the packets that arrive; it ends because each one uses up
  part of the stream, or with the read error that ends the stream.
\<close>

section \<open>The encrypted channel\<close>

text \<open>\<open>c.gsCrypt.Encrypt(payload[:n])\<close>, where \<open>payload\<close> is the writer's payload area.\<close>

definition gs_encrypt :: "nat \<Rightarrow> ('k Client, unit) go" where
  "gs_encrypt n = andThen getS (\<lambda>c. case c_gsWriter c of
     None \<Rightarrow> throw Panic
   | Some w \<Rightarrow>
       (let area = drop HeaderSize (wbuf w) in
        if n > length area then throw Panic
        else (case GameCrypt_Encrypt (take n area) (c_gsCrypt c) of
          (enc, k) \<Rightarrow> modifyS (\<lambda>c. c\<lparr>c_gsCrypt := k,
            c_gsWriter := Some (w\<lparr>wbuf := write_at HeaderSize enc (wbuf w)\<rparr>)\<rparr>))))"

definition sendGS :: "nat \<Rightarrow> ('k Client, unit) go" where
  "sendGS n = andThen (gs_encrypt n) (\<lambda>_. gs_send n)"

definition recvGS :: "('k Client, byte list) go" where
  "recvGS = andThen gs_read (\<lambda>data.
     andThen getS (\<lambda>c. case GameCrypt_Decrypt data (c_gsCrypt c) of
       (data', k) \<Rightarrow> andThen (modifyS (\<lambda>c. c\<lparr>c_gsCrypt := k\<rparr>)) (\<lambda>_. ret data')))"

text \<open>
  The shape of every packet the client sends once the key is known:
  \<open>payload := Prepare(k); n := encode(payload); Encrypt(payload[:n]); Send(n)\<close>.
\<close>

definition gs_request :: "nat \<Rightarrow> (gslice, nat) go \<Rightarrow> ('k Client, unit) go" where
  "gs_request k encode = andThen (gs_payload k encode) (\<lambda>n. sendGS n)"

section \<open>The handshake\<close>

definition on_gsCrypt :: "(GameCrypt, 'a) go \<Rightarrow> ('k Client, 'a) go" where
  "on_gsCrypt m = (\<lambda>c. case m (c_gsCrypt c) of (r, k) \<Rightarrow> (r, c\<lparr>c_gsCrypt := k\<rparr>))"

definition HandshakeToLobby :: "('k Client, CharSelectionInfo) go" where
  "HandshakeToLobby = andThen getS (\<lambda>c.
     if c_State c \<noteq> StateGSConnected then throw (Error ''must be connected to GS'')
     else
       andThen (gs_payload 5 (EncodeProtocolVersionTo 140)) (\<lambda>_.
       andThen (gs_send 5) (\<lambda>_.
       andThen gs_read (\<lambda>data.
       andThen (liftR (DecodeGSKeyPacket data)) (\<lambda>key.
       andThen (on_gsCrypt (GameCrypt_Init key)) (\<lambda>_.
       andThen (modifyS (\<lambda>c. c\<lparr>c_State := StateGSHandshake\<rparr>)) (\<lambda>_.
       andThen (gs_request (1 + length (c_account c) * 2 + 2 + 16)
         (EncodeAuthLoginTo (c_account c) (c_playKey1 c) (c_playKey2 c) (c_loginKey1 c) (c_loginKey2 c))) (\<lambda>_.
       andThen recvGS (\<lambda>data.
       andThen (liftR (idx data 0)) (\<lambda>op.
       if op \<noteq> OpGSLoginResult
       then throw (Error (''unexpected login result opcode 0x'' @ format_hex (uint op) @ '' (len '' @
         itoa (int (length data)) @ '')''))
       else
         andThen recvGS (\<lambda>data.
         andThen (liftR (idx data 0)) (\<lambda>op.
         if op \<noteq> OpGSCharSelectionInfo
         then throw (Error (''failed to enter lobby: got opcode 0x'' @ format_hex (uint op)))
         else liftR (DecodeCharSelectionInfo data)))))))))))))"

section \<open>The starter character\<close>

definition is_alnum :: "char \<Rightarrow> bool" where
  "is_alnum ch = (let b = byte_of_char ch in
     (b \<ge> byte_of_char (CHR ''a'') \<and> b \<le> byte_of_char (CHR ''z'')) \<or>
     (b \<ge> byte_of_char (CHR ''A'') \<and> b \<le> byte_of_char (CHR ''Z'')) \<or>
     (b \<ge> byte_of_char (CHR ''0'') \<and> b \<le> byte_of_char (CHR ''9'')))"

definition starter_name :: "string \<Rightarrow> string" where
  "starter_name account =
     (let validName = filter is_alnum account
      in if length validName = 0 \<or> length validName > 16 then ''BotTestPlayer'' else validName)"

definition createStarterCharacter :: "nat \<Rightarrow> ('k Client, unit) go" where
  "createStarterCharacter coin = andThen getS (\<lambda>c.
     let classID = (if coin = 1 then 10 else 0) in
     andThen (gs_request 100 (EncodeGSCharacterCreateTo (starter_name (c_account c)) 0 False classID 0 0 0)) (\<lambda>_.
     andThen recvGS (\<lambda>data.
     andThen (liftR (idx data 0)) (\<lambda>op.
     if op = OpGSCharCreateFail then throw (Error ''character creation failed'')
     else if op = OpGSCharCreateSuccess then ret ()
     else throw (Error ''unexpected character create response opcode'')))))"

section \<open>Entering the world\<close>

lemma Reader_Read_consumes:
  assumes "Reader_Read (r, k) = (Inr data, (r', k'))"
  shows "length (rx k') + 2 \<le> length (rx k)"
proof -
  obtain r1 k1 where f1: "fill HeaderSize (r, k) = (Inr (), (r1, k1))"
    and rest: "andThen getS (\<lambda>(r, _).
     let sz = le16_val (rbuf r ! 0) (rbuf r ! 1) in
     if sz < of_nat HeaderSize then throw (Error ''invalid packet size'')
     else let payloadSize = unat (sz - of_nat HeaderSize) in
     andThen (if payloadSize > 0 then fill payloadSize else ret ()) (\<lambda>_.
     andThen getS (\<lambda>(r, _). ret (take payloadSize (rbuf r))))) (r1, k1) = (Inr data, (r', k'))"
    using assms unfolding Reader_Read_def by (elim andThen_InrE) auto
  have step: "length (rx (snd (snd (fill n (r, k))))) \<le> length (rx k)" for n r k
    by (auto simp: fill_def readFull_def split: prod.splits)
  have "length (rx k1) + 2 \<le> length (rx k)"
    using f1 by (auto simp: fill_def readFull_def HeaderSize_def split: prod.splits if_splits)
  moreover have "length (rx k') \<le> length (rx k1)"
    using rest step [of _ r1 k1]
    by (auto simp: Let_def split: if_splits elim!: andThen_InrE) (metis snd_conv)
  ultimately show ?thesis by linarith
qed

lemma recvGS_Inr:
  assumes "recvGS c = (Inr d, t)"
  obtains r r' s' data k where "c_gsReader c = Some r"
    and "Reader_Read (r, gs_sock c) = (Inr data, (r', s'))"
    and "GameCrypt_Decrypt data (c_gsCrypt c) = (d, k)"
    and "t = c\<lparr>c_gsReader := Some r', gs_sock := s', c_gsCrypt := k\<rparr>"
  using assms unfolding recvGS_def
  by (auto elim!: andThen_InrE gs_read_Inr split: prod.splits)

lemma recvGS_consumes:
  "recvGS c = (Inr d, t) \<Longrightarrow> length (rx (gs_sock t)) < length (rx (gs_sock c))"
  by (erule recvGS_Inr) (drule Reader_Read_consumes, simp)

text \<open>The loop that waits for the selected character, dropping every other packet.\<close>

function awaitCharSelected :: "'k Client \<Rightarrow> unit res \<times> 'k Client" where
  "awaitCharSelected c = (case recvGS c of
     (Inl e, t) \<Rightarrow> (Inl e, t)
   | (Inr data, t) \<Rightarrow> (case idx data 0 of
       Inl e \<Rightarrow> (Inl e, t)
     | Inr op \<Rightarrow>
         if op = OpGSCharSelected
         then (case DecodeCharSelected data of
             Inl Panic \<Rightarrow> (Inl Panic, t)
           | Inl (Error _) \<Rightarrow> (Inr (), t)
           | Inr (objID, classID, px, py, pz) \<Rightarrow>
               (Inr (), t\<lparr>c_objectID := objID, c_classID := classID, c_x := px, c_y := py, c_z := pz\<rparr>))
         else awaitCharSelected t))"
  by pat_completeness auto
termination
  by (relation "measure (\<lambda>c. length (rx (gs_sock c)))") (auto intro: recvGS_consumes [OF sym])

declare awaitCharSelected.simps [simp del]

definition AuthGameServer :: "nat \<Rightarrow> ('k Client, unit) go" where
  "AuthGameServer coin =
     andThen HandshakeToLobby (\<lambda>charInfo.
     andThen (if CharacterCount charInfo = 0 then createStarterCharacter coin else ret ()) (\<lambda>_.
     andThen (gs_request 30 (EncodeGSCharacterSelectTo 0)) (\<lambda>_.
     andThen awaitCharSelected (\<lambda>_.
     andThen (gs_request 110 EncodeGSEnterWorldTo) (\<lambda>_.
     modifyS (\<lambda>c. c\<lparr>c_State := StateGSLoggedIn\<rparr>))))))"

section \<open>Leaving\<close>

definition Close :: "'k Client \<Rightarrow> 'k Client" where
  "Close c =
     (let c1 = (if c_conn c then c\<lparr>ls_sock := conn_close (ls_sock c)\<rparr> else c)
      in if c_gsConn c1 then c1\<lparr>gs_sock := conn_close (gs_sock c1)\<rparr> else c1)"

definition Logout :: "('k Client, unit) go" where
  "Logout = andThen getS (\<lambda>c.
     if c_State c \<noteq> StateGSLoggedIn then ret ()
     else
       andThen (gs_payload 1 (setB 0 OpGSLogout)) (\<lambda>_.
       andThen (gs_encrypt 1) (\<lambda>_.
       andThen (succeeds (gs_send 1)) (\<lambda>_. ret ()))))"

section \<open>The invariant in the game states\<close>

definition game_inv :: "'k Client \<Rightarrow> bool" where
  "game_inv c \<longleftrightarrow> client_inv c \<and> in_game (c_State c)"

lemma in_game_simps [simp]:
  "in_game StateGSConnected" "in_game StateGSHandshake" "in_game StateGSLoggedIn"
  "\<not> in_game StateDisconnected" "\<not> in_game StateConnected" "\<not> in_game StateInitialized"
  "\<not> in_game StateGGAuth" "\<not> in_game StateLoggedIn"
  by (simp_all add: in_game_def)

lemma game_invE:
  assumes "game_inv c"
  obtains r w where "c_gsReader c = Some r" and "wf_reader r" and "c_gsWriter c = Some w"
    and "wf_writer w" and "wf_crypt (c_gsCrypt c)"
  using assms unfolding game_inv_def client_inv_def wf_client_def
  by (cases "c_gsReader c"; cases "c_gsWriter c") simp_all

lemma client_inv_game [simp]:
  "client_inv c \<Longrightarrow> wf_reader r \<Longrightarrow> client_inv (c\<lparr>c_gsReader := Some r, gs_sock := s\<rparr>)"
  "client_inv c \<Longrightarrow> wf_writer w \<Longrightarrow> client_inv (c\<lparr>c_gsWriter := Some w, gs_sock := s\<rparr>)"
  "client_inv c \<Longrightarrow> wf_writer w \<Longrightarrow> client_inv (c\<lparr>c_gsWriter := Some w\<rparr>)"
  by (simp_all add: client_inv_def wf_client_def)

lemma client_inv_gsCrypt [simp]:
  "client_inv c \<Longrightarrow> wf_crypt k \<Longrightarrow> initd (c_gsCrypt c) \<longrightarrow> initd k \<Longrightarrow> client_inv (c\<lparr>c_gsCrypt := k\<rparr>)"
  by (auto simp: client_inv_def wf_client_def)

lemma client_inv_frame [simp]:
  "client_inv (c\<lparr>c_objectID := v\<rparr>) = client_inv c"
  "client_inv (c\<lparr>c_classID := v\<rparr>) = client_inv c"
  "client_inv (c\<lparr>c_x := v\<rparr>) = client_inv c"
  "client_inv (c\<lparr>c_y := v\<rparr>) = client_inv c"
  "client_inv (c\<lparr>c_z := v\<rparr>) = client_inv c"
  "client_inv (c\<lparr>c_inventory := its\<rparr>) = client_inv c"
  "client_inv (c\<lparr>c_npcs := ids\<rparr>) = client_inv c"
  "client_inv (c\<lparr>c_npcsNext := n\<rparr>) = client_inv c"
  "client_inv (c\<lparr>c_mp := v\<rparr>) = client_inv c"
  "client_inv (c\<lparr>c_maxMp := v\<rparr>) = client_inv c"
  "client_inv (c\<lparr>c_pendingAppear := b\<rparr>) = client_inv c"
  "client_inv (c\<lparr>c_converged := b\<rparr>) = client_inv c"
  "client_inv (c\<lparr>c_dead := b\<rparr>) = client_inv c"
  "client_inv (c\<lparr>c_attackChan := n\<rparr>) = client_inv c"
  "client_inv (c\<lparr>c_skillReady := f\<rparr>) = client_inv c"
  by (simp_all add: client_inv_def wf_client_def)

text \<open>\<open>gs_in Ss\<close>: the invariant, in one of the game states \<open>Ss\<close>.\<close>

definition gs_in :: "State set \<Rightarrow> 'k Client \<Rightarrow> bool" where
  "gs_in Ss c \<longleftrightarrow> game_inv c \<and> c_State c \<in> Ss"

lemma gs_in_set [simp]:
  "gs_in Ss c \<Longrightarrow> wf_reader r \<Longrightarrow> gs_in Ss (c\<lparr>c_gsReader := Some r, gs_sock := s\<rparr>)"
  "gs_in Ss c \<Longrightarrow> wf_writer w \<Longrightarrow> gs_in Ss (c\<lparr>c_gsWriter := Some w, gs_sock := s\<rparr>)"
  "gs_in Ss c \<Longrightarrow> wf_writer w \<Longrightarrow> gs_in Ss (c\<lparr>c_gsWriter := Some w\<rparr>)"
  "gs_in Ss c \<Longrightarrow> wf_crypt k \<Longrightarrow> initd (c_gsCrypt c) \<longrightarrow> initd k \<Longrightarrow> gs_in Ss (c\<lparr>c_gsCrypt := k\<rparr>)"
  by (simp_all add: gs_in_def game_inv_def)

lemma gs_inE:
  assumes "gs_in Ss c"
  obtains r w where "c_gsReader c = Some r" and "wf_reader r" and "c_gsWriter c = Some w"
    and "wf_writer w" and "wf_crypt (c_gsCrypt c)"
  using assms unfolding gs_in_def by (blast elim: game_invE)

lemma runs_gs_read [runs_rules]:
  "runs (gs_in Ss) (\<lambda>data. length data \<le> 65533) (gs_in Ss) gs_read"
proof -
  have "(case res of Inr data \<Rightarrow> length data \<le> 65533 | Inl e \<Rightarrow> e \<noteq> Panic) \<and> gs_in Ss t"
    if c: "gs_in Ss c" and m: "gs_read c = (res, t)" for c :: "'a Client" and res t
  proof -
    from c obtain r where r: "c_gsReader c = Some r" "wf_reader r" by (rule gs_inE)
    obtain res' r' s' where o: "Reader_Read (r, gs_sock c) = (res', (r', s'))" by (metis prod.exhaust)
    have "gs_read c = (res', c\<lparr>c_gsReader := Some r', gs_sock := s'\<rparr>)"
      using r(1) o by (simp add: gs_read_def via_def)
    then have eq: "res = res'" "t = c\<lparr>c_gsReader := Some r', gs_sock := s'\<rparr>" using m by simp_all
    note out = Reader_Read_outcome [OF o r(2)]
    then have "gs_in Ss t" using c eq by simp
    with out eq show ?thesis by (cases res') auto
  qed
  then show ?thesis by (intro runsI) fastforce+
qed

lemma runs_gs_send [runs_rules]:
  assumes "n \<le> 65533"
  shows "runs (gs_in Ss) (\<lambda>_. True) (gs_in Ss) (gs_send n)"
proof -
  have "r \<noteq> Inl Panic \<and> gs_in Ss t" if c: "gs_in Ss c" and m: "gs_send n c = (r, t)"
    for c :: "'a Client" and r t
  proof -
    from c obtain w where w: "c_gsWriter c = Some w" "wf_writer w" by (rule gs_inE)
    have n: "n + 2 \<le> 65535" using assms by simp
    obtain res w' s' where o: "Writer_Send n (w, gs_sock c) = (res, (w', s'))" by (metis prod.exhaust)
    have "gs_send n c = (res, c\<lparr>c_gsWriter := Some w', gs_sock := s'\<rparr>)"
      using w(1) o by (simp add: gs_send_def via_def)
    with m Writer_Send_no_panic [OF w(2) n o] Writer_Send_wf [OF o w(2)] c
    show ?thesis by auto
  qed
  then show ?thesis by (intro runsI) auto
qed

text \<open>\<open>e\<close> encodes into any buffer of \<open>k\<close> bytes and reports \<open>n\<close> bytes.\<close>

definition encoded :: "nat \<Rightarrow> (gslice, 'a) go \<Rightarrow> 'a \<Rightarrow> bool" where
  "encoded k e n \<longleftrightarrow> same_size e \<and> (\<forall>s. wf_slice s \<and> slen s = k \<longrightarrow> (\<exists>t. e s = (Inr n, t)))"

lemma runs_gs_payload [runs_rules]:
  assumes "encoded k e n" and "k \<le> 65533"
  shows "runs (gs_in Ss) (\<lambda>x. x = n) (gs_in Ss) (gs_payload k e)"
proof -
  have k: "k + 2 \<le> 65535" using assms(2) by simp
  have "r = Inr n \<and> gs_in Ss t" if c: "gs_in Ss c" and m: "gs_payload k e c = (r, t)"
    for c r t
  proof -
    from c obtain w where w: "c_gsWriter c = Some w" "wf_writer w" by (rule gs_inE)
    note prep = wf_prepared [OF w(2) k]
    obtain s' where e: "e (Writer_Prepare k w) = (Inr n, s')"
      using assms(1) prep unfolding encoded_def by (metis gslice.select_convs(2))
    then have op: "on_payload k e w = (Inr n, keep_payload s' w)" by (simp add: on_payload_def)
    have "wf_writer (keep_payload s' w)"
      using on_payload_wf [OF op w(2)] assms(1) by (simp add: encoded_def)
    moreover have "gs_payload k e c = (Inr n, c\<lparr>c_gsWriter := Some (keep_payload s' w)\<rparr>)"
      using w(1) op by (simp add: gs_payload_def via_def)
    ultimately show ?thesis using m c by auto
  qed
  then show ?thesis by (rule runs_value)
qed

lemma runs_gs_encrypt [runs_rules]:
  assumes "n \<le> 65533"
  shows "runs (gs_in Ss) (\<lambda>_. True) (gs_in Ss) (gs_encrypt n)"
proof -
  have "r = Inr () \<and> gs_in Ss t" if c: "gs_in Ss c" and m: "gs_encrypt n c = (r, t)"
    for c :: "'a Client" and r t
  proof -
    from c obtain w where w: "c_gsWriter c = Some w" "wf_writer w" and k: "wf_crypt (c_gsCrypt c)"
      by (rule gs_inE)
    let ?area = "drop HeaderSize (wbuf w)"
    obtain enc kk where e: "GameCrypt_Encrypt (take n ?area) (c_gsCrypt c) = (enc, kk)"
      by (metis prod.exhaust)
    have len: "length (wbuf w) = 65535" using w(2) by (simp add: wf_writer_def MaxPacketSize_def)
    have le: "length enc = n"
      using e GameCrypt_lengths(1) [of "take n ?area" "c_gsCrypt c"] len assms
      by (simp add: HeaderSize_def)
    have kk: "wf_crypt kk" "initd (c_gsCrypt c) \<longrightarrow> initd kk"
      using wf_crypt_preserved(2) [OF k, of "take n ?area"]
        GameCrypt_frame(3) [of "take n ?area" "c_gsCrypt c"] e by simp_all
    have w': "wf_writer (w\<lparr>wbuf := write_at HeaderSize enc (wbuf w)\<rparr>)"
      using len le assms by (simp add: wf_writer_def MaxPacketSize_def HeaderSize_def)
    have "gs_encrypt n c = (Inr (), c\<lparr>c_gsCrypt := kk,
        c_gsWriter := Some (w\<lparr>wbuf := write_at HeaderSize enc (wbuf w)\<rparr>)\<rparr>)"
      using w(1) e len assms by (simp add: gs_encrypt_def Let_def HeaderSize_def)
    moreover have "gs_in Ss (c\<lparr>c_gsCrypt := kk,
        c_gsWriter := Some (w\<lparr>wbuf := write_at HeaderSize enc (wbuf w)\<rparr>)\<rparr>)"
      by (rule gs_in_set(3) [OF gs_in_set(4) [OF c kk] w'])
    ultimately show ?thesis using m by simp
  qed
  then show ?thesis by (intro runs_weaken [OF runs_value]) auto
qed

lemma runs_sendGS [runs_rules]:
  "n \<le> 65533 \<Longrightarrow> runs (gs_in Ss) (\<lambda>_. True) (gs_in Ss) (sendGS n)"
  unfolding sendGS_def by (rule runs_andThen [OF runs_gs_encrypt runs_gs_send])

lemma runs_gs_request [runs_rules]:
  assumes "encoded k e n" and "k \<le> 65533" and "n \<le> 65533"
  shows "runs (gs_in Ss) (\<lambda>_. True) (gs_in Ss) (gs_request k e)"
  unfolding gs_request_def
  by (rule runs_andThen [OF runs_gs_payload [OF assms(1,2)]]) (use runs_sendGS assms(3) in blast)

lemma runs_recvGS [runs_rules]:
  "runs (gs_in Ss) (\<lambda>data. length data \<le> 65533) (gs_in Ss) recvGS"
proof -
  have dec: "runs (gs_in Ss) (\<lambda>d. length d \<le> 65533) (gs_in Ss) (andThen getS (\<lambda>c.
      case GameCrypt_Decrypt data (c_gsCrypt c) of
        (data', k) \<Rightarrow> andThen (modifyS (\<lambda>c. c\<lparr>c_gsCrypt := k\<rparr>)) (\<lambda>_. ret data')))"
    if "length data \<le> 65533" for data
    unfolding runs_def
  proof (intro allI impI)
    fix c
    assume c: "gs_in Ss c"
    from c have k: "wf_crypt (c_gsCrypt c)" by (rule gs_inE)
    obtain d kk where e: "GameCrypt_Decrypt data (c_gsCrypt c) = (d, kk)" by (metis prod.exhaust)
    then have "wf_crypt kk" "initd (c_gsCrypt c) \<longrightarrow> initd kk" "length d = length data"
      using wf_crypt_preserved(3) [OF k, of data] GameCrypt_frame(4) [of data "c_gsCrypt c"]
        GameCrypt_lengths(2) [of data "c_gsCrypt c"] by simp_all
    with c that e show "case andThen getS (\<lambda>c. case GameCrypt_Decrypt data (c_gsCrypt c) of
        (data', k) \<Rightarrow> andThen (modifyS (\<lambda>c. c\<lparr>c_gsCrypt := k\<rparr>)) (\<lambda>_. ret data')) c of
      (Inl e, t) \<Rightarrow> e \<noteq> Panic \<and> gs_in Ss t
    | (Inr x, t) \<Rightarrow> length x \<le> 65533 \<and> gs_in Ss t"
      by simp
  qed
  show ?thesis unfolding recvGS_def by (rule runs_andThen [OF runs_gs_read dec])
qed

section \<open>Sending a packet\<close>

text \<open>The client after sending the bytes \<open>bs\<close>, encrypted under its outgoing key.\<close>

definition after_send :: "byte list \<Rightarrow> Writer \<Rightarrow> 'k Client \<Rightarrow> 'k Client" where
  "after_send bs w c = c\<lparr>c_gsWriter := Some w,
     c_gsCrypt := snd (GameCrypt_Encrypt bs (c_gsCrypt c)),
     gs_sock := (gs_sock c)\<lparr>tx := tx (gs_sock c) @ frame (fst (GameCrypt_Encrypt bs (c_gsCrypt c))),
       writes_left := writes_left (gs_sock c) - 1\<rparr>\<rparr>"

definition gs_up :: "'k Client \<Rightarrow> bool" where
  "gs_up c \<longleftrightarrow> \<not> closed (gs_sock c) \<and> 0 < writes_left (gs_sock c)"

lemma sendGS_ok:
  assumes w: "c_gsWriter c = Some w" "wf_writer w" and up: "gs_up c" and n: "n \<le> 65533"
    and bs: "bs = take n (drop 2 (wbuf w))"
  shows "\<exists>w'. sendGS n c = (Inr (), after_send bs w' c) \<and> wf_writer w'"
proof -
  let ?k = "c_gsCrypt c"
  let ?enc = "fst (GameCrypt_Encrypt bs ?k)" and ?k' = "snd (GameCrypt_Encrypt bs ?k)"
  have len: "length (wbuf w) = 65535" using w(2) by (simp add: wf_writer_def MaxPacketSize_def)
  have lb: "length bs = n" and le: "length ?enc = n" using bs len n by simp_all
  let ?w1 = "w\<lparr>wbuf := write_at 2 ?enc (wbuf w)\<rparr>"
  have w1: "wf_writer ?w1" using len le n by (simp add: wf_writer_def MaxPacketSize_def)
  have d1: "take n (drop 2 (wbuf ?w1)) = ?enc" using len le n by (simp add: write_at_def)
  let ?c1 = "c\<lparr>c_gsCrypt := ?k', c_gsWriter := Some ?w1\<rparr>"
  have 1: "gs_encrypt n c = (Inr (), ?c1)"
    using w(1) len n bs by (simp add: gs_encrypt_def Let_def HeaderSize_def split: prod.split)
  obtain j where j: "writes_left (gs_sock c) = Suc j" using up by (cases "writes_left (gs_sock c)") (auto simp: gs_up_def)
  have n2: "n + 2 \<le> 65535" using n by simp
  have op: "\<not> closed (gs_sock c)" using up by (simp add: gs_up_def)
  from Writer_Send_ok [OF w1 n2 op j] d1 obtain w' where
    snd: "Writer_Send n (?w1, gs_sock c) = (Inr (), (w', (gs_sock c)\<lparr>
      tx := tx (gs_sock c) @ frame ?enc, writes_left := j\<rparr>))" and w': "wf_writer w'"
    by auto
  have "gs_send n ?c1 = (Inr (), ?c1\<lparr>c_gsWriter := Some w', gs_sock := (gs_sock c)\<lparr>
      tx := tx (gs_sock c) @ frame ?enc, writes_left := j\<rparr>\<rparr>)"
    using snd by (simp add: gs_send_def via_def)
  with 1 have "sendGS n c = (Inr (), ?c1\<lparr>c_gsWriter := Some w', gs_sock := (gs_sock c)\<lparr>
      tx := tx (gs_sock c) @ frame ?enc, writes_left := j\<rparr>\<rparr>)"
    by (simp add: sendGS_def andThen_def)
  also have "\<dots> = (Inr (), after_send bs w' c)"
    using j by (simp add: after_send_def)
  finally show ?thesis using w' by blast
qed

context packet_encoder
begin

lemma encoded_encode:
  "same_size (encode m) \<Longrightarrow> length (bytes m) \<le> k \<Longrightarrow> encoded k (encode m) (length (bytes m))"
  unfolding encoded_def by (auto simp: encode_ok)

lemma gs_request_ok:
  assumes "c_gsWriter c = Some w" and "wf_writer w" and "gs_up c"
    and "length (bytes m) \<le> k" and "k \<le> 65533"
  shows "\<exists>w'. gs_request k (encode m) c = (Inr (), after_send (bytes m) w' c) \<and> wf_writer w'"
proof -
  let ?n = "length (bytes m)"
  have k2: "k + 2 \<le> 65535" using assms(5) by simp
  note prep = wf_prepared [OF assms(2) k2]
  let ?mem = "bytes m @ drop ?n (drop 2 (wbuf w))"
  let ?s = "\<lparr>mem = ?mem, slen = k\<rparr>"
  have enc: "encode m (Writer_Prepare k w) = (Inr ?n, ?s)"
    using encode_ok [OF prep(2), of m] assms(4) prep(1) by simp
  have lm: "length (mem ?s) = 65533"
    using assms(2,4,5) by (simp add: wf_writer_def MaxPacketSize_def)
  note kp = keep_payload_drop [OF assms(2) lm]
  let ?c1 = "c\<lparr>c_gsWriter := Some (keep_payload ?s w)\<rparr>"
  have 1: "gs_payload k (encode m) c = (Inr ?n, ?c1)"
    using assms(1) enc by (simp add: gs_payload_def via_def on_payload_def)
  have up: "gs_up ?c1" using assms(3) by (simp add: gs_up_def)
  have "?n \<le> 65533" using assms(4,5) by simp
  from sendGS_ok [OF _ kp(2) up this refl, unfolded kp(1)]
  obtain w' where "sendGS ?n ?c1 = (Inr (), after_send (bytes m) w' ?c1)" and w': "wf_writer w'"
    by auto
  then have "gs_request k (encode m) c = (Inr (), after_send (bytes m) w' ?c1)"
    using 1 by (simp add: gs_request_def andThen_def)
  then show ?thesis using w' by (auto simp: after_send_def)
qed

end

text \<open>The encoders at the sizes the client prepares.\<close>

lemma encoded_gs:
  "length acc \<le> 32757 \<Longrightarrow> encoded (1 + length acc * 2 + 2 + 16) (EncodeAuthLoginTo acc k1 k2 k3 k4) (2 * length acc + 19)"
  "length name \<le> 24 \<Longrightarrow> encoded 100 (EncodeGSCharacterCreateTo name r f cl st co fa) (2 * length name + 51)"
  "encoded 30 (EncodeGSCharacterSelectTo slot) 19"
  "encoded 16 (EncodeGSCharacterDeleteTo slot) 5"
  "encoded 16 (EncodeGSCharacterRestoreTo slot) 5"
  "encoded 110 EncodeGSEnterWorldTo 105"
  "encoded 30 (EncodeGSMoveToLocationTo a b d e g h) 29"
  "encoded 30 (EncodeGSValidatePositionTo a b d e) 21"
  "encoded 15 (EncodeGSRequestActionUseTo a ct sh) 10"
  "encoded 15 (EncodeGSUseItemTo u ct) 9"
  "encoded 20 (EncodeGSActionTo u a b d o') 18"
  "encoded 20 (EncodeGSAttackRequestTo u a b d o') 18"
  "length txt \<le> 124 \<Longrightarrow> encoded 256 (EncodeGSSay2To txt ch) (2 * length txt + 7)"
  "encoded 4 EncodeGSAppearingTo 1"
  using enc_auth.encoded_encode [of "(acc, k1, k2, k3, k4)" "1 + length acc * 2 + 2 + 16"]
    enc_create.encoded_encode [of "(name, r, f, cl, st, co, fa)" 100]
    enc_select.encoded_encode [of slot 30] enc_delete.encoded_encode [of slot 16]
    enc_restore.encoded_encode [of slot 16] enc_enterworld.encoded_encode [of "()" 110]
    enc_move.encoded_encode [of "(a, b, d, e, g, h)" 30] enc_validate.encoded_encode [of "(a, b, d, e)" 30]
    enc_actionuse.encoded_encode [of "(a, ct, sh)" 15] enc_useitem.encoded_encode [of "(u, ct)" 15]
    enc_action.encoded_encode [of "(u, a, b, d, o')" 20] enc_attack.encoded_encode [of "(u, a, b, d, o')" 20]
    enc_say2.encoded_encode [of "(txt, ch)" 256] enc_appearing.encoded_encode [of "()" 4]
  by (simp_all add: same_size_encoders)

lemma encoded_skill: "encoded 15 (EncodeGSRequestMagicSkillUseTo i ct sh) 13"
  by (auto simp: encoded_def EncodeGSRequestMagicSkillUseTo_ok intro: same_size_encoders)

section \<open>Every operation keeps the invariant, even when it panics\<close>

lemma goes_gs_payload:
  assumes "same_size e"
  shows "goes True (gs_in Ss) (\<lambda>_. True) (gs_in Ss) (gs_payload k e)"
proof -
  have "gs_in Ss t" if c: "gs_in Ss c" and m: "gs_payload k e c = (r, t)" for c r t
  proof -
    from c obtain w where w: "c_gsWriter c = Some w" "wf_writer w" by (rule gs_inE)
    obtain res w' where op: "on_payload k e w = (res, w')" by (metis prod.exhaust)
    have "gs_payload k e c = (res, c\<lparr>c_gsWriter := Some w'\<rparr>)"
      using w(1) op by (simp add: gs_payload_def via_def)
    with m c on_payload_wf [OF op w(2) assms] show ?thesis by auto
  qed
  then show ?thesis by (intro goesI) blast+
qed

lemma goes_gs_send: "goes True (gs_in Ss) (\<lambda>_. True) (gs_in Ss) (gs_send n)"
proof -
  have "gs_in Ss t" if c: "gs_in Ss c" and m: "gs_send n c = (r, t)" for c r t
  proof -
    from c obtain w where w: "c_gsWriter c = Some w" "wf_writer w" by (rule gs_inE)
    obtain res w' s' where o: "Writer_Send n (w, gs_sock c) = (res, (w', s'))" by (metis prod.exhaust)
    have "gs_send n c = (res, c\<lparr>c_gsWriter := Some w', gs_sock := s'\<rparr>)"
      using w(1) o by (simp add: gs_send_def via_def)
    with m c Writer_Send_wf [OF o w(2)] show ?thesis by auto
  qed
  then show ?thesis by (intro goesI) blast+
qed

lemma goes_gs_encrypt:
  "goes True (gs_in Ss) (\<lambda>_. True) (gs_in Ss) (gs_encrypt n :: ('k Client, unit) go)"
proof (cases "n \<le> 65533")
  case True
  then show ?thesis by (rule goes_True [OF runs_gs_encrypt])
next
  case False
  have "gs_encrypt n c = (Inl Panic, c)" if "gs_in Ss c" for c :: "'k Client"
  proof -
    from that obtain w where "c_gsWriter c = Some w" "wf_writer w" by (rule gs_inE)
    with False show ?thesis
      by (simp add: gs_encrypt_def wf_writer_def MaxPacketSize_def HeaderSize_def)
  qed
  then show ?thesis by (intro goesI) simp_all
qed

lemma goes_gs_request: "same_size e \<Longrightarrow> goes True (gs_in Ss) (\<lambda>_. True) (gs_in Ss) (gs_request k e)"
  unfolding gs_request_def sendGS_def
  by (rule runs_andThen [OF goes_gs_payload] runs_andThen [OF goes_gs_encrypt] goes_gs_send
      | assumption)+

lemmas goes_gs = goes_gs_request goes_gs_send goes_gs_payload
  goes_True [OF runs_gs_read] goes_True [OF runs_recvGS] goes_liftR

lemma goes_Init:
  "goes True (gs_in Ss) (\<lambda>_. True) (\<lambda>c. gs_in Ss c \<and> initd (c_gsCrypt c)) (on_gsCrypt (GameCrypt_Init key))"
proof (rule goesI)
  fix c :: "'a Client" and x t
  assume c: "gs_in Ss c" and m: "on_gsCrypt (GameCrypt_Init key) c = (Inr x, t)"
  from c have k: "wf_crypt (c_gsCrypt c)" by (rule gs_inE)
  have "8 \<le> length key"
    using m by (auto simp: on_gsCrypt_def GameCrypt_Init_def split: if_splits prod.splits)
  from GameCrypt_Init_ok [OF k this] m c
  show "True \<and> gs_in Ss t \<and> initd (c_gsCrypt t)" by (auto simp: on_gsCrypt_def)
next
  fix c :: "'a Client" and e t
  assume c: "gs_in Ss c" and m: "on_gsCrypt (GameCrypt_Init key) c = (Inl e, t)"
  then have "t = c"
    by (auto simp: on_gsCrypt_def GameCrypt_Init_def Let_def split: if_splits prod.splits)
  with c show "(e = Panic \<longrightarrow> True) \<and> gs_in Ss t" by simp
qed

lemma goes_HandshakeToLobby:
  "goes True (gs_in {StateGSConnected, StateGSHandshake}) (\<lambda>_. True) (gs_in {StateGSHandshake})
     (HandshakeToLobby :: ('k Client, CharSelectionInfo) go)"
proof -
  let ?J = "gs_in {StateGSConnected, StateGSHandshake} :: 'k Client \<Rightarrow> bool"
  have weak: "gs_in {StateGSHandshake} s \<Longrightarrow> ?J s \<and> initd (c_gsCrypt s)" for s
    by (simp add: gs_in_def game_inv_def client_inv_def)
  have set_state: "goes True (\<lambda>c. ?J c \<and> initd (c_gsCrypt c)) (\<lambda>_. True) (gs_in {StateGSHandshake})
      (modifyS (\<lambda>c. c\<lparr>c_State := StateGSHandshake\<rparr>))"
    by (rule runs_modifyS) (auto simp: gs_in_def game_inv_def client_inv_def wf_client_def)
  have err: "goes True J (\<lambda>_. True) K (throw (Error m))" for J K :: "'k Client \<Rightarrow> bool" and m
    by (rule runs_basic)
  show ?thesis
    unfolding HandshakeToLobby_def
    by (rule runs_read err runs_if goes_seq [OF goes_Init] goes_seq [OF set_state]
        runs_andThen [OF goes_gs(1)] runs_andThen [OF goes_gs(2)] runs_andThen [OF goes_gs(3)]
        runs_andThen [OF goes_gs(4)] runs_andThen [OF goes_gs(5)] runs_andThen [OF goes_liftR]
        runs_weaken [OF goes_liftR] same_size_encoders
        | simp add: weak; fail)+
qed

lemma starter_name_ok:
  "0 < length (starter_name acc) \<and> length (starter_name acc) \<le> 16 \<and>
   list_all is_alnum (starter_name acc)"
proof -
  have "list_all is_alnum ''BotTestPlayer''"
    by (simp add: is_alnum_def byte_of_char_def)
  moreover have "list_all is_alnum (filter is_alnum acc)" by (simp add: list_all_iff)
  ultimately show ?thesis by (simp add: starter_name_def Let_def)
qed

lemma goes_createStarter:
  "goes True (gs_in Ss) (\<lambda>_. True) (gs_in Ss) (createStarterCharacter coin :: ('k Client, unit) go)"
proof -
  have err: "goes True J (\<lambda>_. True) K (throw (Error m))" for J K :: "'k Client \<Rightarrow> bool" and m
    by (rule runs_basic)
  have stop: "goes True J (\<lambda>_. True) J (ret ())" for J :: "'k Client \<Rightarrow> bool"
    by (simp add: goes_def)
  show ?thesis
    unfolding createStarterCharacter_def Let_def
    by (rule runs_read err stop runs_if runs_andThen [OF goes_gs(1)] runs_andThen [OF goes_gs(5)]
        runs_andThen [OF goes_liftR] same_size_encoders)+
qed

lemma goes_await: "goes True (gs_in Ss) (\<lambda>_. True) (gs_in Ss) awaitCharSelected"
proof -
  have "gs_in Ss c \<Longrightarrow> awaitCharSelected c = (r, u) \<Longrightarrow> gs_in Ss u" for c r u
  proof (induction c arbitrary: r u rule: awaitCharSelected.induct)
    case (1 c)
    obtain res t where rc: "recvGS c = (res, t)" by (metis prod.exhaust)
    have t: "gs_in Ss t"
      using rc "1.prems"(1) by (cases res) (auto dest: goes_Inr [OF runs_recvGS] goes_Inl [OF runs_recvGS])
    have upd: "gs_in Ss (t\<lparr>c_objectID := a, c_classID := b, c_x := d, c_y := e, c_z := f\<rparr>)"
      for a b d e f
      using t by (simp add: gs_in_def game_inv_def)
    show ?case
    proof (cases res)
      case (Inl e)
      with "1.prems"(2) rc t show ?thesis by (subst (asm) awaitCharSelected.simps) simp
    next
      case (Inr data)
      show ?thesis
      proof (cases "idx data 0 = Inr OpGSCharSelected \<or> idx data 0 = Inl Panic")
        case True
        then show ?thesis using "1.prems"(2) rc Inr t upd
          by (subst (asm) awaitCharSelected.simps) (auto split: sum.splits fault.splits)
      next
        case False
        then obtain op where op: "idx data 0 = Inr op" "op \<noteq> OpGSCharSelected"
          by (auto simp: idx_def split: if_splits)
        then have "awaitCharSelected t = (r, u)"
          using "1.prems"(2) rc Inr by (subst (asm) awaitCharSelected.simps) simp
        with "1.IH" [OF rc [symmetric] Inr op(1) op(2) t] show ?thesis by simp
      qed
    qed
  qed
  then show ?thesis by (intro goesI) blast+
qed

lemma goes_AuthGameServer:
  "goes True (gs_in {StateGSConnected, StateGSHandshake}) (\<lambda>_. True) (gs_in {StateGSLoggedIn})
     (AuthGameServer coin :: ('k Client, unit) go)"
proof -
  have stop: "goes True J (\<lambda>_. True) J (ret ())" for J :: "'k Client \<Rightarrow> bool"
    by (simp add: goes_def)
  have fin: "goes True (gs_in {StateGSHandshake}) (\<lambda>_. True) (gs_in {StateGSLoggedIn})
      (modifyS (\<lambda>c :: 'k Client. c\<lparr>c_State := StateGSLoggedIn\<rparr>))"
    by (rule runs_modifyS) (auto simp: gs_in_def game_inv_def client_inv_def wf_client_def)
  show ?thesis
    unfolding AuthGameServer_def
    by (rule goes_seq [OF goes_HandshakeToLobby] runs_andThen [where \<phi> = "\<lambda>_. True"] runs_if goes_createStarter stop
        goes_gs_request goes_await fin same_size_encoders
        | simp add: gs_in_def; fail)+
qed

section \<open>Receiving a packet\<close>

lemma gs_read_ok:
  assumes "c_gsReader c = Some r" and "wf_reader r" and "\<not> closed (gs_sock c)"
    and "rx (gs_sock c) = frame data @ rest" and "length data \<le> 65533"
  shows "\<exists>r'. gs_read c = (Inr data, c\<lparr>c_gsReader := Some r', gs_sock := (gs_sock c)\<lparr>rx := rest\<rparr>\<rparr>) \<and>
    wf_reader r'"
proof -
  have "length data + 2 \<le> 65535" using assms(5) by simp
  from Reader_Read_ok [OF assms(2,3,4) this] assms(1) show ?thesis
    by (auto simp: gs_read_def via_def)
qed

lemma recvGS_ok:
  assumes "c_gsReader c = Some r" and "wf_reader r" and "\<not> closed (gs_sock c)"
    and "rx (gs_sock c) = frame data @ rest" and "length data \<le> 65533"
    and "GameCrypt_Decrypt data (c_gsCrypt c) = (d, k)"
  shows "\<exists>r'. recvGS c = (Inr d, c\<lparr>c_gsReader := Some r', gs_sock := (gs_sock c)\<lparr>rx := rest\<rparr>,
    c_gsCrypt := k\<rparr>) \<and> wf_reader r'"
  using gs_read_ok [OF assms(1-5)] assms(6) by (auto simp: recvGS_def andThen_def)

section \<open>The game channel\<close>

text \<open>
  Sending raw bytes the way every packet is sent, for the contract between the two ends. The
  receiving end is the same \<open>recvGS\<close>, with the two keys exchanged.
\<close>

definition raw_encode :: "byte list \<Rightarrow> (gslice, nat) go" where
  "raw_encode m = andThen (copy_into m) (\<lambda>_. ret (length m))"

interpretation enc_raw: packet_encoder raw_encode "\<lambda>m. m"
  by unfold_locales (use writes_copy_into in \<open>auto simp: raw_encode_def writes_def andThen_def\<close>)

definition gs_push :: "byte list \<Rightarrow> ('k Client, unit) go" where
  "gs_push m = gs_request (length m) (raw_encode m)"

definition gs_sync :: "'k Client \<Rightarrow> 'l Client \<Rightarrow> bool" where
  "gs_sync w r \<longleftrightarrow> pred_option wf_writer (c_gsWriter w) \<and> c_gsWriter w \<noteq> None \<and>
     pred_option wf_reader (c_gsReader r) \<and> c_gsReader r \<noteq> None \<and> \<not> closed (gs_sock r) \<and>
     keys_agree (c_gsCrypt w) (c_gsCrypt r)"

lemma sendGS_Inr:
  assumes "sendGS n c = (Inr (), t)" and "c_gsWriter c = Some w" and "wf_writer w"
  shows "gs_up c" and "n \<le> 65533"
proof -
  have len: "length (wbuf w) = 65535" using assms(3) by (simp add: wf_writer_def MaxPacketSize_def)
  obtain u where e: "gs_encrypt n c = (Inr (), u)" and s: "gs_send n u = (Inr (), t)"
    using assms(1) by (auto simp: sendGS_def elim!: andThen_InrE)
  show n: "n \<le> 65533"
    using e assms(2) len by (auto simp: gs_encrypt_def HeaderSize_def Let_def split: if_splits)
  obtain enc kk where ee: "GameCrypt_Encrypt (take n (drop 2 (wbuf w))) (c_gsCrypt c) = (enc, kk)"
    by (metis prod.exhaust)
  let ?w1 = "w\<lparr>wbuf := write_at 2 enc (wbuf w)\<rparr>"
  have le: "length enc = n"
    using GameCrypt_lengths(1) [of "take n (drop 2 (wbuf w))" "c_gsCrypt c"] ee len n by simp
  have u: "u = c\<lparr>c_gsCrypt := kk, c_gsWriter := Some ?w1\<rparr>"
    using e assms(2) len n ee by (simp add: gs_encrypt_def HeaderSize_def)
  have w1: "c_gsWriter u = Some ?w1" "wf_writer ?w1" and sock: "gs_sock u = gs_sock c"
    using len n le by (simp_all add: u wf_writer_def MaxPacketSize_def)
  obtain r w2 k2 where ws: "Writer_Send n (?w1, gs_sock u) = (r, (w2, k2))" by (metis prod.exhaust)
  then have "r = Inr ()" using s w1(1) by (simp add: gs_send_def via_def)
  with ws have "Writer_Send n (?w1, gs_sock u) = (Inr (), (w2, k2))" by simp
  from Writer_Send_success(1,2) [OF this w1(2)] n sock show "gs_up c"
    by (auto simp: gs_up_def)
qed

lemma gs_push_Inr:
  assumes "gs_push m w = (Inr (), w')" and "c_gsWriter w = Some pw" and "wf_writer pw"
  shows "length m \<le> 65533 \<and> (\<exists>pw'. w' = after_send m pw' w \<and> wf_writer pw')"
proof -
  obtain u n where p: "gs_payload (length m) (raw_encode m) w = (Inr n, u)"
    and s: "sendGS n u = (Inr (), w')"
    using assms(1) by (auto simp: gs_push_def gs_request_def elim!: andThen_InrE)
  obtain pu where op: "on_payload (length m) (raw_encode m) pw = (Inr n, pu)"
    and u: "u = w\<lparr>c_gsWriter := Some pu\<rparr>"
    using p assms(2) by (auto simp: gs_payload_def via_def split: prod.splits)
  have n: "n = length m"
    using op by (auto simp: on_payload_def raw_encode_def copy_into_def andThen_def split: prod.splits)
  have "same_size (raw_encode m)"
    unfolding raw_encode_def
    by (intro size_rules) (use fits_copy_into in \<open>auto simp: fits_def\<close>)
  then have pu: "wf_writer pu" using on_payload_wf [OF op assms(3)] by simp
  have cu: "c_gsWriter u = Some pu" by (simp add: u)
  from sendGS_Inr [OF s cu pu] have up: "gs_up w" and len: "length m \<le> 65533"
    by (auto simp: u n gs_up_def)
  from enc_raw.gs_request_ok [OF assms(2,3) up, of m "length m"] len obtain pw' where
    "gs_push m w = (Inr (), after_send m pw' w)" "wf_writer pw'"
    by (auto simp: gs_push_def)
  with assms(1) len show ?thesis by auto
qed

interpretation gs: packet_channel "gs_push :: byte list \<Rightarrow> ('k Client, unit) go"
  "recvGS :: ('l Client, byte list) go" "\<lambda>w. tx (gs_sock w)" "\<lambda>r. rx (gs_sock r)" gs_sync
proof unfold_locales
  fix m :: "byte list" and w w' :: "'k Client" and r0 :: "'l Client"
  assume send: "gs_push m w = (Inr (), w')" and sync: "gs_sync w r0"
  then obtain pw where pw: "c_gsWriter w = Some pw" "wf_writer pw" by (auto simp: gs_sync_def)
  from gs_push_Inr [OF send pw] obtain pw' where len: "length m \<le> 65533"
    and w': "w' = after_send m pw' w" "wf_writer pw'" by blast
  let ?enc = "fst (GameCrypt_Encrypt m (c_gsCrypt w))"
  have "\<exists>r'. recvGS r = (Inr m, r') \<and> rx (gs_sock r') = rest \<and> gs_sync w' r'"
    if r: "gs_sync w r" "rx (gs_sock r) = frame ?enc @ rest" for r :: "'l Client" and rest
  proof -
    obtain pr where pr: "c_gsReader r = Some pr" "wf_reader pr" and op: "\<not> closed (gs_sock r)"
      and agree: "keys_agree (c_gsCrypt w) (c_gsCrypt r)"
      using r(1) by (auto simp: gs_sync_def)
    let ?k = "snd (GameCrypt_Decrypt ?enc (c_gsCrypt r))"
    have dec: "GameCrypt_Decrypt ?enc (c_gsCrypt r) = (m, ?k)"
      using gs_cipher.decrypt_encrypt [OF agree, of m] by (metis prod.collapse)
    have "length ?enc \<le> 65533" using len by simp
    from recvGS_ok [OF pr op r(2) this dec] obtain pr' where
      "recvGS r = (Inr m, r\<lparr>c_gsReader := Some pr', gs_sock := (gs_sock r)\<lparr>rx := rest\<rparr>, c_gsCrypt := ?k\<rparr>)"
      and "wf_reader pr'" by blast
    moreover have "keys_agree (snd (GameCrypt_Encrypt m (c_gsCrypt w))) ?k"
      using gs_cipher.agree_step [OF agree] by simp
    ultimately show ?thesis using w' op by (simp add: gs_sync_def after_send_def)
  qed
  then show "\<exists>bs. tx (gs_sock w') = tx (gs_sock w) @ bs \<and>
      (\<forall>(r :: 'l Client) rest. gs_sync w r \<and> rx (gs_sock r) = bs @ rest \<longrightarrow>
        (\<exists>r'. recvGS r = (Inr m, r') \<and> rx (gs_sock r') = rest \<and> gs_sync w' r'))"
    by (intro exI [of _ "frame ?enc"]) (simp add: w' after_send_def)
next
  fix w :: "'k Client" and r :: "'l Client" and bs
  assume "gs_sync w r"
  then have "gs_sync w (r\<lparr>gs_sock := (gs_sock r)\<lparr>rx := bs\<rparr>\<rparr>)" by (simp add: gs_sync_def)
  moreover have "rx (gs_sock (r\<lparr>gs_sock := (gs_sock r)\<lparr>rx := bs\<rparr>\<rparr>)) = bs" by simp
  ultimately show "\<exists>r' :: 'l Client. gs_sync w r' \<and> rx (gs_sock r') = bs" by blast
qed

section \<open>The handshake, step by step\<close>

lemma version_request_ok:
  assumes "c_gsWriter c = Some w" and "wf_writer w" and "gs_up c"
  shows "\<exists>w'. andThen (gs_payload 5 (EncodeProtocolVersionTo v)) (\<lambda>_. gs_send 5) c =
    (Inr (), c\<lparr>c_gsWriter := Some w', gs_sock := (gs_sock c)\<lparr>
      tx := tx (gs_sock c) @ frame (version_bytes v), writes_left := writes_left (gs_sock c) - 1\<rparr>\<rparr>) \<and>
    wf_writer w'"
proof -
  note prep = wf_prepared [OF assms(2), of 5, simplified]
  let ?mem = "version_bytes v @ drop 5 (drop 2 (wbuf w))"
  let ?s = "\<lparr>mem = ?mem, slen = 5\<rparr>"
  have enc: "EncodeProtocolVersionTo v (Writer_Prepare 5 w) = (Inr (), ?s)"
    using fills_start [OF fills_version prep(2), of v] prep(1) by simp
  have lm: "length (mem ?s) = 65533"
    using assms(2) by (simp add: wf_writer_def MaxPacketSize_def)
  note kp = keep_payload_drop [OF assms(2) lm]
  let ?c1 = "c\<lparr>c_gsWriter := Some (keep_payload ?s w)\<rparr>"
  have 1: "gs_payload 5 (EncodeProtocolVersionTo v) c = (Inr (), ?c1)"
    using assms(1) enc by (simp add: gs_payload_def via_def on_payload_def)
  obtain j where j: "writes_left (gs_sock c) = Suc j" and op: "\<not> closed (gs_sock c)"
    using assms(3) by (cases "writes_left (gs_sock c)") (auto simp: gs_up_def)
  have "take 5 (drop 2 (wbuf (keep_payload ?s w))) = version_bytes v"
    unfolding kp(1) by simp
  with Writer_Send_ok [OF kp(2) _ op j, of 5] obtain w' where
    snd: "Writer_Send 5 (keep_payload ?s w, gs_sock c) = (Inr (), (w', (gs_sock c)\<lparr>
      tx := tx (gs_sock c) @ frame (version_bytes v), writes_left := j\<rparr>))" and w': "wf_writer w'"
    by auto
  have "gs_send 5 ?c1 = (Inr (), ?c1\<lparr>c_gsWriter := Some w', gs_sock := (gs_sock c)\<lparr>
      tx := tx (gs_sock c) @ frame (version_bytes v), writes_left := j\<rparr>\<rparr>)"
    using snd by (simp add: gs_send_def via_def)
  with 1 w' j show ?thesis by (auto simp: andThen_def)
qed

text \<open>Two packets in a row.\<close>

lemma recvGS_two:
  assumes "c_gsReader c = Some r" and "wf_reader r" and "\<not> closed (gs_sock c)"
    and "rx (gs_sock c) = frame ct1 @ frame ct2 @ rest" and "length ct1 \<le> 65533" and "length ct2 \<le> 65533"
    and "GameCrypt_Decrypt ct1 (c_gsCrypt c) = (d1, k2)" and "GameCrypt_Decrypt ct2 k2 = (d2, k3)"
  shows "\<exists>c5 c6. recvGS c = (Inr d1, c5) \<and> recvGS c5 = (Inr d2, c6) \<and>
    c_State c5 = c_State c \<and> tx (gs_sock c5) = tx (gs_sock c) \<and>
    c_State c6 = c_State c \<and> tx (gs_sock c6) = tx (gs_sock c)"
proof -
  from recvGS_ok [OF assms(1-5,7)] obtain r5 where
    5: "recvGS c = (Inr d1, c\<lparr>c_gsReader := Some r5, gs_sock := (gs_sock c)\<lparr>rx := frame ct2 @ rest\<rparr>,
      c_gsCrypt := k2\<rparr>)" (is "_ = (Inr d1, ?c5)") and r5: "wf_reader r5" by blast
  have c5: "c_gsReader ?c5 = Some r5" "\<not> closed (gs_sock ?c5)" "rx (gs_sock ?c5) = frame ct2 @ rest"
    "c_gsCrypt ?c5 = k2"
    using assms(3) by simp_all
  from recvGS_ok [OF c5(1) r5 c5(2,3) assms(6), unfolded c5(4), OF assms(8)] obtain r6 where
    6: "recvGS ?c5 = (Inr d2, ?c5\<lparr>c_gsReader := Some r6, gs_sock := (gs_sock ?c5)\<lparr>rx := rest\<rparr>, c_gsCrypt := k3\<rparr>)"
    (is "_ = (Inr d2, ?c6)") by blast
  show ?thesis by (intro exI [of _ ?c5] exI [of _ ?c6] conjI 5 6) simp_all
qed

lemma HandshakeToLobby_steps:
  assumes "c_State c = StateGSConnected"
    and "andThen (gs_payload 5 (EncodeProtocolVersionTo 140)) (\<lambda>_. gs_send 5) c = (Inr (), c1)"
    and "gs_read c1 = (Inr kp, c2)" and "DecodeGSKeyPacket kp = Inr key"
    and "on_gsCrypt (GameCrypt_Init key) c2 = (Inr (), c3)"
    and "gs_request (1 + length (c_account c) * 2 + 2 + 16) (EncodeAuthLoginTo (c_account c)
      (c_playKey1 c) (c_playKey2 c) (c_loginKey1 c) (c_loginKey2 c)) (c3\<lparr>c_State := StateGSHandshake\<rparr>) =
      (Inr (), c4)"
    and "recvGS c4 = (Inr d1, c5)" and "recvGS c5 = (Inr d2, c6)"
  shows "HandshakeToLobby c = (if d1 = [] then (Inl Panic, c5)
       else if d1 ! 0 \<noteq> OpGSLoginResult
       then (Inl (Error (''unexpected login result opcode 0x'' @ format_hex (uint (d1 ! 0)) @ '' (len '' @
              itoa (int (length d1)) @ '')'')), c5)
       else if d2 = [] then (Inl Panic, c6)
       else if d2 ! 0 \<noteq> OpGSCharSelectionInfo
       then (Inl (Error (''failed to enter lobby: got opcode 0x'' @ format_hex (uint (d2 ! 0)))), c6)
       else (DecodeCharSelectionInfo d2, c6))"
proof -
  obtain c0 where "gs_payload 5 (EncodeProtocolVersionTo 140) c = (Inr (), c0)"
    and "gs_send 5 c0 = (Inr (), c1)"
    using assms(2) by (auto elim!: andThen_InrE)
  with assms(1,3-8) show ?thesis
    by (simp add: HandshakeToLobby_def andThen_def idx_def)
qed

section \<open>Properties\<close>

text \<open>
  C1. The encrypted game channel is a faithful, ordered packet stream: whatever sequence of packets
  one end sends, the other end's \<open>recvGS\<close> returns the same packets in the same order, as long as
  the keys agreed at the start, and it leaves the bytes that follow in the stream.
\<close>

theorem game_channel_roundtrip:
  assumes "sendAll gs_push ps w = (Inr (), w')" and "gs_sync w r"
    and "rx (gs_sock r) = drop (length (tx (gs_sock w))) (tx (gs_sock w')) @ rest"
  shows "\<exists>r'. recvN recvGS (length ps) r = (Inr ps, r') \<and> rx (gs_sock r') = rest \<and> gs_sync w' r'"
proof -
  from gs.sendAll_recvN [OF assms(1,2)] obtain bs where "tx (gs_sock w') = tx (gs_sock w) @ bs"
    and "gs_sync w r \<and> rx (gs_sock r) = bs @ rest \<longrightarrow>
      (\<exists>r'. recvN recvGS (length ps) r = (Inr ps, r') \<and> rx (gs_sock r') = rest \<and> gs_sync w' r')"
    by auto
  with assms(2,3) show ?thesis by auto
qed

text \<open>A client connected to the game server, with fresh buffers and a fixed key.\<close>

definition sample_game :: "State \<Rightarrow> byte list \<Rightarrow> byte Client" where
  "sample_game S arriving =
     (NewClient ''127.0.0.1:2106'' ''bot'' ''pw'' [])\<lparr>c_State := S, gs_sock := sample_conn arriving,
       c_gsConn := True, c_gsReader := Some NewReader, c_gsWriter := Some NewWriter,
       c_gsCrypt := sample_crypt\<rparr>"

lemma sample_game_fields [simp]:
  "c_State (sample_game S bs) = S" "gs_sock (sample_game S bs) = sample_conn bs"
  "c_gsReader (sample_game S bs) = Some NewReader" "c_gsWriter (sample_game S bs) = Some NewWriter"
  "c_gsCrypt (sample_game S bs) = sample_crypt" "c_account (sample_game S bs) = ''bot''"
  by (simp_all add: sample_game_def NewClient_def)

lemma sample_game_inv: "in_game S \<Longrightarrow> gs_in {S} (sample_game S bs)"
  using sample_crypt_ok
  by (auto simp: gs_in_def game_inv_def client_inv_def wf_client_def in_login_def in_game_def
      sample_game_def NewClient_def)

lemma sample_game_sync: "gs_sync (sample_game S bs) (sample_game S' cs)"
  using sample_crypt_ok by (simp add: gs_sync_def keys_agree_def)

theorem game_channel_roundtrip_witness:
  "\<exists>bs r'. recvN recvGS 1 (sample_game StateGSLoggedIn bs) = (Inr [[5, 6, 7]], r')"
proof -
  let ?w = "sample_game StateGSLoggedIn []"
  from enc_raw.gs_request_ok [of ?w NewWriter "[5, 6, 7]" 3] obtain pw where
    push: "gs_push [5, 6, 7] ?w = (Inr (), after_send [5, 6, 7] pw ?w)"
    by (auto simp: gs_push_def gs_up_def numeral_3_eq_3)
  let ?bs = "tx (gs_sock (after_send [5, 6, 7] pw ?w))"
  have "sendAll gs_push [[5, 6, 7]] ?w = (Inr (), after_send [5, 6, 7] pw ?w)"
    using push by (simp add: andThen_def)
  from game_channel_roundtrip [OF this sample_game_sync, of StateGSLoggedIn ?bs "[]"]
  show ?thesis by (auto intro: exI [of _ ?bs])
qed

text \<open>
  Whatever the game server sends and however the connection fails, the operations that lead
  into the world keep the client's invariant, panics included, and each success ends in its own
  state: the handshake in the lobby with the cipher initialised, the authentication in the world.
\<close>

theorem game_session_states:
  "goes True (gs_in {StateGSConnected, StateGSHandshake}) (\<lambda>_. True) (gs_in {StateGSHandshake})
     HandshakeToLobby \<and>
   goes True (gs_in Ss) (\<lambda>_. True) (gs_in Ss) (createStarterCharacter coin) \<and>
   goes True (gs_in {StateGSConnected, StateGSHandshake}) (\<lambda>_. True) (gs_in {StateGSLoggedIn})
     (AuthGameServer coin)"
  by (intro conjI goes_HandshakeToLobby goes_createStarter goes_AuthGameServer)

text \<open>
  The name of an automatically created character is never empty, has at most 16 characters,
  all of them letters or digits, and its create packet fits the 100 bytes prepared for it.
\<close>

theorem starter_name_valid:
  "0 < length (starter_name account) \<and> length (starter_name account) \<le> 16 \<and>
   list_all is_alnum (starter_name account) \<and>
   length (create_bytes (starter_name account, 0, False, classID, 0, 0, 0)) \<le> 100"
  using starter_name_ok [of account] by simp

text \<open>
  C2. The handshake, given the key packet and the two encrypted answers that arrive: the client
  sends the protocol version in the clear and then the account with its play and login keys,
  encrypted under the server's key, and only then looks at the answers. A login result followed
  by a character list gives that list; an empty packet in either place is a panic, because the
  opcode is read without a length check; anything else is an error that names the opcode.
\<close>

theorem HandshakeToLobby_outcome:
  fixes c :: "'k Client"
  assumes inv: "client_inv c" and st: "c_State c = StateGSConnected"
    and up: "\<not> closed (gs_sock c)" "1 < writes_left (gs_sock c)" and acc: "length (c_account c) \<le> 32757"
    and stream: "rx (gs_sock c) = frame kp @ frame ct1 @ frame ct2 @ rest"
    and lens: "length kp \<le> 65533" "length ct1 \<le> 65533" "length ct2 \<le> 65533"
    and key: "DecodeGSKeyPacket kp = Inr key" "GameCrypt_Init key (c_gsCrypt c) = (Inr (), k0)"
    and auth: "GameCrypt_Encrypt (authlogin_bytes (c_account c, c_playKey1 c, c_playKey2 c,
      c_loginKey1 c, c_loginKey2 c)) k0 = (sent, k1)"
    and ans: "GameCrypt_Decrypt ct1 k1 = (d1, k2)" "GameCrypt_Decrypt ct2 k2 = (d2, k3)"
  shows "\<exists>t. HandshakeToLobby c = ((if d1 = [] then Inl Panic
       else if d1 ! 0 \<noteq> OpGSLoginResult
       then Inl (Error (''unexpected login result opcode 0x'' @ format_hex (uint (d1 ! 0)) @ '' (len '' @
              itoa (int (length d1)) @ '')''))
       else if d2 = [] then Inl Panic
       else if d2 ! 0 \<noteq> OpGSCharSelectionInfo
       then Inl (Error (''failed to enter lobby: got opcode 0x'' @ format_hex (uint (d2 ! 0))))
       else DecodeCharSelectionInfo d2), t) \<and>
    c_State t = StateGSHandshake \<and>
    tx (gs_sock t) = tx (gs_sock c) @ frame (version_bytes 140) @ frame sent"
proof -
  have "gs_in {StateGSConnected} c" using inv st by (simp add: gs_in_def game_inv_def)
  then obtain r w where r: "c_gsReader c = Some r" "wf_reader r" and w: "c_gsWriter c = Some w" "wf_writer w"
    by (rule gs_inE)
  let ?auth = "authlogin_bytes (c_account c, c_playKey1 c, c_playKey2 c, c_loginKey1 c, c_loginKey2 c)"
  have up1: "gs_up c" using up by (simp add: gs_up_def)
  from version_request_ok [OF w up1, of 140] obtain w1 where
    1: "andThen (gs_payload 5 (EncodeProtocolVersionTo 140)) (\<lambda>_. gs_send 5) c =
      (Inr (), c\<lparr>c_gsWriter := Some w1, gs_sock := (gs_sock c)\<lparr>tx := tx (gs_sock c) @ frame (version_bytes 140),
        writes_left := writes_left (gs_sock c) - 1\<rparr>\<rparr>)" (is "_ = (Inr (), ?c1)")
    and w1: "wf_writer w1" by blast
  have r1: "c_gsReader ?c1 = Some r" "\<not> closed (gs_sock ?c1)"
    "rx (gs_sock ?c1) = frame kp @ frame ct1 @ frame ct2 @ rest"
    using r up stream by simp_all
  from gs_read_ok [OF r1(1) r(2) r1(2,3) lens(1)] obtain r2 where
    2: "gs_read ?c1 = (Inr kp, ?c1\<lparr>c_gsReader := Some r2, gs_sock := (gs_sock ?c1)\<lparr>rx := frame ct1 @ frame ct2 @ rest\<rparr>\<rparr>)"
      (is "_ = (Inr kp, ?c2)")
    and r2: "wf_reader r2" by blast
  have 3: "on_gsCrypt (GameCrypt_Init key) ?c2 = (Inr (), ?c2\<lparr>c_gsCrypt := k0\<rparr>)"
    using key(2) by (simp add: on_gsCrypt_def)
  let ?c3 = "?c2\<lparr>c_gsCrypt := k0, c_State := StateGSHandshake\<rparr>"
  have up3: "gs_up ?c3" using up by (simp add: gs_up_def)
  have len: "length ?auth \<le> 1 + length (c_account c) * 2 + 2 + 16"
    "1 + length (c_account c) * 2 + 2 + 16 \<le> 65533" using acc by simp_all
  have w3: "c_gsWriter ?c3 = Some w1" by simp
  from enc_auth.gs_request_ok [OF w3 w1 up3 len] obtain w4 where
    4: "gs_request (1 + length (c_account c) * 2 + 2 + 16) (EncodeAuthLoginTo (c_account c)
        (c_playKey1 c) (c_playKey2 c) (c_loginKey1 c) (c_loginKey2 c)) ?c3 = (Inr (), after_send ?auth w4 ?c3)"
      (is "_ = (Inr (), ?c4)")
    by auto
  have c4: "c_gsReader ?c4 = Some r2" "\<not> closed (gs_sock ?c4)"
    "rx (gs_sock ?c4) = frame ct1 @ frame ct2 @ rest" "c_gsCrypt ?c4 = k1"
    using up auth by (simp_all add: after_send_def)
  from recvGS_two [OF c4(1) r2 c4(2,3) lens(2,3), unfolded c4(4), OF ans] obtain c5 c6 where
    5: "recvGS ?c4 = (Inr d1, c5)" and 6: "recvGS c5 = (Inr d2, c6)"
    and eq: "c_State c5 = c_State ?c4" "tx (gs_sock c5) = tx (gs_sock ?c4)"
      "c_State c6 = c_State ?c4" "tx (gs_sock c6) = tx (gs_sock ?c4)" by blast
  have end4: "c_State ?c4 = StateGSHandshake"
    "tx (gs_sock ?c4) = tx (gs_sock c) @ frame (version_bytes 140) @ frame sent"
    using auth by (simp_all add: after_send_def)
  show ?thesis
    unfolding HandshakeToLobby_steps [OF st 1 2 key(1) 3, simplified Client.update_convs, OF 4 5 6]
    using end4 eq by (intro exI [of _ "if d1 = [] \<or> d1 ! 0 \<noteq> OpGSLoginResult then c5 else c6"]) auto
qed

theorem HandshakeToLobby_outcome_witness:
  "fst (HandshakeToLobby (sample_game StateGSConnected
     (frame (OpGSKeyPacket # replicate 17 1) @ frame [] @ frame []))) = Inl Panic"
proof -
  let ?kp = "OpGSKeyPacket # replicate 17 1"
  let ?c = "sample_game StateGSConnected (frame ?kp @ frame [] @ frame [])"
  let ?auth = "authlogin_bytes (c_account ?c, c_playKey1 ?c, c_playKey2 ?c, c_loginKey1 ?c, c_loginKey2 ?c)"
  have inv: "client_inv ?c" using sample_game_inv [of StateGSConnected] by (simp add: gs_in_def game_inv_def)
  obtain key where key: "DecodeGSKeyPacket ?kp = Inr key" and len: "8 \<le> length key"
    by (simp add: DecodeGSKeyPacket_def)
  have "wf_crypt (c_gsCrypt ?c)" using sample_crypt_ok by simp
  from GameCrypt_Init_ok [OF this len] obtain k0 where k0: "GameCrypt_Init key (c_gsCrypt ?c) = (Inr (), k0)"
    by blast
  obtain sent k1 where auth: "GameCrypt_Encrypt ?auth k0 = (sent, k1)" by (metis prod.exhaust)
  obtain d1 k2 where d1: "GameCrypt_Decrypt [] k1 = (d1, k2)" by (metis prod.exhaust)
  obtain d2 k3 where d2: "GameCrypt_Decrypt [] k2 = (d2, k3)" by (metis prod.exhaust)
  have "d1 = []" using GameCrypt_lengths(2) [of "[]" k1] d1 by simp
  with HandshakeToLobby_outcome [OF inv _ _ _ _ _ _ _ _ key k0 auth d1 d2, of "[]"] show ?thesis
    by auto
qed

lemma recvN_Cons: "recvN recv (Suc n) c = (Inr (m # ms), t) \<longleftrightarrow>
    (\<exists>u. recv c = (Inr m, u) \<and> recvN recv n u = (Inr ms, t))"
  by (auto simp: andThen_def split: prod.splits sum.splits)

text \<open>What the wait makes of the packet that ends it: an empty one or the one it waits for.\<close>

definition selected_result :: "byte list \<Rightarrow> 'k Client \<Rightarrow> unit res \<times> 'k Client" where
  "selected_result p t = (if p = [] then (Inl Panic, t) else
     case DecodeCharSelected p of
       Inl Panic \<Rightarrow> (Inl Panic, t)
     | Inl (Error _) \<Rightarrow> (Inr (), t)
     | Inr (oid, cls, px, py, pz) \<Rightarrow>
         (Inr (), t\<lparr>c_objectID := oid, c_classID := cls, c_x := px, c_y := py, c_z := pz\<rparr>))"

lemma awaitCharSelected_skips:
  "recvN recvGS (Suc (length ps)) c = (Inr (ps @ [p]), t) \<Longrightarrow>
   \<forall>q \<in> set ps. q \<noteq> [] \<and> q ! 0 \<noteq> OpGSCharSelected \<Longrightarrow> p = [] \<or> p ! 0 = OpGSCharSelected \<Longrightarrow>
     awaitCharSelected c = selected_result p t"
proof (induction ps arbitrary: c)
  case Nil
  then have "recvGS c = (Inr p, t)" by (simp add: recvN_Cons del: recvN.simps(2))
  with Nil show ?case
    by (auto simp: awaitCharSelected.simps [of c] idx_def selected_result_def split: sum.splits)
next
  case (Cons q ps)
  from Cons.prems(1) obtain u where u: "recvGS c = (Inr q, u)"
    and rest: "recvN recvGS (Suc (length ps)) u = (Inr (ps @ [p]), t)"
    by (simp add: recvN_Cons del: recvN.simps(2)) blast
  with Cons.prems(2) have "awaitCharSelected c = awaitCharSelected u"
    by (simp add: awaitCharSelected.simps [of c] idx_def)
  with Cons.IH [OF rest] Cons.prems(2-) show ?case by simp
qed

text \<open>
  C8. The wait for the selected character: it drops every non-empty packet with another opcode, and the
  first packet that is empty or has that opcode ends it. An empty packet panics, because the opcode is
  read without a length check; from the awaited packet the character's id, class and position are
  stored, or nothing when its decoder returns an error. The stream is left right behind
  that packet with the keys in step.
\<close>

theorem awaitCharSelected_finds:
  fixes w :: "'k Client" and c :: "'l Client"
  assumes "sendAll gs_push (ps @ [p]) w = (Inr (), w')" and "gs_sync w c"
    and "rx (gs_sock c) = drop (length (tx (gs_sock w))) (tx (gs_sock w')) @ rest"
    and "\<forall>q \<in> set ps. q \<noteq> [] \<and> q ! 0 \<noteq> OpGSCharSelected" and "p = [] \<or> p ! 0 = OpGSCharSelected"
  shows "\<exists>t. rx (gs_sock t) = rest \<and> gs_sync w' t \<and>
    awaitCharSelected c = (if p = [] then (Inl Panic, t) else
      case DecodeCharSelected p of
        Inl Panic \<Rightarrow> (Inl Panic, t)
      | Inl (Error _) \<Rightarrow> (Inr (), t)
      | Inr (oid, cls, px, py, pz) \<Rightarrow>
          (Inr (), t\<lparr>c_objectID := oid, c_classID := cls, c_x := px, c_y := py, c_z := pz\<rparr>))"
proof -
  from gs.sendAll_recvN [OF assms(1,2)] obtain bs where "tx (gs_sock w') = tx (gs_sock w) @ bs"
    and "gs_sync w c \<and> rx (gs_sock c) = bs @ rest \<longrightarrow>
      (\<exists>t. recvN recvGS (length (ps @ [p])) c = (Inr (ps @ [p]), t) \<and> rx (gs_sock t) = rest \<and> gs_sync w' t)"
    by auto
  with assms(2,3) obtain t where t: "recvN recvGS (Suc (length ps)) c = (Inr (ps @ [p]), t)"
    "rx (gs_sock t) = rest" "gs_sync w' t" by auto
  with awaitCharSelected_skips [OF t(1) assms(4,5)] show ?thesis
    unfolding selected_result_def by blast
qed

lemma sample_pushes:
  assumes "length p \<le> 65533" and "length q \<le> 65533"
  obtains w where "sendAll gs_push ([p] @ [q]) (sample_game StateGSLoggedIn []) = (Inr (), w)"
proof -
  let ?w = "sample_game StateGSLoggedIn []"
  obtain w1 where 1: "gs_push p ?w = (Inr (), after_send p w1 ?w)" "wf_writer w1"
    using enc_raw.gs_request_ok [of ?w NewWriter p "length p"] assms(1) by (auto simp: gs_push_def gs_up_def)
  let ?w1 = "after_send p w1 ?w"
  have up: "c_gsWriter ?w1 = Some w1" "gs_up ?w1" by (simp_all add: after_send_def gs_up_def)
  obtain w2 where 2: "gs_push q ?w1 = (Inr (), after_send q w2 ?w1)"
    using enc_raw.gs_request_ok [OF up(1) 1(2) up(2), of q "length q"] assms(2) by (auto simp: gs_push_def)
  have "sendAll gs_push ([p] @ [q]) ?w = (Inr (), after_send q w2 ?w1)"
    using 1(1) 2 by (simp only: append_Cons append_Nil sendAll.simps andThen_Inr ret_def)
  then show ?thesis by (rule that)
qed

theorem awaitCharSelected_finds_witness:
  "(\<exists>bs t. awaitCharSelected (sample_game StateGSHandshake bs) = (Inr (), t) \<and> c_objectID t = 7 \<and> c_x t = 1) \<and>
   (\<exists>bs t. awaitCharSelected (sample_game StateGSHandshake bs) = (Inl Panic, t) \<and> rx (gs_sock t) = [5])"
proof (intro conjI)
  let ?p = "[OpGSCharSelected] @ utf16z [66] @ le32_bytes 7 @ utf16z [] @ replicate 20 0 @
     le32_bytes 10 @ replicate 4 0 @ le32_bytes 1 @ le32_bytes 2 @ le32_bytes 3 @ []"
  have fields: "DecodeCharSelected ?p = Inr (7, 10, 1, 2, 3)"
    by (rule DecodeCharSelected_fields) simp_all
  have other: "\<forall>q \<in> set [[1]]. q \<noteq> [] \<and> q ! 0 \<noteq> OpGSCharSelected" by (simp add: OpGSCharSelected_def)
  obtain w where send: "sendAll gs_push ([[1]] @ [?p]) (sample_game StateGSLoggedIn []) = (Inr (), w)"
    by (rule sample_pushes [of "[1]" ?p]) (simp_all add: utf16z_def)
  from awaitCharSelected_finds [OF send sample_game_sync _ other, of StateGSHandshake "tx (gs_sock w)" "[]"]
  show "\<exists>bs t. awaitCharSelected (sample_game StateGSHandshake bs) = (Inr (), t) \<and> c_objectID t = 7 \<and> c_x t = 1"
    by (auto simp: fields [simplified] intro!: exI [of _ "tx (gs_sock w)"])
  obtain v where send: "sendAll gs_push ([[1]] @ [[]]) (sample_game StateGSLoggedIn []) = (Inr (), v)"
    by (rule sample_pushes [of "[1]" "[]"]) simp_all
  from awaitCharSelected_finds [OF send sample_game_sync _ other, of StateGSHandshake "tx (gs_sock v) @ [5]" "[5]"]
  show "\<exists>bs t. awaitCharSelected (sample_game StateGSHandshake bs) = (Inl Panic, t) \<and> rx (gs_sock t) = [5]"
    by auto
qed

end
