(* ===== verification/Logger.thy ===== *)
theory Logger
  imports GoLib
begin

text \<open>
  \<open>internal/logger/logger.go\<close>: the logger the clients of a fleet share. Its state is the
  \<open>bufio.Writer\<close> over standard output (what was written out, and what is still buffered) and the
  flag for packet lines; the scratch array only holds the time while a header is written, and
  each operation runs under the mutex, so that a run of the program is a sequence of whole
  operations. The time is an argument of the operations that ask for it. Standard output is a
  sink that takes every byte.
\<close>

section \<open>The buffered writer\<close>

record bufWriter =
  bw_size :: nat
  bw_buf :: string
  bw_out :: string

definition bw_flush :: "bufWriter \<Rightarrow> bufWriter" where
  "bw_flush b = b\<lparr>bw_out := bw_out b @ bw_buf b, bw_buf := []\<rparr>"

text \<open>
  \<open>bufio.Writer.Write\<close> (and \<open>WriteString\<close>, \<open>WriteByte\<close>): what does not fit fills the buffer up and
  flushes it; a write that is larger than an empty buffer goes out directly.
\<close>

definition bw_write :: "string \<Rightarrow> bufWriter \<Rightarrow> bufWriter" where
  "bw_write s b =
     (let avail = bw_size b - length (bw_buf b)
      in if length s \<le> avail then b\<lparr>bw_buf := bw_buf b @ s\<rparr>
         else if bw_buf b = [] then b\<lparr>bw_out := bw_out b @ s\<rparr>
         else let full = bw_flush (b\<lparr>bw_buf := bw_buf b @ take avail s\<rparr>); rest = drop avail s
              in if length rest \<le> bw_size b then full\<lparr>bw_buf := rest\<rparr>
                 else full\<lparr>bw_out := bw_out full @ rest\<rparr>)"

section \<open>The logger\<close>

record Logger =
  lg_out :: bufWriter
  lg_detailed :: bool

record wallclock =
  hour :: nat
  minute :: nat
  second :: nat

text \<open>\<open>now.AppendFormat(l.scratch[:0], "15:04:05")\<close>\<close>

definition two_digits :: "nat \<Rightarrow> string" where
  "two_digits n = [digit_char (n div 10 mod 10), digit_char (n mod 10)]"

definition clock_time :: "wallclock \<Rightarrow> string" where
  "clock_time now = two_digits (hour now) @ '':'' @ two_digits (minute now) @ '':'' @ two_digits (second now)"

definition NewLogger :: "bool \<Rightarrow> Logger" where
  "NewLogger detailed = \<lparr>lg_out = \<lparr>bw_size = 65536, bw_buf = [], bw_out = []\<rparr>, lg_detailed = detailed\<rparr>"

definition put_out :: "string \<Rightarrow> Logger \<Rightarrow> Logger" where
  "put_out s l = l\<lparr>lg_out := bw_write s (lg_out l)\<rparr>"

definition newline :: string where
  "newline = [CHR 0x0A]"

definition Flush :: "Logger \<Rightarrow> Logger" where
  "Flush l = l\<lparr>lg_out := bw_flush (lg_out l)\<rparr>"

definition Logger_Write :: "string \<Rightarrow> Logger \<Rightarrow> Logger" where
  "Logger_Write data l = put_out data l"

definition writeHeader :: "wallclock \<Rightarrow> string \<Rightarrow> Logger \<Rightarrow> Logger" where
  "writeHeader now account l =
     (let l = put_out ''] '' (put_out (clock_time now) (put_out ''['' l))
      in if account \<noteq> '''' then put_out '') '' (put_out account (put_out ''('' l)) else l)"

definition Log :: "wallclock \<Rightarrow> string \<Rightarrow> string \<Rightarrow> Logger \<Rightarrow> Logger" where
  "Log now account msg l = Flush (put_out newline (put_out msg (writeHeader now account l)))"

definition LogErr :: "wallclock \<Rightarrow> string \<Rightarrow> string \<Rightarrow> string option \<Rightarrow> Logger \<Rightarrow> Logger" where
  "LogErr now account msg err l =
     (let l = put_out msg (put_out ''ERROR: '' (writeHeader now account l));
          l = (case err of None \<Rightarrow> l | Some e \<Rightarrow> put_out e (put_out '': '' l))
      in Flush (put_out newline l))"

definition LogPacket :: "wallclock \<Rightarrow> string \<Rightarrow> string \<Rightarrow> string \<Rightarrow> Logger \<Rightarrow> Logger" where
  "LogPacket now account dir name l =
     (if \<not> lg_detailed l then l
      else Flush (put_out newline (put_out name (put_out '': '' (put_out dir (writeHeader now account l))))))"

section \<open>Runs of the logger\<close>

text \<open>A call of one of its methods, and the line it stands for.\<close>

datatype call = CWrite string | CFlush | CLog string string | CLogErr string string "string option"
  | CLogPacket string string string

fun perform :: "wallclock \<Rightarrow> call \<Rightarrow> Logger \<Rightarrow> Logger" where
  "perform now (CWrite data) = Logger_Write data"
| "perform now CFlush = Flush"
| "perform now (CLog account msg) = Log now account msg"
| "perform now (CLogErr account msg err) = LogErr now account msg err"
| "perform now (CLogPacket account dir name) = LogPacket now account dir name"

definition header_of :: "wallclock \<Rightarrow> string \<Rightarrow> string" where
  "header_of now account = ''['' @ clock_time now @ ''] '' @ (if account = '''' then '''' else ''('' @ account @ '') '')"

fun line_of :: "bool \<Rightarrow> wallclock \<Rightarrow> call \<Rightarrow> string" where
  "line_of d now (CWrite data) = data"
| "line_of d now CFlush = ''''"
| "line_of d now (CLog account msg) = header_of now account @ msg @ newline"
| "line_of d now (CLogErr account msg err) = header_of now account @ ''ERROR: '' @ msg @
     (case err of None \<Rightarrow> '''' | Some e \<Rightarrow> '': '' @ e) @ newline"
| "line_of d now (CLogPacket account dir name) =
     (if d then header_of now account @ dir @ '': '' @ name @ newline else '''')"

text \<open>Everything written so far, buffered or not.\<close>

definition stream :: "Logger \<Rightarrow> string" where
  "stream l = bw_out (lg_out l) @ bw_buf (lg_out l)"

lemma stream_bw_write: "bw_out (bw_write s b) @ bw_buf (bw_write s b) = bw_out b @ bw_buf b @ s"
  by (simp add: bw_write_def bw_flush_def Let_def)

lemma stream_put_out [simp]:
  "stream (put_out s l) = stream l @ s" "lg_detailed (put_out s l) = lg_detailed l"
  by (simp_all add: stream_def put_out_def stream_bw_write)

definition wf_logger :: "Logger \<Rightarrow> bool" where
  "wf_logger l \<longleftrightarrow> length (bw_buf (lg_out l)) \<le> bw_size (lg_out l)"

lemma wf_put_out [simp]: "wf_logger l \<Longrightarrow> wf_logger (put_out s l)"
  by (auto simp: wf_logger_def put_out_def bw_write_def bw_flush_def Let_def)

lemma Flush_simps [simp]:
  "stream (Flush l) = stream l" "bw_buf (lg_out (Flush l)) = []" "bw_out (lg_out (Flush l)) = stream l"
  "lg_detailed (Flush l) = lg_detailed l" "wf_logger (Flush l)"
  by (simp_all add: stream_def Flush_def bw_flush_def wf_logger_def)

lemma writeHeader_simps [simp]:
  "stream (writeHeader now account l) = stream l @ header_of now account"
  "lg_detailed (writeHeader now account l) = lg_detailed l"
  "wf_logger l \<Longrightarrow> wf_logger (writeHeader now account l)"
  by (simp_all add: writeHeader_def header_of_def Let_def)

lemma perform_line [simp]:
  "stream (perform now a l) = stream l @ line_of (lg_detailed l) now a"
  "lg_detailed (perform now a l) = lg_detailed l"
  "wf_logger l \<Longrightarrow> wf_logger (perform now a l)"
  by (cases a; auto simp: Logger_Write_def Log_def LogErr_def LogPacket_def Let_def split: option.split)+

definition perform_all :: "(wallclock \<times> call) list \<Rightarrow> Logger \<Rightarrow> Logger" where
  "perform_all = fold (\<lambda>(now, a). perform now a)"

definition lines_of :: "bool \<Rightarrow> (wallclock \<times> call) list \<Rightarrow> string" where
  "lines_of d as = concat (map (\<lambda>(now, a). line_of d now a) as)"

lemma performs_lines:
  "stream (perform_all as l) = stream l @ lines_of (lg_detailed l) as"
  "lg_detailed (perform_all as l) = lg_detailed l"
  "wf_logger l \<Longrightarrow> wf_logger (perform_all as l)"
  by (induction as arbitrary: l) (simp_all add: perform_all_def lines_of_def split_beta)

lemma NewLogger_simps [simp]:
  "stream (NewLogger d) = ''''" "lg_detailed (NewLogger d) = d" "wf_logger (NewLogger d)"
  by (simp_all add: NewLogger_def stream_def wf_logger_def)

text \<open>
  C31. Whatever order the clients of a fleet get the mutex in, the logger writes the whole lines of
  their calls in that order, however long they are; a line of \<open>Log\<close> or \<open>LogErr\<close> has reached standard
  output when the call returns, everything has after \<open>Flush\<close>, and packets are only printed by a
  detailed logger. What is buffered never exceeds the buffer.
\<close>

theorem log_output:
  "let l = perform_all as (NewLogger d) in
     stream l = lines_of d as \<and> wf_logger l \<and>
     bw_out (lg_out (Flush l)) = lines_of d as \<and> bw_buf (lg_out (Flush l)) = [] \<and>
     bw_out (lg_out (Log now account msg l)) = lines_of d as @ header_of now account @ msg @ newline \<and>
     bw_out (lg_out (LogErr now account msg (Some e) l)) =
       lines_of d as @ header_of now account @ ''ERROR: '' @ msg @ '': '' @ e @ newline \<and>
     (d \<or> LogPacket now account dir name l = l)"
  by (simp add: performs_lines Log_def LogErr_def LogPacket_def Let_def)

end
