(* ===== verification/GameView.thy ===== *)
theory GameView
  imports GameClient
begin

text \<open>
  What the bot knows of the world, in \<open>internal/client/client.go\<close>: the target list, the inventory,
  its own mana and cooldowns, and the flags set by a teleport or a death; and the read loop
  that keeps them up to date from the packets of the game server (\<open>runReadLoop\<close>, \<open>handlePacket\<close>
  and the handlers it calls). \<open>time.Now()\<close> is an argument, in nanoseconds.
\<close>

section \<open>Targets and inventory\<close>

definition addTarget :: "u32 \<Rightarrow> 'k Client \<Rightarrow> 'k Client" where
  "addTarget i c =
     (if i = 0 \<or> i = c_objectID c then c
      else if i \<in> set (c_npcs c) then c
      else if length (c_npcs c) < 256 then c\<lparr>c_npcs := c_npcs c @ [i]\<rparr>
      else
        let c1 = c\<lparr>c_npcs := (c_npcs c)[c_npcsNext c := i], c_npcsNext := c_npcsNext c + 1\<rparr>
        in if c_npcsNext c1 \<ge> 256 then c1\<lparr>c_npcsNext := 0\<rparr> else c1)"

definition targetCount :: "'k Client \<Rightarrow> nat" where
  "targetCount c = length (c_npcs c)"

definition setInventory :: "u32 list \<Rightarrow> 'k Client \<Rightarrow> 'k Client" where
  "setInventory items c = c\<lparr>c_inventory := Some items\<rparr>"

definition inventoryCount :: "'k Client \<Rightarrow> nat" where
  "inventoryCount c = (case c_inventory c of None \<Rightarrow> 0 | Some items \<Rightarrow> length items)"

definition canCast :: "int \<Rightarrow> u32 \<Rightarrow> 'k Client \<Rightarrow> bool" where
  "canCast now skillID c =
     (if sint (c_mp c) < 15 then False
      else case c_skillReady c skillID of Some ts \<Rightarrow> \<not> now < ts | None \<Rightarrow> True)"

section \<open>The packet handlers\<close>

definition handleTeleport :: "byte list \<Rightarrow> ('k Client, unit) go" where
  "handleTeleport data =
     andThen (if length data \<ge> 17
       then andThen (liftR (rdU32 data 5)) (\<lambda>px.
         andThen (liftR (rdU32 data 9)) (\<lambda>py.
         andThen (liftR (rdU32 data 13)) (\<lambda>pz.
         modifyS (\<lambda>c. c\<lparr>c_x := px, c_y := py, c_z := pz\<rparr>))))
       else ret ()) (\<lambda>_.
     modifyS (\<lambda>c. c\<lparr>c_pendingAppear := True, c_converged := True\<rparr>))"

definition handleDie :: "byte list \<Rightarrow> ('k Client, unit) go" where
  "handleDie data =
     (if length data \<ge> 5
      then andThen (liftR (rdU32 data 1)) (\<lambda>i.
        modifyS (\<lambda>c. if i = c_objectID c then c\<lparr>c_dead := True\<rparr> else c))
      else ret ())"

text \<open>The channel holds at most one token; a send that would block is dropped.\<close>

definition signal_attack :: "'k Client \<Rightarrow> 'k Client" where
  "signal_attack c = (if c_attackChan c < 1 then c\<lparr>c_attackChan := c_attackChan c + 1\<rparr> else c)"

definition handleCombatBroadcast :: "int \<Rightarrow> byte list \<Rightarrow> ('k Client, unit) go" where
  "handleCombatBroadcast now data =
     andThen (if length data \<ge> 5
       then andThen (liftR (rdU32 data 1)) (\<lambda>i.
         modifyS (\<lambda>c. if i = c_objectID c then signal_attack c else c))
       else ret ()) (\<lambda>_.
     andThen (liftR (idx data 0)) (\<lambda>op.
     if op = OpGSAttack then ret ()
     else andThen getS (\<lambda>c. andThen (liftR (ParseOwnSkillReuse data (c_objectID c))) (\<lambda>(skillID, reuseMs, ok).
       if ok \<and> sint reuseMs > 0
       then modifyS (\<lambda>c. c\<lparr>c_skillReady := (c_skillReady c)(skillID \<mapsto> now + sint reuseMs * 1000000)\<rparr>)
       else ret ()))))"

definition handlePacket :: "int \<Rightarrow> byte list \<Rightarrow> ('k Client, unit) go" where
  "handlePacket now data = andThen (liftR (idx data 0)) (\<lambda>op.
     if op = OpGSTeleportToLocation then handleTeleport data
     else if op = OpGSDie then handleDie data
     else if op = OpGSStatusUpdate then
       andThen getS (\<lambda>c. andThen (liftR (ParseSelfMp data (c_objectID c))) (\<lambda>(mp, maxMp, ok).
         if ok then modifyS (\<lambda>c.
           let c1 = c\<lparr>c_mp := mp\<rparr> in if sint maxMp > 0 then c1\<lparr>c_maxMp := maxMp\<rparr> else c1)
         else ret ()))
     else if op = OpGSItemList then
       andThen (liftR (ExtractEquippableItems data)) (\<lambda>newItems.
         if length newItems > 0 then modifyS (setInventory newItems) else ret ())
     else if op = OpGSNpcInfo then
       (if length data \<ge> 5
        then andThen (liftR (rdU32 data 1)) (\<lambda>i. modifyS (addTarget i)) else ret ())
     else if op = OpGSCharInfo then
       (if length data \<ge> 22
        then andThen (liftR (rdU32 data 18)) (\<lambda>i. modifyS (addTarget i)) else ret ())
     else if op = OpGSAttack \<or> op = OpGSMagicSkillUse then handleCombatBroadcast now data
     else ret ())"

text \<open>One turn of \<open>runReadLoop\<close>: the result says whether the loop goes on.\<close>

definition readStep :: "int \<Rightarrow> ('k Client, bool) go" where
  "readStep now = (\<lambda>c. case gs_read c of
     (Inl Panic, t) \<Rightarrow> (Inl Panic, t)
   | (Inl (Error _), t) \<Rightarrow> (Inr False, t)
   | (Inr data, t) \<Rightarrow> (case GameCrypt_Decrypt data (c_gsCrypt t) of
       (data', k) \<Rightarrow>
         let u = t\<lparr>c_gsCrypt := k\<rparr> in
         if length data' = 0 then (Inr True, u)
         else andThen (handlePacket now data') (\<lambda>_. ret True) u))"

text \<open>The loop, up to the turns whose times are given: it may stop earlier, on a read error.\<close>

fun runReadLoop :: "int list \<Rightarrow> ('k Client, bool) go" where
  "runReadLoop [] = ret True"
| "runReadLoop (now # later) =
     andThen (readStep now) (\<lambda>goes_on. if goes_on then runReadLoop later else ret False)"

section \<open>The target list is a bounded queue\<close>

text \<open>
  The abstract list: known ids stay where they are, a new one goes to the back, and a full list
  first loses its oldest entry. \<open>bounded_targets\<close> is what the code around the list relies on.
\<close>

definition fifo_add :: "nat \<Rightarrow> 'a \<Rightarrow> 'a list \<Rightarrow> 'a list" where
  "fifo_add cap x q = (if x \<in> set q then q else if length q < cap then q @ [x] else tl q @ [x])"

locale bounded_targets =
  fixes add :: "'a \<Rightarrow> 's \<Rightarrow> 's"
    and queue :: "'s \<Rightarrow> 'a list"
    and ok :: "'s \<Rightarrow> bool"
    and skips :: "'s \<Rightarrow> 'a \<Rightarrow> bool"
    and cap :: nat
  assumes add_ok: "ok s \<Longrightarrow> ok (add x s)"
    and add_skips: "skips (add x s) = skips s"
    and add_queue: "ok s \<Longrightarrow> queue (add x s) = (if skips s x then queue s else fifo_add cap x (queue s))"
    and bounded: "ok s \<Longrightarrow> length (queue s) \<le> cap"
    and room: "0 < cap"
begin

lemma add_present: "ok s \<Longrightarrow> \<not> skips s x \<Longrightarrow> x \<in> set (queue (add x s))"
  by (simp add: add_queue fifo_add_def)

lemma add_subset: "ok s \<Longrightarrow> set (queue (add x s)) \<subseteq> insert x (set (queue s))"
  by (cases "queue s") (auto simp: add_queue fifo_add_def)

lemma fold_recent:
  assumes "ok s" and "distinct xs" and "\<forall>x \<in> set xs. \<not> skips s x" and "set xs \<inter> set (queue s) = {}"
  shows "queue (fold add xs s) = drop (length (queue s) + length xs - cap) (queue s @ xs) \<and>
    ok (fold add xs s)"
  using assms
proof (induction xs arbitrary: s)
  case Nil
  then show ?case using bounded [of s] by simp
next
  case (Cons x xs)
  let ?q = "queue s"
  have new: "x \<notin> set ?q" "\<not> skips s x" and len: "length ?q \<le> cap"
    using Cons.prems bounded [of s] by auto
  then have q: "queue (add x s) = (if length ?q < cap then ?q @ [x] else tl ?q @ [x])"
    using Cons.prems(1) by (simp add: add_queue fifo_add_def)
  have "set (queue (add x s)) \<subseteq> insert x (set ?q)" using add_subset Cons.prems(1) .
  then have "set xs \<inter> set (queue (add x s)) = {}" using Cons.prems(2,4) by auto
  with Cons.IH [of "add x s"] Cons.prems(1-3) have
    IH: "queue (fold add xs (add x s)) =
        drop (length (queue (add x s)) + length xs - cap) (queue (add x s) @ xs)"
      "ok (fold add xs (add x s))"
    by (simp_all add: add_ok add_skips)
  show ?case
  proof (cases "length ?q < cap")
    case True
    with IH q show ?thesis by simp
  next
    case False
    with len room have full: "length ?q = cap" "?q \<noteq> []" by auto
    have "length (queue (add x s)) + length xs - cap = length xs" using full room q by simp
    with full q IH(1) have "queue (fold add xs (add x s)) = drop (length xs) (tl ?q @ [x] @ xs)"
      by (simp del: drop_append)
    also have "\<dots> = drop (Suc (length xs)) (?q @ x # xs)"
      using full(2) by (cases ?q) simp_all
    finally show ?thesis using IH(2) full(1) by (simp del: drop_append)
  qed
qed

end

definition targets_ok :: "'k Client \<Rightarrow> bool" where
  "targets_ok c \<longleftrightarrow> distinct (c_npcs c) \<and> 0 \<notin> set (c_npcs c) \<and> c_objectID c \<notin> set (c_npcs c) \<and>
     length (c_npcs c) \<le> 256 \<and> c_npcsNext c < 256 \<and>
     (length (c_npcs c) < 256 \<longrightarrow> c_npcsNext c = 0)"

text \<open>The ring buffer read from its oldest entry on.\<close>

definition target_queue :: "'k Client \<Rightarrow> u32 list" where
  "target_queue c = drop (c_npcsNext c) (c_npcs c) @ take (c_npcsNext c) (c_npcs c)"

lemma set_target_queue [simp]: "set (target_queue c) = set (c_npcs c)"
  unfolding target_queue_def by (metis append_take_drop_id set_append sup_commute)

lemma length_target_queue [simp]: "length (target_queue c) = length (c_npcs c)"
  by (simp add: target_queue_def)

lemma addTarget_full:
  assumes "targets_ok c" and "length (c_npcs c) = 256" and "i \<notin> set (c_npcs c)"
    and "i \<noteq> 0" and "i \<noteq> c_objectID c"
  shows "target_queue (addTarget i c) = tl (target_queue c) @ [i]" and "targets_ok (addTarget i c)"
proof -
  let ?n = "c_npcsNext c" and ?xs = "c_npcs c"
  have n: "?n < length ?xs" using assms(1,2) by (simp add: targets_ok_def)
  have upd: "?xs[?n := i] = take ?n ?xs @ i # drop (Suc ?n) ?xs" by (rule upd_conv_take_nth_drop [OF n])
  have dr: "drop ?n ?xs = ?xs ! ?n # drop (Suc ?n) ?xs" by (rule Cons_nth_drop_Suc [OF n, symmetric])
  show "target_queue (addTarget i c) = tl (target_queue c) @ [i]"
  proof (cases "?n + 1 \<ge> 256")
    case True
    with n assms(2) have "drop (Suc ?n) ?xs = []" "?n = 255" by simp_all
    with assms(2-5) True upd dr show ?thesis
      by (simp add: target_queue_def addTarget_def Let_def)
  next
    case False
    with assms(2-5) upd dr n show ?thesis
      by (simp add: target_queue_def addTarget_def Let_def min_def)
  qed
  have "distinct (?xs[?n := i])" using assms(1,3) by (simp add: targets_ok_def distinct_list_update)
  moreover have "set (?xs[?n := i]) \<subseteq> insert i (set ?xs)" by (rule set_update_subset_insert)
  ultimately show "targets_ok (addTarget i c)"
    using assms by (auto simp: targets_ok_def addTarget_def Let_def)
qed

lemma addTarget_queue:
  assumes "targets_ok c"
  shows "target_queue (addTarget i c) =
      (if i = 0 \<or> i = c_objectID c then target_queue c else fifo_add 256 i (target_queue c))"
    and "targets_ok (addTarget i c)"
proof -
  have "length (c_npcs c) < 256 \<or> length (c_npcs c) = 256" using assms by (auto simp: targets_ok_def)
  then have "target_queue (addTarget i c) =
      (if i = 0 \<or> i = c_objectID c then target_queue c else fifo_add 256 i (target_queue c)) \<and>
      targets_ok (addTarget i c)"
  proof
    assume "length (c_npcs c) < 256"
    with assms show ?thesis
      by (auto simp: addTarget_def fifo_add_def target_queue_def targets_ok_def)
  next
    assume full: "length (c_npcs c) = 256"
    show ?thesis
    proof (cases "i = 0 \<or> i = c_objectID c \<or> i \<in> set (c_npcs c)")
      case True
      with assms show ?thesis by (auto simp: addTarget_def fifo_add_def)
    next
      case False
      with addTarget_full [OF assms full, of i] full show ?thesis by (auto simp: fifo_add_def)
    qed
  qed
  then show "target_queue (addTarget i c) =
      (if i = 0 \<or> i = c_objectID c then target_queue c else fifo_add 256 i (target_queue c))"
    and "targets_ok (addTarget i c)" by simp_all
qed

lemma addTarget_objectID [simp]: "c_objectID (addTarget i c) = c_objectID c"
  by (simp add: addTarget_def Let_def)

interpretation targets: bounded_targets addTarget target_queue targets_ok
  "\<lambda>c i. i = 0 \<or> i = c_objectID c" 256
  by unfold_locales (simp_all add: addTarget_queue, simp add: targets_ok_def)

lemma unat_u32_of_nat: "n < 4294967296 \<Longrightarrow> unat (of_nat n :: u32) = n"
  by (simp add: unsigned_of_nat take_bit_eq_mod)

text \<open>
  C9. Under a stream of new objects the target list holds exactly the 256 most recent ones, in
  the order they appeared; and it never holds an id twice, the id 0 or the bot's own id.
\<close>

theorem addTarget_keeps_recent:
  assumes "targets_ok c" and "distinct ids" and "\<forall>i \<in> set ids. i \<noteq> 0 \<and> i \<noteq> c_objectID c"
    and "set ids \<inter> set (c_npcs c) = {}"
  shows "target_queue (fold addTarget ids c) =
      drop (targetCount c + length ids - 256) (target_queue c @ ids) \<and>
    targets_ok (fold addTarget ids c)"
  using targets.fold_recent [of c ids] assms by (auto simp: targetCount_def)

theorem addTarget_keeps_recent_witness:
  "target_queue (fold addTarget (map of_nat [1..<300]) (NewClient [] [] [] [] :: nat Client)) =
     map of_nat [44..<300]"
proof -
  let ?c = "NewClient [] [] [] [] :: nat Client" and ?ids = "map of_nat [1..<300] :: u32 list"
  have inj: "inj_on (of_nat :: nat \<Rightarrow> u32) {1..<300}"
    by (rule inj_on_inverseI [where g = unat]) (simp add: unat_u32_of_nat)
  have "targets_ok ?c" by (simp add: targets_ok_def NewClient_def)
  moreover have "distinct ?ids" using inj by (simp add: distinct_map)
  moreover have "\<forall>i \<in> set ?ids. i \<noteq> 0 \<and> i \<noteq> c_objectID ?c"
  proof -
    have "(of_nat n :: u32) \<noteq> 0" if "n \<in> {1..<300}" for n
    proof
      assume "(of_nat n :: u32) = 0"
      then have "unat (of_nat n :: u32) = 0" by simp
      with that show False by (simp add: unat_u32_of_nat)
    qed
    then show ?thesis by (auto simp: NewClient_def)
  qed
  moreover have "set ?ids \<inter> set (c_npcs ?c) = {}" by (simp add: NewClient_def)
  ultimately have "target_queue (fold addTarget ?ids ?c) =
      drop (targetCount ?c + length ?ids - 256) (target_queue ?c @ ?ids)"
    using addTarget_keeps_recent [of ?c ?ids] by blast
  then show ?thesis by (simp add: targetCount_def target_queue_def NewClient_def drop_map)
qed

section \<open>The handlers touch the view only, and never panic\<close>

text \<open>\<open>only_view c d\<close>: \<open>d\<close> is \<open>c\<close> but for the fields that hold what the bot sees.\<close>

definition only_view :: "'k Client \<Rightarrow> 'k Client \<Rightarrow> bool" where
  "only_view c d \<longleftrightarrow> d = c\<lparr>c_attackChan := c_attackChan d, c_inventory := c_inventory d,
     c_skillReady := c_skillReady d, c_npcs := c_npcs d, c_npcsNext := c_npcsNext d,
     c_x := c_x d, c_y := c_y d, c_z := c_z d, c_mp := c_mp d, c_maxMp := c_maxMp d,
     c_pendingAppear := c_pendingAppear d, c_converged := c_converged d, c_dead := c_dead d\<rparr>"

lemma only_view_refl [simp]: "only_view c c"
  by (simp add: only_view_def)

lemma only_view_trans: "only_view c d \<Longrightarrow> only_view d e \<Longrightarrow> only_view c e"
  unfolding only_view_def by (cases c; cases d; cases e) simp

text \<open>The client still holds its game connection, and a login connection it no longer holds is closed.\<close>

definition holds_game :: "'k Client \<Rightarrow> bool" where
  "holds_game c \<longleftrightarrow> c_gsConn c \<and> (c_conn c \<or> closed (ls_sock c))"

lemma holds_game_frame [simp]:
  "holds_game (c\<lparr>c_gsReader := r, gs_sock := s\<rparr>) = holds_game c"
  "holds_game (c\<lparr>c_gsWriter := w\<rparr>) = holds_game c"
  "holds_game (c\<lparr>c_gsCrypt := k\<rparr>) = holds_game c"
  by (simp_all add: holds_game_def)

lemma only_viewD:
  assumes "only_view c d"
  shows "c_State d = c_State c" "c_objectID d = c_objectID c" "c_classID d = c_classID c"
    "gs_sock d = gs_sock c" "c_gsReader d = c_gsReader c" "c_gsWriter d = c_gsWriter c"
    "c_gsCrypt d = c_gsCrypt c" "c_account d = c_account c" "game_inv d = game_inv c"
    "holds_game d = holds_game c"
proof -
  obtain a i k n m px py pz q r b e f where
    d: "d = c\<lparr>c_attackChan := a, c_inventory := i, c_skillReady := k, c_npcs := n, c_npcsNext := m,
      c_x := px, c_y := py, c_z := pz, c_mp := q, c_maxMp := r,
      c_pendingAppear := b, c_converged := e, c_dead := f\<rparr>"
    using assms unfolding only_view_def by blast
  show "c_State d = c_State c" "c_objectID d = c_objectID c" "c_classID d = c_classID c"
    "gs_sock d = gs_sock c" "c_gsReader d = c_gsReader c" "c_gsWriter d = c_gsWriter c"
    "c_gsCrypt d = c_gsCrypt c" "c_account d = c_account c" "game_inv d = game_inv c"
    "holds_game d = holds_game c"
    by (simp_all add: d game_inv_def holds_game_def)
qed

named_theorems view_rules \<open>computations that succeed and change the view only\<close>

definition views :: "('k Client, 'a) go \<Rightarrow> bool" where
  "views m \<longleftrightarrow> (\<forall>c. \<exists>x d. m c = (Inr x, d) \<and> only_view c d \<and> (targets_ok c \<longrightarrow> targets_ok d))"

lemma views_basic [view_rules]: "views (ret x)" "views getS"
  by (auto simp: views_def)

lemma views_liftR: "r = Inr x \<Longrightarrow> views (liftR r)"
  by (auto simp: views_def)

lemma views_modifyS:
  "(\<And>c. only_view c (f c)) \<Longrightarrow> (\<And>c. targets_ok c \<Longrightarrow> targets_ok (f c)) \<Longrightarrow> views (modifyS f)"
  by (auto simp: views_def)

lemma views_andThen [view_rules]:
  assumes "views m" and "\<And>x. views (f x)"
  shows "views (andThen m f)"
  unfolding views_def
proof
  fix c
  obtain x d where 1: "m c = (Inr x, d)" "only_view c d" "targets_ok c \<longrightarrow> targets_ok d"
    using assms(1) unfolding views_def by blast
  obtain y e where 2: "f x d = (Inr y, e)" "only_view d e" "targets_ok d \<longrightarrow> targets_ok e"
    using assms(2) [of x] unfolding views_def by blast
  from 1 2 have "andThen m f c = (Inr y, e)" by (simp add: andThen_def)
  with 1 2 only_view_trans show "\<exists>x d. andThen m f c = (Inr x, d) \<and> only_view c d \<and>
      (targets_ok c \<longrightarrow> targets_ok d)"
    by blast
qed

lemma views_if [view_rules]: "(b \<Longrightarrow> views m) \<Longrightarrow> (\<not> b \<Longrightarrow> views n) \<Longrightarrow> views (if b then m else n)"
  by simp

lemma views_lifted:
  "r \<noteq> Inl Panic \<Longrightarrow> (\<And>e. r \<noteq> Inl (Error e)) \<Longrightarrow> views (liftR r)"
  by (cases r) (auto simp: views_def intro: fault.exhaust)

lemma views_rd [view_rules]: "a + 4 \<le> length data \<Longrightarrow> views (liftR (rdU32 data a))"
  "0 < length data \<Longrightarrow> views (liftR (idx data 0))"
  by (auto intro: views_liftR)

lemma targets_ok_frame [simp]:
  "targets_ok (c\<lparr>c_x := v\<rparr>) = targets_ok c" "targets_ok (c\<lparr>c_y := v\<rparr>) = targets_ok c"
  "targets_ok (c\<lparr>c_z := v\<rparr>) = targets_ok c" "targets_ok (c\<lparr>c_mp := v\<rparr>) = targets_ok c"
  "targets_ok (c\<lparr>c_maxMp := v\<rparr>) = targets_ok c" "targets_ok (c\<lparr>c_dead := b\<rparr>) = targets_ok c"
  "targets_ok (c\<lparr>c_pendingAppear := b\<rparr>) = targets_ok c"
  "targets_ok (c\<lparr>c_converged := b\<rparr>) = targets_ok c"
  "targets_ok (c\<lparr>c_attackChan := n\<rparr>) = targets_ok c"
  "targets_ok (c\<lparr>c_inventory := its\<rparr>) = targets_ok c"
  "targets_ok (c\<lparr>c_skillReady := f\<rparr>) = targets_ok c"
  "targets_ok (c\<lparr>c_gsReader := r\<rparr>) = targets_ok c" "targets_ok (c\<lparr>c_gsWriter := w\<rparr>) = targets_ok c"
  "targets_ok (c\<lparr>gs_sock := s\<rparr>) = targets_ok c" "targets_ok (c\<lparr>c_gsCrypt := k\<rparr>) = targets_ok c"
  by (simp_all add: targets_ok_def)

lemma views_addTarget [view_rules]: "views (modifyS (addTarget i))"
  by (rule views_modifyS, simp add: addTarget_def only_view_def Let_def) (rule addTarget_queue)

lemma loops_total: "status_loop n data pos acc \<noteq> Inl e" "extract_loop n data pos \<noteq> Inl e"
proof -
  show "status_loop n data pos acc \<noteq> Inl e"
    by (induction n data pos acc rule: status_loop.induct) (auto simp: rbind_Inl_iff)
  show "extract_loop n data pos \<noteq> Inl e"
    by (induction n arbitrary: pos)
      (auto simp: rbind_Inl_iff soul_crystal_def Let_def split: option.splits)
qed

lemma decoders_total:
  "ParseSelfMp data i \<noteq> Inl e" "ParseOwnSkillReuse data i \<noteq> Inl e" "ExtractEquippableItems data \<noteq> Inl e"
  by (auto simp: ParseSelfMp_def ParseOwnSkillReuse_def ExtractEquippableItems_def rbind_Inl_iff
      loops_total idx_def)

lemma views_decoders [view_rules]:
  "views (liftR (ParseSelfMp data i))" "views (liftR (ParseOwnSkillReuse data i))"
  "views (liftR (ExtractEquippableItems data))"
  by (simp_all add: views_lifted decoders_total)

lemma views_handlers [view_rules]:
  "views (handleTeleport data)" "views (handleDie data)"
  "0 < length data \<Longrightarrow> views (handleCombatBroadcast now data)"
  unfolding handleTeleport_def handleDie_def handleCombatBroadcast_def signal_attack_def
  by (rule view_rules views_modifyS | simp add: only_view_def split: prod.split; fail
      | (simp only: split_beta))+

lemma views_handlePacket [view_rules]: "0 < length data \<Longrightarrow> views (handlePacket now data)"
  unfolding handlePacket_def
  by (rule view_rules views_modifyS | simp add: only_view_def setInventory_def Let_def; fail
      | (simp only: split_beta))+

end
