(* ===== verification/ReadLoop.thy ===== *)
theory ReadLoop
  imports GameView
begin

text \<open>
  What holds of \<open>runReadLoop\<close> whatever the server sends: it never panics and keeps the client in
  the world (\<open>in_world\<close>), it changes the incoming half of the client and the view only, and so
  a turn of it and the sending of a packet by the action loop can be exchanged: the two
  goroutines share the connection and the cipher without a lock, and \<open>blind\<close> is why that is safe.
\<close>

section \<open>The read loop\<close>

definition in_world :: "'k Client \<Rightarrow> bool" where
  "in_world c \<longleftrightarrow> gs_in {StateGSLoggedIn} c \<and> targets_ok c \<and> holds_game c"

lemma views_runs:
  assumes "views m"
  shows "runs in_world (\<lambda>_. True) in_world m"
proof -
  have "\<exists>x d. m c = (Inr x, d) \<and> in_world d" if c: "in_world c" for c
  proof -
    obtain x d where m: "m c = (Inr x, d)" "only_view c d" "targets_ok c \<longrightarrow> targets_ok d"
      using assms unfolding views_def by blast
    then have "in_world d" using c by (simp add: in_world_def gs_in_def only_viewD)
    with m show ?thesis by blast
  qed
  then show ?thesis by (intro runsI) fastforce+
qed

lemma in_world_frame [simp]:
  "in_world c \<Longrightarrow> wf_reader r \<Longrightarrow> in_world (c\<lparr>c_gsReader := Some r, gs_sock := s\<rparr>)"
  "in_world c \<Longrightarrow> wf_crypt k \<Longrightarrow> initd (c_gsCrypt c) \<longrightarrow> initd k \<Longrightarrow> in_world (c\<lparr>c_gsCrypt := k\<rparr>)"
  by (simp_all add: in_world_def)

lemma runs_read_world: "runs in_world (\<lambda>_. True) in_world gs_read"
proof -
  have "e \<noteq> Panic" if "in_world c" and "gs_read c = (Inl e, t)" for c :: "'a Client" and e t
    using that runs_Inl [OF runs_gs_read] by (auto simp: in_world_def)
  moreover have "in_world t" if c: "in_world c" and m: "gs_read c = (res, t)"
    for c :: "'a Client" and res t
  proof -
    have "gs_in {StateGSLoggedIn} t"
      using c m runs_gs_read [of "{StateGSLoggedIn}"]
      by (cases res) (auto simp: in_world_def dest: runs_Inr runs_Inl)
    moreover have "targets_ok t" "holds_game t"
      using c m by (auto simp: in_world_def gs_read_def via_def split: option.splits prod.splits)
    ultimately show ?thesis by (simp add: in_world_def)
  qed
  ultimately show ?thesis by (intro runsI) blast+
qed

lemma readStep_world:
  assumes "in_world c"
  shows "\<exists>b d. readStep now c = (Inr b, d) \<and> in_world d"
proof -
  obtain res t where rd: "gs_read c = (res, t)" by (metis prod.exhaust)
  show ?thesis
  proof (cases res)
    case (Inl e)
    with rd assms runs_Inl [OF runs_read_world, of c] obtain msg where "e = Error msg" "in_world t"
      by (cases e) auto
    with rd Inl have "readStep now c = (Inr False, t)" by (simp add: readStep_def)
    with \<open>in_world t\<close> show ?thesis by blast
  next
    case (Inr data)
    with rd assms have t: "in_world t" using runs_Inr [OF runs_read_world, of c] by simp
    obtain d k where dec: "GameCrypt_Decrypt data (c_gsCrypt t) = (d, k)" by (metis prod.exhaust)
    have wf: "wf_crypt (c_gsCrypt t)" using t unfolding in_world_def by (blast elim: gs_inE)
    then have "wf_crypt k" "initd (c_gsCrypt t) \<longrightarrow> initd k"
      using wf_crypt_preserved(3) [OF wf, of data] GameCrypt_frame(4) [of data "c_gsCrypt t"] dec
      by simp_all
    with t have u: "in_world (t\<lparr>c_gsCrypt := k\<rparr>)" by simp
    show ?thesis
    proof (cases "d = []")
      case True
      with rd Inr dec have "readStep now c = (Inr True, t\<lparr>c_gsCrypt := k\<rparr>)"
        by (simp add: readStep_def)
      with u show ?thesis by blast
    next
      case False
      then obtain x e where h: "handlePacket now d (t\<lparr>c_gsCrypt := k\<rparr>) = (Inr x, e)"
        and v: "only_view (t\<lparr>c_gsCrypt := k\<rparr>) e" "targets_ok e"
        using views_handlePacket [of d now] u unfolding views_def in_world_def by blast
      from u v have "in_world e" by (simp add: in_world_def gs_in_def only_viewD)
      moreover from rd Inr dec False h have "readStep now c = (Inr True, e)"
        by (simp add: readStep_def andThen_def)
      ultimately show ?thesis by blast
    qed
  qed
qed

lemma runReadLoop_world:
  "in_world c \<Longrightarrow> \<exists>b d. runReadLoop nows c = (Inr b, d) \<and> in_world d"
proof (induction nows arbitrary: c)
  case Nil
  then have "runReadLoop [] c = (Inr True, c)" by simp
  with Nil show ?case by blast
next
  case (Cons now nows)
  obtain b d where "readStep now c = (Inr b, d)" "in_world d" using readStep_world Cons.prems by blast
  with Cons.IH [of d] show ?case by (cases b) (auto simp: andThen_def)
qed

section \<open>Reading and sending do not interfere\<close>

definition set_view :: "'k Client \<Rightarrow> 'k Client \<Rightarrow> 'k Client" where
  "set_view v c = c\<lparr>c_attackChan := c_attackChan v, c_inventory := c_inventory v,
     c_skillReady := c_skillReady v, c_npcs := c_npcs v, c_npcsNext := c_npcsNext v,
     c_x := c_x v, c_y := c_y v, c_z := c_z v, c_mp := c_mp v, c_maxMp := c_maxMp v,
     c_pendingAppear := c_pendingAppear v, c_converged := c_converged v, c_dead := c_dead v\<rparr>"

definition set_recv :: "Reader option \<Rightarrow> byte list \<Rightarrow> byte list \<Rightarrow> 'k Client \<Rightarrow> 'k Client" where
  "set_recv r bs k c = c\<lparr>c_gsReader := r, gs_sock := (gs_sock c)\<lparr>rx := bs\<rparr>,
     c_gsCrypt := (c_gsCrypt c)\<lparr>inKey := k\<rparr>\<rparr>"

definition set_send :: "Writer option \<Rightarrow> byte list \<Rightarrow> nat \<Rightarrow> byte list \<Rightarrow> 'k Client \<Rightarrow> 'k Client" where
  "set_send w bs n k c = c\<lparr>c_gsWriter := w, gs_sock := (gs_sock c)\<lparr>tx := bs, writes_left := n\<rparr>,
     c_gsCrypt := (c_gsCrypt c)\<lparr>outKey := k\<rparr>\<rparr>"

lemma set_commute:
  "set_send w bs n k (set_recv r rs j c) = set_recv r rs j (set_send w bs n k c)"
  "set_send w bs n k (set_view v c) = set_view v (set_send w bs n k c)"
  by (simp_all add: set_send_def set_recv_def set_view_def)

lemma only_view_set: "only_view c d \<longleftrightarrow> d = set_view d c"
  by (simp add: only_view_def set_view_def)

text \<open>\<open>blind g m\<close>: \<open>m\<close> neither reads nor writes what \<open>g\<close> changes.\<close>

definition blind :: "('s \<Rightarrow> 's) \<Rightarrow> ('s, 'a) go \<Rightarrow> bool" where
  "blind g m \<longleftrightarrow> (\<forall>c. m (g c) = apsnd g (m c))"

named_theorems blind_rules \<open>computations that do not depend on a part of the state\<close>

lemma blindD: "blind g m \<Longrightarrow> m c = (r, d) \<Longrightarrow> m (g c) = (r, g d)"
  by (simp add: blind_def)

lemma blind_basic [blind_rules]: "blind g (ret x)" "blind g (throw e)" "blind g (liftR r)"
  by (simp_all add: blind_def)

lemma blind_modifyS [blind_rules]: "(\<And>c. f (g c) = g (f c)) \<Longrightarrow> blind g (modifyS f)"
  by (simp add: blind_def)

lemma blind_andThen [blind_rules]:
  "blind g m \<Longrightarrow> (\<And>x. blind g (f x)) \<Longrightarrow> blind g (andThen m f)"
  by (auto simp: blind_def andThen_def split: prod.splits sum.splits)

lemma blind_getS [blind_rules]:
  "(\<And>c. f (g c) = f c) \<Longrightarrow> (\<And>c. blind g (f c)) \<Longrightarrow> blind g (andThen getS f)"
  by (simp add: blind_def)

lemma blind_if [blind_rules]: "blind g m \<Longrightarrow> blind g n \<Longrightarrow> blind g (if b then m else n)"
  by simp

lemma blind_case_prod [blind_rules]: "(\<And>x y. blind g (f x y)) \<Longrightarrow> blind g (case p of (x, y) \<Rightarrow> f x y)"
  by (cases p) simp

lemma blind_via:
  assumes "\<And>c. get (g c) = get c" and "\<And>p c. put p (g c) = g (put p c)"
  shows "blind g (via get put m)"
  using assms by (auto simp: blind_def via_def split: option.splits prod.splits)

lemma blind_gs_send:
  "blind (set_recv r bs k) (gs_send n)" "blind (set_view v) (gs_send n)"
  by (auto simp: blind_def gs_send_def via_def Writer_Send_def conn_write_def set_recv_def
      set_view_def Let_def split: option.splits prod.splits nat.splits if_splits)

lemma blind_gs_payload:
  "blind (set_recv r bs k) (gs_payload n e)" "blind (set_view v) (gs_payload n e)"
  unfolding gs_payload_def
  by (rule blind_via; simp add: set_recv_def set_view_def)+

lemma blind_gs_encrypt:
  "blind (set_recv r bs k) (gs_encrypt n)" "blind (set_view v) (gs_encrypt n)"
  by (auto simp: blind_def gs_encrypt_def set_recv_def set_view_def Let_def
      GameCrypt_Encrypt_def split: option.splits prod.splits if_splits)

lemma blind_gs_request [blind_rules]:
  "blind (set_recv r bs k) (gs_request n e)" "blind (set_view v) (gs_request n e)"
  unfolding gs_request_def sendGS_def
  by (rule blind_andThen blind_gs_send blind_gs_payload blind_gs_encrypt)+

lemma Reader_Read_blind:
  assumes "Reader_Read (r, s) = (res, (r', s'))"
  shows "s' = s\<lparr>rx := rx s'\<rparr>"
    and "Reader_Read (r, s\<lparr>tx := bs, writes_left := n\<rparr>) = (res, (r', s'\<lparr>tx := bs, writes_left := n\<rparr>))"
proof -
  have f: "fill i (r, s\<lparr>tx := bs, writes_left := n\<rparr>) =
      (case fill i (r, s) of (res, (r', s')) \<Rightarrow> (res, (r', s'\<lparr>tx := bs, writes_left := n\<rparr>)))" for i r s
    by (simp add: fill_def readFull_def)
  have g: "fill i (r, s) = (res, (r', s')) \<Longrightarrow> s' = s\<lparr>rx := rx s'\<rparr>" for i r s res r' s'
    by (auto simp: fill_def readFull_def split: if_splits)
  show "Reader_Read (r, s\<lparr>tx := bs, writes_left := n\<rparr>) = (res, (r', s'\<lparr>tx := bs, writes_left := n\<rparr>))"
    using assms unfolding Reader_Read_def
    by (auto simp: andThen_def f Let_def split: prod.splits sum.splits if_splits)
  show "s' = s\<lparr>rx := rx s'\<rparr>"
    using assms unfolding Reader_Read_def
    by (auto simp: andThen_def Let_def split: prod.splits sum.splits if_splits dest!: g) (metis Conn.surjective Conn.update_convs(1))+
qed

lemma blind_handlers:
  "blind (set_send w bs n k) (handleTeleport data)" "blind (set_send w bs n k) (handleDie data)"
  "blind (set_send w bs n k) (handleCombatBroadcast now data)"
  unfolding handleTeleport_def handleDie_def handleCombatBroadcast_def signal_attack_def
  by (rule blind_rules | simp add: set_send_def; fail)+

lemma blind_handlePacket: "blind (set_send w bs n k) (handlePacket now data)"
  unfolding handlePacket_def
  by (rule blind_rules blind_handlers
      | simp add: set_send_def setInventory_def addTarget_def Let_def; fail)+

lemma gs_read_blind:
  assumes "gs_read c = (res, d)"
  shows "gs_read (set_send w bs n k c) = (res, set_send w bs n k d)"
    and "d = set_recv (c_gsReader d) (rx (gs_sock d)) (inKey (c_gsCrypt c)) c"
proof -
  show "gs_read (set_send w bs n k c) = (res, set_send w bs n k d)"
    using assms
    by (auto simp: gs_read_def via_def set_send_def Reader_Read_blind(2)
        split: option.splits prod.splits)
  show "d = set_recv (c_gsReader d) (rx (gs_sock d)) (inKey (c_gsCrypt c)) c"
    using assms
    by (auto simp: gs_read_def via_def set_recv_def dest!: Reader_Read_blind(1)
        split: option.splits prod.splits)
qed

text \<open>A turn of the read loop: new reader, new incoming key, new view, and nothing else.\<close>

lemma readStep_blind:
  assumes "readStep now c = (res, d)"
  shows "readStep now (set_send w bs n k c) = (res, set_send w bs n k d)"
proof -
  obtain r t where rd: "gs_read c = (r, t)" by (metis prod.exhaust)
  note rd' = gs_read_blind(1) [OF rd, of w bs n k]
  show ?thesis
  proof (cases r)
    case (Inl e)
    with assms rd rd' show ?thesis by (auto simp: readStep_def split: fault.splits)
  next
    case (Inr data)
    obtain dec kk where dec: "GameCrypt_Decrypt data (c_gsCrypt t) = (dec, kk)" by (metis prod.exhaust)
    then have dec': "GameCrypt_Decrypt data (c_gsCrypt (set_send w bs n k t)) = (dec, kk\<lparr>outKey := k\<rparr>)"
      by (auto simp: GameCrypt_Decrypt_def set_send_def split: if_splits)
    have eq: "(set_send w bs n k t)\<lparr>c_gsCrypt := kk\<lparr>outKey := k\<rparr>\<rparr> = set_send w bs n k (t\<lparr>c_gsCrypt := kk\<rparr>)"
      by (simp add: set_send_def)
    have bl: "blind (set_send w bs n k) (andThen (handlePacket now dec) (\<lambda>_. ret True))"
      by (intro blind_andThen blind_handlePacket blind_basic)
    show ?thesis
    proof (cases "dec = []")
      case True
      with assms rd rd' Inr dec dec' eq show ?thesis by (simp add: readStep_def)
    next
      case False
      with assms rd Inr dec have "andThen (handlePacket now dec) (\<lambda>_. ret True) (t\<lparr>c_gsCrypt := kk\<rparr>) = (res, d)"
        by (simp add: readStep_def)
      note run = blindD [OF bl this]
      have "readStep now (set_send w bs n k c) =
          andThen (handlePacket now dec) (\<lambda>_. ret True) (set_send w bs n k (t\<lparr>c_gsCrypt := kk\<rparr>))"
        using rd' Inr dec' eq False by (simp add: readStep_def)
      also note run
      finally show ?thesis .
    qed
  qed
qed

lemma set_recv_twice: "set_recv r bs j (set_recv r' bs' j' c) = set_recv r bs j c"
  by (simp add: set_recv_def)

lemma readStep_effect:
  assumes "readStep now c = (res, d)"
  shows "\<exists>r bs j v. d = set_view v (set_recv r bs j c)"
proof -
  have self: "set_view c' c' = c'" for c' :: "'a Client" by (simp add: set_view_def)
  obtain q t where rd: "gs_read c = (q, t)" by (metis prod.exhaust)
  note t = gs_read_blind(2) [OF rd]
  show ?thesis
  proof (cases q)
    case (Inl e)
    with assms rd have "d = t" by (auto simp: readStep_def split: fault.splits)
    with t self show ?thesis by metis
  next
    case (Inr data)
    obtain dec kk where dec: "GameCrypt_Decrypt data (c_gsCrypt t) = (dec, kk)" by (metis prod.exhaust)
    then have "kk = (c_gsCrypt t)\<lparr>inKey := inKey kk\<rparr>"
      by (auto simp: GameCrypt_Decrypt_def split: if_splits)
    then have "t\<lparr>c_gsCrypt := kk\<rparr> = set_recv (c_gsReader t) (rx (gs_sock t)) (inKey kk) t"
      by (simp add: set_recv_def)
    also have "\<dots> = set_recv (c_gsReader t) (rx (gs_sock t)) (inKey kk) c"
      by (subst (3) t) (rule set_recv_twice)
    finally have u: "t\<lparr>c_gsCrypt := kk\<rparr> = set_recv (c_gsReader t) (rx (gs_sock t)) (inKey kk) c" .
    show ?thesis
    proof (cases "dec = []")
      case True
      with assms rd Inr dec u have "d = set_recv (c_gsReader t) (rx (gs_sock t)) (inKey kk) c"
        by (simp add: readStep_def)
      with self show ?thesis by metis
    next
      case False
      then have "views (handlePacket now dec)" by (intro view_rules) simp
      then obtain x e where h: "handlePacket now dec (t\<lparr>c_gsCrypt := kk\<rparr>) = (Inr x, e)"
        "only_view (t\<lparr>c_gsCrypt := kk\<rparr>) e"
        unfolding views_def by blast
      with assms rd Inr dec False have "d = e" by (simp add: readStep_def andThen_def)
      with h(2) u show ?thesis unfolding only_view_set by metis
    qed
  qed
qed

lemma gs_request_effect:
  assumes "gs_request k e c = (res, d)"
  shows "\<exists>w bs n j. d = set_send w bs n j c"
proof -
  let ?R = "\<lambda>c d :: 'a Client. \<exists>w bs n j. d = set_send w bs n j c"
  have twice: "set_send w bs n j (set_send w' bs' n' j' c') = set_send w bs n j c'"
    for w bs n j w' bs' n' j' and c' :: "'a Client"
    by (simp add: set_send_def)
  have tr: "transp ?R" by (rule transpI) (use twice in blast)
  have self: "?R c' (c'\<lparr>c_gsWriter := w\<rparr>)" "?R c' c'" for w and c' :: "'a Client"
    unfolding set_send_def
    by (rule exI [of _ w] exI [of _ "tx (gs_sock c')"] exI [of _ "writes_left (gs_sock c')"]
        exI [of _ "outKey (c_gsCrypt c')"] exI [of _ "c_gsWriter c'"] | simp; fail)+
  have 1: "keeps ?R (gs_payload k e)"
    unfolding keeps_def gs_payload_def via_def
    using self by (auto split: option.splits prod.splits)
  have 2: "keeps ?R (gs_encrypt n)" for n
    unfolding keeps_def
  proof
    fix c' :: "'a Client"
    show "?R c' (snd (gs_encrypt n c'))"
    proof (cases "c_gsWriter c' = None \<or> (\<exists>w. c_gsWriter c' = Some w \<and> n > length (drop HeaderSize (wbuf w)))")
      case True
      then have "snd (gs_encrypt n c') = c'" by (auto simp: gs_encrypt_def Let_def)
      with self(2) show ?thesis by simp
    next
      case False
      then obtain w where w: "c_gsWriter c' = Some w" "\<not> n > length (drop HeaderSize (wbuf w))" by auto
      obtain enc kk where enc: "GameCrypt_Encrypt (take n (drop HeaderSize (wbuf w))) (c_gsCrypt c') = (enc, kk)"
        by (metis prod.exhaust)
      then have kk: "kk = (c_gsCrypt c')\<lparr>outKey := outKey kk\<rparr>"
        by (auto simp: GameCrypt_Encrypt_def split: if_splits)
      have "snd (gs_encrypt n c') = set_send (Some (w\<lparr>wbuf := write_at HeaderSize enc (wbuf w)\<rparr>))
          (tx (gs_sock c')) (writes_left (gs_sock c')) (outKey kk) c'"
        using w enc by (subst set_send_def, subst kk [symmetric]) (simp add: gs_encrypt_def Let_def)
      then show ?thesis by blast
    qed
  qed
  have 3: "keeps ?R (gs_send n)" for n
    unfolding keeps_def
  proof
    fix c' :: "'a Client"
    show "?R c' (snd (gs_send n c'))"
    proof (cases "c_gsWriter c'")
      case None
      with self(2) show ?thesis by (simp add: gs_send_def via_def)
    next
      case (Some w)
      obtain q w' s' where ws: "Writer_Send n (w, gs_sock c') = (q, (w', s'))" by (metis prod.exhaust)
      then have "s' = (gs_sock c')\<lparr>tx := tx s', writes_left := writes_left s'\<rparr>"
        by (auto simp: Writer_Send_def conn_write_def Let_def split: if_splits prod.splits nat.splits)
      with Some ws have "snd (gs_send n c') = set_send (Some w') (tx s') (writes_left s') (outKey (c_gsCrypt c')) c'"
        by (simp add: gs_send_def via_def set_send_def)
      then show ?thesis by blast
    qed
  qed
  have "keeps ?R (gs_request k e)"
    unfolding gs_request_def sendGS_def
    by (rule keeps_andThen [OF tr] 1 2 3)+
  then show ?thesis using keepsD [of ?R "gs_request k e" c] assms by simp
qed

text \<open>
  C4. A turn of the read loop and a send of the action loop commute: in either order both have the
  same result and leave the same client, so neither the bytes on the wire nor what the bot sees
  depends on how the two goroutines are interleaved.
\<close>

theorem read_send_commute:
  assumes "gs_request k e c = (r, c1)" and "readStep now c = (q, c2)"
  shows "\<exists>d. gs_request k e c2 = (r, d) \<and> readStep now c1 = (q, d)"
proof -
  obtain w bs n j where c1: "c1 = set_send w bs n j c" using gs_request_effect [OF assms(1)] by blast
  obtain rd ys i v where c2: "c2 = set_view v (set_recv rd ys i c)" using readStep_effect [OF assms(2)] by blast
  have "gs_request k e c2 = (r, set_view v (set_recv rd ys i c1))"
    unfolding c2 using blindD [OF blind_gs_request(2) blindD [OF blind_gs_request(1) assms(1)]] .
  moreover have "readStep now c1 = (q, set_send w bs n j c2)"
    unfolding c1 by (rule readStep_blind [OF assms(2)])
  ultimately show ?thesis by (simp add: c1 c2 set_commute)
qed

theorem read_send_commute_witness:
  "let c = sample_game StateGSLoggedIn (frame [1, 2]);
       sent = gs_request 4 EncodeGSAppearingTo c; got = readStep 0 c
   in \<exists>d. gs_request 4 EncodeGSAppearingTo (snd got) = (fst sent, d) \<and>
        readStep 0 (snd sent) = (fst got, d)"
  unfolding Let_def by (rule read_send_commute; rule prod.collapse [symmetric])

text \<open>
  The read loop never panics: for any bytes the game server sends and at any times, its turns
  run to their end and leave the client in the world with an intact target list.
\<close>

theorem runReadLoop_safe:
  assumes "in_world c"
  shows "\<exists>b d. runReadLoop nows c = (Inr b, d) \<and> in_world d"
  using assms by (rule runReadLoop_world)

lemma sample_in_world: "in_world (sample_game StateGSLoggedIn bs)"
  using sample_game_inv [of StateGSLoggedIn]
  by (simp add: in_world_def targets_ok_def holds_game_def sample_game_def NewClient_def no_conn_def)

theorem runReadLoop_safe_witness:
  "\<exists>b d. runReadLoop [0, 1] (sample_game StateGSLoggedIn (frame [] @ frame [1])) = (Inr b, d) \<and> in_world d"
  using sample_in_world by (rule runReadLoop_safe)

section \<open>Skill cooldowns\<close>

text \<open>
  C12. A MagicSkillUse packet of the bot's own cast starts the cooldown: the skill can be cast again
  exactly when the mana suffices and the announced time has passed. The action loop is told of
  the cast only when the four bytes before the caster's id happen to be that id as well.
\<close>

theorem own_skill_use:
  assumes "33 \<le> length data" and "data ! 0 = OpGSMagicSkillUse" and "u32_at data 5 = c_objectID c"
    and "0 < sint (u32_at data 29)"
  shows "\<exists>d. handlePacket now data c = (Inr (), d) \<and>
    (\<forall>later. canCast later (u32_at data 13) d \<longleftrightarrow>
       15 \<le> sint (c_mp c) \<and> now + sint (u32_at data 29) * 1000000 \<le> later) \<and>
    c_attackChan d = (if u32_at data 1 = c_objectID c then max 1 (c_attackChan c) else c_attackChan c)"
proof -
  let ?c1 = "if u32_at data 1 = c_objectID c then signal_attack c else c"
  let ?d = "?c1\<lparr>c_skillReady := (c_skillReady ?c1)(u32_at data 13 \<mapsto> now + sint (u32_at data 29) * 1000000)\<rparr>"
  have id: "c_objectID ?c1 = c_objectID c" "c_mp ?c1 = c_mp c" by (simp_all add: signal_attack_def)
  have "0 < length data" using assms(1) by linarith
  then have op: "idx data 0 = Inr OpGSMagicSkillUse" using assms(2) by simp
  then have "handlePacket now data c = handleCombatBroadcast now data c"
    by (simp add: handlePacket_def gs_ops)
  also have "\<dots> = (Inr (), ?d)"
  proof -
    have "ParseOwnSkillReuse data (c_objectID ?c1) = Inr (u32_at data 13, u32_at data 29, True)"
      unfolding id(1) using assms(1,3) op by (simp add: ParseOwnSkillReuse_def)
    with assms(1,4) op show ?thesis
      by (simp add: handleCombatBroadcast_def andThen_assoc gs_ops)
  qed
  finally have h: "handlePacket now data c = (Inr (), ?d)" .
  show ?thesis
  proof (intro exI conjI)
    show "handlePacket now data c = (Inr (), ?d)" by (rule h)
    show "\<forall>later. canCast later (u32_at data 13) ?d \<longleftrightarrow>
       15 \<le> sint (c_mp c) \<and> now + sint (u32_at data 29) * 1000000 \<le> later"
      using id by (auto simp: canCast_def)
    show "c_attackChan ?d = (if u32_at data 1 = c_objectID c then max 1 (c_attackChan c) else c_attackChan c)"
      by (simp add: signal_attack_def max_def)
  qed
qed

theorem own_skill_use_witness:
  "let c = (sample_game StateGSLoggedIn [])\<lparr>c_objectID := 7, c_mp := 50\<rparr>;
       data = [OpGSMagicSkillUse] @ replicate 4 0 @ [7, 0, 0, 0] @ replicate 4 0 @ [153, 4, 0, 0] @
         replicate 12 0 @ [100, 0, 0, 0];
       d = snd (handlePacket 5 data c)
   in \<not> canCast 100000004 1177 d \<and> canCast 100000005 1177 d \<and> c_attackChan d = 0"
proof -
  let ?c = "(sample_game StateGSLoggedIn [])\<lparr>c_objectID := 7, c_mp := 50\<rparr>"
  let ?data = "[OpGSMagicSkillUse] @ replicate 4 0 @ [7, 0, 0, 0] @ replicate 4 0 @ [153, 4, 0, 0] @
         replicate 12 0 @ [100, 0, 0, 0] :: byte list"
  have v: "u32_at ?data 5 = 7" "u32_at ?data 29 = 100" "u32_at ?data 13 = 1177" "u32_at ?data 1 = 0"
    by code_simp+
  have "c_objectID ?c = 7" "c_attackChan ?c = 0" "sint (c_mp ?c) = 50"
    by (simp_all add: sample_game_def NewClient_def)
  with v own_skill_use [of ?data ?c 5] show ?thesis by (auto simp: Let_def)
qed

end
