(* ===== verification/Traffic.thy ===== *)
theory Traffic
  imports ReadLoop
begin

text \<open>
  What a client puts on the wire. \<open>sent P c c'\<close> says that on the way from \<open>c\<close> to \<open>c'\<close> the client
  sent some packets, all of them in \<open>P\<close>, each encrypted under the key its predecessor left, and
  after a failed write nothing more; \<open>produces\<close> is what an encoder must guarantee for that.
\<close>

section \<open>Packets sent\<close>

abbreviation encrypted :: "byte list list \<Rightarrow> GameCrypt \<Rightarrow> byte list list" where
  "encrypted ps k \<equiv> fst (runAll GameCrypt_Encrypt ps k)"

definition sent :: "(byte list \<Rightarrow> bool) \<Rightarrow> 'k Client \<Rightarrow> 'k Client \<Rightarrow> bool" where
  "sent P c c' \<longleftrightarrow> initd (c_gsCrypt c') = initd (c_gsCrypt c) \<and>
     (\<exists>ps. list_all P ps \<and>
        tx (gs_sock c') = tx (gs_sock c) @ concat (map frame (encrypted ps (c_gsCrypt c))) \<and>
        (gs_up c' \<longrightarrow> outKey (c_gsCrypt c') = outKey (snd (runAll GameCrypt_Encrypt ps (c_gsCrypt c)))) \<and>
        (\<not> gs_up c \<longrightarrow> ps = [] \<and> \<not> gs_up c'))"

lemma Encrypt_cong:
  assumes "outKey a = outKey b" and "initd a = initd b"
  shows "fst (GameCrypt_Encrypt p a) = fst (GameCrypt_Encrypt p b)"
    and "outKey (snd (GameCrypt_Encrypt p a)) = outKey (snd (GameCrypt_Encrypt p b))"
    and "initd (snd (GameCrypt_Encrypt p a)) = initd (snd (GameCrypt_Encrypt p b))"
  using assms by (simp_all add: GameCrypt_Encrypt_def)

lemma runAll_Encrypt_cong:
  "outKey a = outKey b \<Longrightarrow> initd a = initd b \<Longrightarrow>
     encrypted ps a = encrypted ps b \<and>
     outKey (snd (runAll GameCrypt_Encrypt ps a)) = outKey (snd (runAll GameCrypt_Encrypt ps b))"
proof (induction ps arbitrary: a b)
  case Nil
  then show ?case by simp
next
  case (Cons p ps)
  note e = Encrypt_cong [OF Cons.prems, of p]
  show ?case using Cons.IH [OF e(2,3)] e(1) by (simp add: Let_def split_beta)
qed

lemma runAll_append:
  "runAll f (ps @ qs) k = (fst (runAll f ps k) @ fst (runAll f qs (snd (runAll f ps k))),
     snd (runAll f qs (snd (runAll f ps k))))"
  by (induction ps arbitrary: k) (simp_all add: Let_def split_beta)

lemma runAll_initd: "initd (snd (runAll GameCrypt_Encrypt ps k)) = initd k"
  by (induction ps arbitrary: k) (simp_all add: Let_def split_beta)

lemma sent_refl [simp]: "sent P c c"
  unfolding sent_def by (simp add: exI [of _ "[]"])

lemma sent_trans:
  assumes "sent P c d" and "sent P d e"
  shows "sent P c e"
proof -
  from assms(1) obtain ps where ps: "initd (c_gsCrypt d) = initd (c_gsCrypt c)" "list_all P ps"
    "tx (gs_sock d) = tx (gs_sock c) @ concat (map frame (encrypted ps (c_gsCrypt c)))"
    "gs_up d \<longrightarrow> outKey (c_gsCrypt d) = outKey (snd (runAll GameCrypt_Encrypt ps (c_gsCrypt c)))"
    "\<not> gs_up c \<longrightarrow> ps = [] \<and> \<not> gs_up d"
    unfolding sent_def by blast
  from assms(2) obtain qs where qs: "initd (c_gsCrypt e) = initd (c_gsCrypt d)" "list_all P qs"
    "tx (gs_sock e) = tx (gs_sock d) @ concat (map frame (encrypted qs (c_gsCrypt d)))"
    "gs_up e \<longrightarrow> outKey (c_gsCrypt e) = outKey (snd (runAll GameCrypt_Encrypt qs (c_gsCrypt d)))"
    "\<not> gs_up d \<longrightarrow> qs = [] \<and> \<not> gs_up e"
    unfolding sent_def by blast
  show ?thesis
  proof (cases "gs_up d")
    case True
    let ?k = "snd (runAll GameCrypt_Encrypt ps (c_gsCrypt c))"
    have eq: "encrypted qs (c_gsCrypt d) = encrypted qs ?k"
      "outKey (snd (runAll GameCrypt_Encrypt qs (c_gsCrypt d))) = outKey (snd (runAll GameCrypt_Encrypt qs ?k))"
      using runAll_Encrypt_cong [of "c_gsCrypt d" ?k qs] ps(1,4) True by (simp_all add: runAll_initd)
    show ?thesis
      unfolding sent_def using ps qs True eq
      by (intro conjI exI [of _ "ps @ qs"]) (auto simp: runAll_append)
  next
    case False
    with ps qs show ?thesis unfolding sent_def by (intro conjI exI [of _ ps]) auto
  qed
qed

lemma sent_weaken: "sent P c d \<Longrightarrow> (\<And>p. P p \<Longrightarrow> Q p) \<Longrightarrow> sent Q c d"
  unfolding sent_def list_all_iff by blast

text \<open>A change of the client that leaves the outgoing half alone sends nothing.\<close>

lemma sent_nothing:
  assumes "gs_sock d = (gs_sock c)\<lparr>rx := bs\<rparr>" and "outKey (c_gsCrypt d) = outKey (c_gsCrypt c)"
    and "initd (c_gsCrypt d) = initd (c_gsCrypt c)"
  shows "sent P c d"
  unfolding sent_def using assms by (intro conjI exI [of _ "[]"]) (simp_all add: gs_up_def)

section \<open>One packet\<close>

definition produces :: "nat \<Rightarrow> (gslice, nat) go \<Rightarrow> (byte list \<Rightarrow> bool) \<Rightarrow> bool" where
  "produces k e P \<longleftrightarrow> k \<le> 65533 \<and> same_size e \<and> (\<forall>s. wf_slice s \<and> slen s = k \<longrightarrow>
     (\<exists>n t. e s = (Inr n, t) \<and> n \<le> k \<and> P (take n (mem t))))"

context packet_encoder
begin

lemma produces_encode:
  "same_size (encode m) \<Longrightarrow> length (bytes m) \<le> k \<Longrightarrow> k \<le> 65533 \<Longrightarrow> P (bytes m) \<Longrightarrow>
     produces k (encode m) P"
  unfolding produces_def by (auto simp: encode_ok)

end

lemma after_send_sent:
  assumes "gs_up c" and "P bs"
  shows "sent P c (after_send bs w c)"
  unfolding sent_def
  by (intro conjI exI [of _ "[bs]"]) (use assms in \<open>auto simp: after_send_def Let_def split_beta gs_up_def\<close>)

lemma gs_request_sent_in:
  assumes "gs_in Ss c" and "produces k e P"
  shows "\<exists>r d. gs_request k e c = (r, d) \<and> r \<noteq> Inl Panic \<and> gs_in Ss d \<and> sent P c d \<and>
    (gs_up c \<longrightarrow> r = Inr () \<and> (\<exists>p w. P p \<and> d = after_send p w c)) \<and> (\<not> gs_up c \<longrightarrow> r \<noteq> Inr ())"
proof -
  obtain w where w: "c_gsWriter c = Some w" "wf_writer w"
    using assms(1) by (rule gs_inE)
  have k: "k \<le> 65533" "same_size e" using assms(2) by (simp_all add: produces_def)
  then have k2: "k + 2 \<le> 65535" by simp
  note prep = wf_prepared [OF w(2) k2]
  obtain n t where e: "e (Writer_Prepare k w) = (Inr n, t)" and n: "n \<le> k" and P: "P (take n (mem t))"
    using assms(2) prep unfolding produces_def by (metis gslice.select_convs(2))
  have "length (mem t) = length (mem (Writer_Prepare k w))"
    using same_sizeD [OF k(2) e] prep by simp
  also have "\<dots> = 65533" using w(2) prep(1) by (simp add: wf_writer_def MaxPacketSize_def)
  finally have lt: "length (mem t) = 65533" .
  let ?w1 = "keep_payload t w" and ?c1 = "c\<lparr>c_gsWriter := Some (keep_payload t w)\<rparr>"
  note kp = keep_payload_drop [OF w(2) lt]
  have 1: "gs_payload k e c = (Inr n, ?c1)"
    using w(1) e by (simp add: gs_payload_def via_def on_payload_def)
  have world1: "gs_in Ss ?c1" using assms(1) kp(2) by simp
  have n': "n \<le> 65533" using n k(1) by simp
  have req: "gs_request k e c = sendGS n ?c1" using 1 by (simp add: gs_request_def andThen_def)
  obtain r d where sd: "sendGS n ?c1 = (r, d)" by (metis prod.exhaust)
  have safe: "r \<noteq> Inl Panic" and world: "gs_in Ss d"
    using sd world1 runs_Inr [OF runs_sendGS [OF n'], of Ss] runs_Inl [OF runs_sendGS [OF n'], of Ss]
    by (cases r; fastforce)+
  have up1: "gs_up ?c1 = gs_up c" by (simp add: gs_up_def)
  show ?thesis
  proof (cases "gs_up c")
    case True
    then obtain w2 where "sendGS n ?c1 = (Inr (), after_send (take n (mem t)) w2 ?c1)"
      using sendGS_ok [OF _ kp(2), of ?c1 n "take n (mem t)"] n' kp(1) up1 by auto
    moreover have "after_send (take n (mem t)) w2 ?c1 = after_send (take n (mem t)) w2 c"
      by (simp add: after_send_def)
    ultimately have "gs_request k e c = (Inr (), after_send (take n (mem t)) w2 c)" "r = Inr ()"
      "d = after_send (take n (mem t)) w2 c"
      using req sd by simp_all
    with world P True after_send_sent [OF True, of P, OF P] show ?thesis by blast
  next
    case False
    have "r \<noteq> Inr ()" using sendGS_Inr(1) [of n ?c1 d] sd kp(2) False up1 by auto
    moreover have "gs_sock d = gs_sock c \<and> initd (c_gsCrypt d) = initd (c_gsCrypt c)"
    proof -
      obtain r2 c2 where enc: "gs_encrypt n ?c1 = (r2, c2)" by (metis prod.exhaust)
      have c2: "gs_sock c2 = gs_sock c \<and> initd (c_gsCrypt c2) = initd (c_gsCrypt c)"
        using enc by (auto simp: gs_encrypt_def Let_def GameCrypt_Encrypt_def split: if_splits)
      have nowrite: "conn_write bs (gs_sock c2) = (Inl (Error e), gs_sock c2)
          \<or> (\<exists>e. conn_write bs (gs_sock c2) = (Inl (Error e), gs_sock c2))" for bs e
        using False c2 by (auto simp: conn_write_def gs_up_def)
      then have "snd (conn_write bs (gs_sock c2)) = gs_sock c2" for bs by (metis snd_conv)
      then have "gs_sock (snd (gs_send n c2)) = gs_sock c2 \<and> c_gsCrypt (snd (gs_send n c2)) = c_gsCrypt c2"
        by (auto simp: gs_send_def via_def Writer_Send_def Let_def split: option.splits prod.splits)
          (metis snd_conv)+
      moreover have "d = c2 \<or> d = snd (gs_send n c2)"
        using sd enc by (auto simp: sendGS_def andThen_def split: sum.splits)
      ultimately show ?thesis using c2 by auto
    qed
    then have "sent P c d"
      unfolding sent_def using False by (intro conjI exI [of _ "[]"]) (auto simp: gs_up_def)
    ultimately show ?thesis using req sd safe world False by auto
  qed
qed

lemma gs_request_sent:
  assumes "in_world c" and "produces k e P"
  shows "\<exists>r d. gs_request k e c = (r, d) \<and> r \<noteq> Inl Panic \<and> in_world d \<and> sent P c d \<and>
    (gs_up c \<longrightarrow> r = Inr () \<and> (\<exists>p w. P p \<and> d = after_send p w c)) \<and> (\<not> gs_up c \<longrightarrow> r \<noteq> Inr ())"
proof -
  from assms(1) have c: "gs_in {StateGSLoggedIn} c" "targets_ok c" "holds_game c" by (simp_all add: in_world_def)
  from gs_request_sent_in [OF c(1) assms(2)] obtain r d where rd: "gs_request k e c = (r, d)"
    "r \<noteq> Inl Panic" "gs_in {StateGSLoggedIn} d" "sent P c d"
    "gs_up c \<longrightarrow> r = Inr () \<and> (\<exists>p w. P p \<and> d = after_send p w c)" "\<not> gs_up c \<longrightarrow> r \<noteq> Inr ()"
    by blast
  have "targets_ok d" "holds_game d"
    using gs_request_effect [OF rd(1)] c(2,3) by (auto simp: set_send_def targets_ok_def holds_game_def)
  with rd show ?thesis by (auto simp: in_world_def)
qed

end
