(* ===== verification/Scenario.thy ===== *)
theory Scenario
  imports Traffic
begin

text \<open>
  \<open>internal/client/scenario.go\<close>: the functional scenarios A (create and enter), B (several
  characters) and C/D (enter and wait for the inventory), with their helpers. The read deadline
  that ends scenario C is one of the ways the stream of the connection ends. Each waiting loop
  ends because every packet uses up part of the stream.
\<close>

section \<open>Names, races and towns\<close>

record point =
  pt_x :: i32
  pt_y :: i32

definition radius :: i32 where
  "radius = 3000"

definition StarterClasses :: "i32 list" where
  "StarterClasses = [0, 10, 18, 25, 31, 38, 44, 49, 53]"

definition townCenter :: "i32 \<Rightarrow> point option" where
  "townCenter = map_of [
     (0, \<lparr>pt_x = - 71338, pt_y = 258271\<rparr>),
     (10, \<lparr>pt_x = - 90875, pt_y = 248162\<rparr>),
     (18, \<lparr>pt_x = 46045, pt_y = 41251\<rparr>),
     (25, \<lparr>pt_x = 46045, pt_y = 41251\<rparr>),
     (31, \<lparr>pt_x = 28295, pt_y = 11063\<rparr>),
     (38, \<lparr>pt_x = 28295, pt_y = 11063\<rparr>),
     (44, \<lparr>pt_x = - 56733, pt_y = - 113459\<rparr>),
     (49, \<lparr>pt_x = - 56733, pt_y = - 113459\<rparr>),
     (53, \<lparr>pt_x = 108644, pt_y = - 173947\<rparr>)]"

definition raceForClass :: "i32 \<Rightarrow> i32" where
  "raceForClass cls =
     (if cls = 0 \<or> cls = 10 then 0
      else if cls = 18 \<or> cls = 25 then 1
      else if cls = 31 \<or> cls = 38 then 2
      else if cls = 44 \<or> cls = 49 then 3
      else 4)"

text \<open>The loop of \<open>sanitizeName\<close>: it stops at the end of the account or at 16 bytes.\<close>

fun sanitize_loop :: "string \<Rightarrow> string \<Rightarrow> string" where
  "sanitize_loop [] b = b"
| "sanitize_loop (ch # rest) b =
     (if length b < 16 then sanitize_loop rest (if is_alnum ch then b @ [ch] else b) else b)"

definition sanitizeName :: "string \<Rightarrow> string" where
  "sanitizeName account =
     (let b = sanitize_loop account [] in if length b < 3 then ''BotTestPlayer'' else b)"

definition slotName :: "string \<Rightarrow> nat \<Rightarrow> string" where
  "slotName base slot = (let base = (if length base > 14 then take 14 base else base) in base @ itoa (int slot))"

text \<open>\<open>dx*dx+dy*dy > radius*radius\<close>, in \<open>int32\<close>.\<close>

definition far_from :: "point \<Rightarrow> i32 \<Rightarrow> i32 \<Rightarrow> bool" where
  "far_from tc px py =
     (let dx = px - pt_x tc; dy = py - pt_y tc in sint (dx * dx + dy * dy) > sint (radius * radius))"

section \<open>Lobby operations\<close>

definition createNamedCharacter :: "string \<Rightarrow> i32 \<Rightarrow> ('k Client, unit) go" where
  "createNamedCharacter name cls =
     andThen (gs_request 100 (EncodeGSCharacterCreateTo name (raceForClass cls) False cls 0 0 0)) (\<lambda>_.
     andThen recvGS (\<lambda>data.
     if length data = 0 then throw (Error ''scenario: empty create response'')
     else andThen (liftR (idx data 0)) (\<lambda>op.
       if op = OpGSCharCreateSuccess then ret ()
       else if op = OpGSCharCreateFail
       then throw (Error (''scenario: character create failed for class '' @ itoa (sint cls)))
       else throw (Error ''scenario: unexpected create response opcode''))))"

text \<open>The loop of \<open>selectAndEnter\<close>: empty and other packets are skipped.\<close>

function awaitSelected :: "'k Client \<Rightarrow> (u32 \<times> u32 \<times> i32 \<times> i32 \<times> i32) res \<times> 'k Client" where
  "awaitSelected c = (case recvGS c of
     (Inl e, t) \<Rightarrow> (Inl e, t)
   | (Inr data, t) \<Rightarrow>
       if length data = 0 then awaitSelected t
       else if data ! 0 = OpGSCharSelected then (DecodeCharSelected data, t)
       else awaitSelected t)"
  by pat_completeness auto
termination
  by (relation "measure (\<lambda>c. length (rx (gs_sock c)))") (auto intro: recvGS_consumes [OF sym])

declare awaitSelected.simps [simp del]

definition selectAndEnter :: "i32 \<Rightarrow> ('k Client, u32 \<times> u32 \<times> i32 \<times> i32 \<times> i32) go" where
  "selectAndEnter slot =
     andThen (gs_request 30 (EncodeGSCharacterSelectTo slot)) (\<lambda>_.
     andThen awaitSelected (\<lambda>r.
     andThen (gs_request 110 EncodeGSEnterWorldTo) (\<lambda>_.
     andThen (modifyS (\<lambda>c. c\<lparr>c_State := StateGSLoggedIn\<rparr>)) (\<lambda>_. ret r))))"

definition sendSlotOp :: "(i32 \<Rightarrow> (gslice, nat) go) \<Rightarrow> i32 \<Rightarrow> ('k Client, unit) go" where
  "sendSlotOp enc slot = gs_request 16 (enc slot)"

definition recvSelectionInfo :: "('k Client, CharSelectionInfo) go" where
  "recvSelectionInfo = andThen recvGS (\<lambda>data.
     andThen (liftR (idx data 0)) (\<lambda>op.
     if op \<noteq> OpGSCharSelectionInfo
     then throw (Error (''scenario: expected selection info, got opcode '' @ itoa (uint op)))
     else liftR (DecodeCharSelectionInfo data)))"

section \<open>Scenario A\<close>

definition ScenarioCreateAndEnter :: "i32 \<Rightarrow> ('k Client, unit) go" where
  "ScenarioCreateAndEnter cls =
     andThen HandshakeToLobby (\<lambda>info.
     andThen getS (\<lambda>c.
     andThen (if CharacterCount info = 0 then createNamedCharacter (sanitizeName (c_account c)) cls else ret ()) (\<lambda>_.
     andThen (selectAndEnter 0) (\<lambda>(objID, gotClass, px, py, pz).
     andThen (modifyS (\<lambda>c. c\<lparr>c_objectID := objID, c_classID := gotClass, c_x := px, c_y := py, c_z := pz\<rparr>)) (\<lambda>_.
     case townCenter cls of
       None \<Rightarrow> throw (Error (''scenario A: no town reference for class '' @ itoa (sint cls)))
     | Some tc \<Rightarrow>
         if far_from tc px py
         then throw (Error (''scenario A: class '' @ itoa (sint cls) @ '' spawned at ('' @ itoa (sint px) @ '','' @
           itoa (sint py) @ '') '' @ string_of [0xe2, 0x80, 0x94] @ '' not near its village ('' @
           itoa (sint (pt_x tc)) @ '','' @ itoa (sint (pt_y tc)) @ '')''))
         else ret ())))))"

section \<open>Scenario B\<close>

definition multiClasses :: "i32 list" where
  "multiClasses = [0, 10, 18]"

fun createMissing :: "string \<Rightarrow> nat list \<Rightarrow> ('k Client, unit) go" where
  "createMissing base [] = ret ()"
| "createMissing base (i # is) =
     andThen (createNamedCharacter (slotName base i) (multiClasses ! i)) (\<lambda>_. createMissing base is)"

text \<open>\<open>info.Characters[i]\<close>\<close>

definition char_at :: "CharSelectionInfo \<Rightarrow> nat \<Rightarrow> LobbyChar res" where
  "char_at info i = (if i < length (Characters info) then Inr (Characters info ! i) else Inl Panic)"

definition checkDeleted :: "CharSelectionInfo \<Rightarrow> unit res" where
  "checkDeleted info =
     (if unat (CharacterCount info) < 3
      then Inl (Error (''scenario B: expected 3 characters after delete, got '' @ itoa (uint (CharacterCount info))))
      else rbind (char_at info 1) (\<lambda>c1.
        if sint (DeleteTimer c1) \<le> 0 then Inl (Error ''scenario B: slot 1 was not marked for deletion'')
        else rbind (char_at info 0) (\<lambda>c0.
          if DeleteTimer c0 \<noteq> 0 then Inl (Error ''scenario B: delete hit the wrong slot (0 or 2 marked)'')
          else rbind (char_at info 2) (\<lambda>c2.
            if DeleteTimer c2 \<noteq> 0 then Inl (Error ''scenario B: delete hit the wrong slot (0 or 2 marked)'')
            else Inr ()))))"

definition checkRestored :: "CharSelectionInfo \<Rightarrow> unit res" where
  "checkRestored info = rbind (char_at info 1) (\<lambda>c1.
     if DeleteTimer c1 \<noteq> 0 then Inl (Error ''scenario B: restore did not clear slot 1's delete flag'')
     else Inr ())"

definition multiCharBody :: "CharSelectionInfo \<Rightarrow> ('k Client, unit) go" where
  "multiCharBody info = andThen getS (\<lambda>c.
     andThen (createMissing (sanitizeName (c_account c)) [unat (CharacterCount info)..<length multiClasses]) (\<lambda>_.
     andThen (sendSlotOp EncodeGSCharacterDeleteTo 1) (\<lambda>_.
     andThen recvSelectionInfo (\<lambda>info.
     andThen (liftR (checkDeleted info)) (\<lambda>_.
     andThen (sendSlotOp EncodeGSCharacterRestoreTo 1) (\<lambda>_.
     andThen recvSelectionInfo (\<lambda>info.
     andThen (liftR (checkRestored info)) (\<lambda>_.
     andThen (selectAndEnter 1) (\<lambda>(objID, gotClass, px, py, pz).
     if gotClass \<noteq> multiClasses ! 1
     then throw (Error (''scenario B: select slot 1 returned class '' @ itoa (uint gotClass) @ '', want '' @
       itoa (sint (multiClasses ! 1))))
     else ret ())))))))))"

definition ScenarioMultiChar :: "('k Client, unit) go" where
  "ScenarioMultiChar = andThen HandshakeToLobby multiCharBody"

section \<open>Scenario C and D\<close>

text \<open>\<open>c.gsConn.SetReadDeadline\<close>: on a nil connection it panics.\<close>

definition readDeadline :: "('k Client, unit) go" where
  "readDeadline = andThen getS (\<lambda>c. if c_gsConn c then ret () else throw Panic)"

text \<open>The loop that waits for the item list; the result is the gear it held.\<close>

function awaitItemList :: "'k Client \<Rightarrow> u32 list res \<times> 'k Client" where
  "awaitItemList c = (case recvGS c of
     (Inl Panic, t) \<Rightarrow> (Inl Panic, t)
   | (Inl (Error m), t) \<Rightarrow>
       (Inl (Error (''scenario C: no ItemList within window after enter: '' @ m)), t)
   | (Inr data, t) \<Rightarrow>
       if length data = 0 then awaitItemList t
       else if data ! 0 = OpGSItemList then
         if length data \<ge> 2 \<and> data ! 1 = 2
         then (case ExtractEquippableItems data of
             Inl e \<Rightarrow> (Inl e, t)
           | Inr items \<Rightarrow> if length items > 0 then (Inr items, setInventory items t) else (Inr [], t))
         else awaitItemList t
       else if data ! 0 = OpGSDie then
         if length data \<ge> 5 \<and> u32_at data 1 = c_objectID t
         then (Inl (Error ''scenario C: character died on entering the world''), t)
         else awaitItemList t
       else awaitItemList t)"
  by pat_completeness auto
termination
  by (relation "measure (\<lambda>c. length (rx (gs_sock c)))") (auto intro: recvGS_consumes [OF sym])

declare awaitItemList.simps [simp del]

definition equipFirst :: "u32 list \<Rightarrow> ('k Client, unit) go" where
  "equipFirst gear =
     (if length gear > 0
      then (\<lambda>c. case gs_request 15 (EncodeGSUseItemTo (gear ! 0) False) c of
          (Inl (Error m), t) \<Rightarrow> (Inl (Error (''scenario D: equip action failed: '' @ m)), t)
        | (Inl Panic, t) \<Rightarrow> (Inl Panic, t)
        | (Inr _, t) \<Rightarrow> (Inr (), t))
      else ret ())"

definition ScenarioEnterWorld :: "i32 \<Rightarrow> ('k Client, unit) go" where
  "ScenarioEnterWorld cls =
     andThen HandshakeToLobby (\<lambda>info.
     andThen getS (\<lambda>c.
     andThen (if CharacterCount info = 0 then createNamedCharacter (sanitizeName (c_account c)) cls else ret ()) (\<lambda>_.
     andThen (selectAndEnter 0) (\<lambda>(objID, _, px, py, pz).
     andThen (modifyS (\<lambda>c. c\<lparr>c_objectID := objID, c_x := px, c_y := py, c_z := pz\<rparr>)) (\<lambda>_.
     andThen readDeadline (\<lambda>_.
     andThen awaitItemList equipFirst))))))"

section \<open>Dispatch\<close>

text \<open>A panic in a scenario is recovered into an error; the client stays as it was left.\<close>

definition recovered :: "('k Client, unit) go \<Rightarrow> ('k Client, unit) go" where
  "recovered m = (\<lambda>c. case m c of
     (Inl Panic, t) \<Rightarrow> (Inl (Error ''scenario panic''), t)
   | (r, t) \<Rightarrow> (r, t))"

definition RunScenario :: "string \<Rightarrow> i32 \<Rightarrow> ('k Client, unit) go" where
  "RunScenario name cls = recovered
     (if name = ''A'' \<or> name = ''a'' then ScenarioCreateAndEnter cls
      else if name = ''B'' \<or> name = ''b'' then ScenarioMultiChar
      else if name = ''C'' \<or> name = ''c'' \<or> name = ''D'' \<or> name = ''d'' then ScenarioEnterWorld cls
      else throw (Error (''unknown scenario: '' @ name)))"

end
