(* ===== verification/ActionLoop.thy ===== *)
theory ActionLoop
  imports ReadLoop
begin

text \<open>
  The bot itself, \<open>runActionLoop\<close> and the actions it chooses from, in
  \<open>internal/client/client.go\<close>, and \<open>RunGameLoop\<close> around it. What the code takes from outside is a
  \<open>sched\<close>: the numbers the generator will draw, and one \<open>wait\<close> for every time the loop sleeps,
  polls the context or waits for an attack to land. A \<open>wait\<close> says how it ends and at which times
  the read loop, which runs on beside it, has had its turns; those turns are then taken on the
  client. A schedule is finite: when its waits are used up, the context is cancelled.
\<close>

datatype outcome = Cancelled | Elapsed | Signalled

record wait =
  w_reads :: "int list"
  w_now :: int
  w_out :: outcome

record 'f sched =
  draws :: "nat list"
  waits :: "wait list"
  clock :: int
  roamAngle :: 'f
  reading :: bool

type_synonym ('k, 'f) bot = "'k Client \<times> 'f sched"

text \<open>
  The only floating-point expressions of the loop, as functions: a heading drawn with
  \<open>rng.Float64() * 2 * math.Pi\<close>, and \<open>int32(math.Cos(angle) * stride)\<close> and its sine.
\<close>

record 'f floats =
  heading :: "nat \<Rightarrow> 'f"
  cosStride :: "'f \<Rightarrow> nat \<Rightarrow> i32"
  sinStride :: "'f \<Rightarrow> nat \<Rightarrow> i32"

definition onC :: "('k Client, 'a) go \<Rightarrow> (('k, 'f) bot, 'a) go" where
  "onC m = (\<lambda>(c, s). case m c of (r, d) \<Rightarrow> (r, (d, s)))"

definition raw_draw :: "(('k, 'f) bot, nat) go" where
  "raw_draw = (\<lambda>(c, s). case draws s of
     [] \<Rightarrow> (Inr 0, (c, s)) | d # ds \<Rightarrow> (Inr d, (c, s\<lparr>draws := ds\<rparr>)))"

text \<open>\<open>rng.IntN(n)\<close>, which panics for \<open>n <= 0\<close>.\<close>

definition IntN :: "nat \<Rightarrow> (('k, 'f) bot, nat) go" where
  "IntN n = (if n = 0 then throw Panic else andThen raw_draw (\<lambda>d. ret (d mod n)))"

definition read_turns :: "int list \<Rightarrow> (('k, 'f) bot, unit) go" where
  "read_turns ts = (\<lambda>(c, s).
     if \<not> reading s then (Inr (), (c, s))
     else case runReadLoop ts c of
       (Inl e, d) \<Rightarrow> (Inl e, (d, s))
     | (Inr goes_on, d) \<Rightarrow> (Inr (), (d, s\<lparr>reading := goes_on\<rparr>)))"

definition pause :: "(('k, 'f) bot, outcome) go" where
  "pause = (\<lambda>(c, s). case waits s of
     [] \<Rightarrow> (Inr Cancelled, (c, s))
   | w # ws \<Rightarrow> andThen (read_turns (w_reads w)) (\<lambda>_. ret (w_out w))
       (c, s\<lparr>waits := ws, clock := w_now w\<rparr>))"

definition sleepCtx :: "(('k, 'f) bot, bool) go" where
  "sleepCtx = andThen pause (\<lambda>out. ret (out \<noteq> Cancelled))"

text \<open>Encode, encrypt, send; the result is \<open>err == nil\<close>.\<close>

definition transmit :: "nat \<Rightarrow> (gslice, nat) go \<Rightarrow> (('k, 'f) bot, bool) go" where
  "transmit k encode = onC (succeeds (gs_request k encode))"

section \<open>The actions\<close>

definition ackTeleport :: "(('k, 'f) bot, bool) go" where
  "ackTeleport = andThen getS (\<lambda>(c, s).
     if \<not> c_pendingAppear c then ret True
     else andThen (onC (modifyS (\<lambda>c. c\<lparr>c_pendingAppear := False\<rparr>))) (\<lambda>_.
       transmit 4 EncodeGSAppearingTo))"

definition deathTaunts :: "string list" where
  "deathTaunts = [
     ''brb respawn, you're finished!'',
     ''I'll be right back and you're done'',
     ''lucky hit, wait till I return'',
     ''see you at the res point, then it's over'']"

definition doDeathTaunt :: "(('k, 'f) bot, bool) go" where
  "doDeathTaunt = andThen (IntN 3) (\<lambda>d.
     if d \<noteq> 0 then ret True
     else andThen (IntN (length deathTaunts)) (\<lambda>i.
       transmit 256 (EncodeGSSay2To (deathTaunts ! i) 0)))"

definition doRoam :: "'f floats \<Rightarrow> (('k, 'f) bot, bool) go" where
  "doRoam fl = andThen (IntN 4) (\<lambda>d.
     andThen (if d = 0 then andThen raw_draw (\<lambda>h. modifyS (\<lambda>(c, s). (c, s\<lparr>roamAngle := heading fl h\<rparr>)))
       else ret ()) (\<lambda>_.
     andThen (IntN 1200) (\<lambda>r.
     andThen getS (\<lambda>(c, s).
     let stride = 800 + r;
         targetX = c_x c + cosStride fl (roamAngle s) stride;
         targetY = c_y c + sinStride fl (roamAngle s) stride;
         targetZ = c_z c
     in andThen (transmit 30 (EncodeGSMoveToLocationTo targetX targetY targetZ (c_x c) (c_y c) (c_z c))) (\<lambda>ok.
        if \<not> ok then ret False
        else andThen sleepCtx (\<lambda>ok.
        if \<not> ok then ret False
        else andThen (onC (modifyS (\<lambda>c. c\<lparr>c_x := targetX, c_y := targetY\<rparr>))) (\<lambda>_.
        transmit 30 (EncodeGSValidatePositionTo targetX targetY targetZ 0))))))))"

definition socialActions :: "i32 list" where
  "socialActions = [12, 13, 16, 17, 24, 31]"

definition doSocialAction :: "(('k, 'f) bot, bool) go" where
  "doSocialAction = andThen (IntN (length socialActions)) (\<lambda>i.
     transmit 15 (EncodeGSRequestActionUseTo (socialActions ! i) False False))"

definition randomItem :: "(('k, 'f) bot, u32 option) go" where
  "randomItem = andThen getS (\<lambda>(c, s). case c_inventory c of
     None \<Rightarrow> ret None
   | Some items \<Rightarrow> if length items = 0 then ret None
       else andThen (IntN (length items)) (\<lambda>i. ret (Some (items ! i))))"

definition doUseItem :: "(('k, 'f) bot, bool) go" where
  "doUseItem = andThen randomItem (\<lambda>item. case item of
     None \<Rightarrow> ret True
   | Some itemObjID \<Rightarrow> transmit 15 (EncodeGSUseItemTo itemObjID False))"

definition randomTarget :: "(('k, 'f) bot, u32 option) go" where
  "randomTarget = andThen getS (\<lambda>(c, s).
     if length (c_npcs c) = 0 then ret None
     else andThen (IntN (length (c_npcs c))) (\<lambda>i. ret (Some (c_npcs c ! i))))"

definition sendAttack :: "u32 \<Rightarrow> (('k, 'f) bot, bool) go" where
  "sendAttack targetObjID = andThen getS (\<lambda>(c, s).
     andThen (transmit 20 (EncodeGSActionTo targetObjID (c_x c) (c_y c) (c_z c) 0)) (\<lambda>ok.
     if \<not> ok then ret False
     else andThen getS (\<lambda>(c', s').
       if c_classID c' = 10 \<and> canCast (clock s') 1177 c'
       then transmit 15 (EncodeGSRequestMagicSkillUseTo 1177 False False)
       else transmit 20 (EncodeGSAttackRequestTo targetObjID (c_x c) (c_y c) (c_z c) 0))))"

definition sweepLoot :: "(('k, 'f) bot, bool) go" where
  "sweepLoot = transmit 15 (EncodeGSRequestActionUseTo 5 False False)"

definition drain_attack :: "'k Client \<Rightarrow> 'k Client" where
  "drain_attack c = (if c_attackChan c > 0 then c\<lparr>c_attackChan := c_attackChan c - 1\<rparr> else c)"

text \<open>The combat loop; \<open>None\<close> when all switches were made, else what the function returns.\<close>

fun combat_loop :: "nat \<Rightarrow> (('k, 'f) bot, bool option) go" where
  "combat_loop 0 = ret None"
| "combat_loop (Suc n) =
     andThen pause (\<lambda>out.
     if out = Cancelled then ret (Some False)
     else andThen randomTarget (\<lambda>target. case target of
       None \<Rightarrow> ret (Some True)
     | Some targetObjID \<Rightarrow>
         andThen (sendAttack targetObjID) (\<lambda>ok.
         if \<not> ok then ret (Some False)
         else andThen (onC (modifyS drain_attack)) (\<lambda>_.
           andThen (IntN 1500) (\<lambda>_.
           andThen pause (\<lambda>out.
           if out = Cancelled then ret (Some False)
           else andThen (if out = Signalled then onC (modifyS drain_attack) else ret ()) (\<lambda>_.
             combat_loop n)))))))"

definition doCombat :: "(('k, 'f) bot, bool) go" where
  "doCombat = andThen (IntN 4) (\<lambda>d.
     andThen (combat_loop (2 + d)) (\<lambda>r. case r of Some b \<Rightarrow> ret b | None \<Rightarrow> sweepLoot))"

definition chatPhrases :: "string list" where
  "chatPhrases = [
     ''Hello everyone!'',
     ''L2GO-Headless-Client is awesome!'',
     ''Testing chat spam logic...'',
     ''Anyone wants to party?'',
     ''WTB some items!'',
     ''Selling mana potions 1k each'',
     ''Human Mystic power!'',
     ''Human Fighter rocks!'']"

definition chatChannels :: "i32 list" where
  "chatChannels = [0, 1, 8]"

definition doChat :: "(('k, 'f) bot, bool) go" where
  "doChat = andThen (IntN (length chatPhrases)) (\<lambda>p.
     andThen (IntN (length chatChannels)) (\<lambda>ch.
     transmit 256 (EncodeGSSay2To (chatPhrases ! p) (chatChannels ! ch))))"

section \<open>The choice of an action, and the loops\<close>

text \<open>0 = Move, 1 = Social Action, 2 = Use Item, 3 = Attack, 4 = Chat Spam\<close>

definition chooseAction :: "bool \<Rightarrow> (('k, 'f) bot, nat) go" where
  "chooseAction stationary =
     andThen (IntN 5) (\<lambda>a0.
     andThen getS (\<lambda>(c, s).
     andThen (if stationary \<or> c_converged c
       then ret (if a0 = 0 then 3 else a0)
       else if a0 \<noteq> 0
       then andThen (IntN 3) (\<lambda>d. ret (if d = 0 then 0 else a0))
       else ret a0) (\<lambda>a1.
     andThen getS (\<lambda>(c, s).
     let a2 = (if a1 = 2 \<and> inventoryCount c = 0 then 1 else a1);
         a3 = (if a2 = 3 \<and> targetCount c = 0 then 0 else a2)
     in ret a3))))"

definition doAction :: "'f floats \<Rightarrow> bool \<Rightarrow> (('k, 'f) bot, bool) go" where
  "doAction fl stationary = andThen (chooseAction stationary) (\<lambda>actionChoice.
     if actionChoice = 0 then doRoam fl
     else if actionChoice = 1 then doSocialAction
     else if actionChoice = 2 then doUseItem
     else if actionChoice = 3 then doCombat
     else if actionChoice = 4 then doChat
     else ret True)"

text \<open>One turn of \<open>runActionLoop\<close>: the result says whether the loop goes on.\<close>

definition actionTurn :: "'f floats \<Rightarrow> bool \<Rightarrow> (('k, 'f) bot, bool) go" where
  "actionTurn fl stationary = andThen ackTeleport (\<lambda>ok.
     if \<not> ok then ret False
     else andThen (IntN 3) (\<lambda>_. andThen sleepCtx (\<lambda>ok.
     if \<not> ok then ret False
     else andThen getS (\<lambda>(c, s).
       if c_dead c then doDeathTaunt else doAction fl stationary))))"

section \<open>Every turn uses up the schedule\<close>

text \<open>\<open>no_longer\<close>: the computation does not put waits back; a turn that goes on has taken one.\<close>

definition no_longer :: "('k, 'f) bot \<Rightarrow> ('k, 'f) bot \<Rightarrow> bool" where
  "no_longer b b' \<longleftrightarrow> length (waits (snd b')) \<le> length (waits (snd b))"

lemma no_longer_rel [simp]: "reflp no_longer" "transp no_longer"
  by (auto simp: reflp_def transp_def no_longer_def)

named_theorems sched_rules \<open>computations that do not lengthen the schedule\<close>

lemmas keeps_no_longer [sched_rules] =
  keeps_basic [OF no_longer_rel(1)] keeps_andThen [OF no_longer_rel(2)]

lemma keeps_if [sched_rules]: "keeps R m \<Longrightarrow> keeps R n \<Longrightarrow> keeps R (if b then m else n)"
  by simp

lemma keeps_prod [sched_rules]: "(\<And>x y. keeps R (f x y)) \<Longrightarrow> keeps R (case p of (x, y) \<Rightarrow> f x y)"
  by (cases p) simp

lemma keeps_option [sched_rules]:
  "keeps R m \<Longrightarrow> (\<And>x. keeps R (f x)) \<Longrightarrow> keeps R (case p of None \<Rightarrow> m | Some x \<Rightarrow> f x)"
  by (cases p) simp_all

lemma no_longer_basic [sched_rules]:
  "keeps no_longer (onC m)" "keeps no_longer raw_draw" "keeps no_longer (read_turns ts)"
  "keeps no_longer (modifyS (\<lambda>(c, s). (c, s\<lparr>roamAngle := h\<rparr>)))"
  by (auto simp: keeps_def no_longer_def onC_def raw_draw_def read_turns_def
      split: list.splits prod.splits sum.splits)

lemma no_longer_IntN [sched_rules]: "keeps no_longer (IntN n)"
  unfolding IntN_def by (intro sched_rules)

lemma pause_shortens:
  assumes "pause b = (r, b')"
  shows "no_longer b b'" and "r = Inr out \<Longrightarrow> out \<noteq> Cancelled \<Longrightarrow>
    length (waits (snd b')) < length (waits (snd b))"
proof -
  obtain c s where b: "b = (c, s)" by (cases b)
  have "(case waits s of [] \<Rightarrow> b' = b \<and> r = Inr Cancelled | w # ws \<Rightarrow> length (waits (snd b')) \<le> length ws)"
  proof (cases "waits s")
    case Nil
    with assms b show ?thesis by (simp add: pause_def)
  next
    case (Cons w ws)
    have "keeps no_longer (andThen (read_turns (w_reads w)) (\<lambda>_. ret (w_out w)))"
      by (rule sched_rules)+
    from keepsD [OF this, of "(c, s\<lparr>waits := ws, clock := w_now w\<rparr>)"] assms Cons b
    show ?thesis by (simp add: pause_def no_longer_def)
  qed
  then show "no_longer b b'" and "r = Inr out \<Longrightarrow> out \<noteq> Cancelled \<Longrightarrow>
    length (waits (snd b')) < length (waits (snd b))"
    by (auto simp: b no_longer_def split: list.splits)
qed

lemma no_longer_pause [sched_rules]: "keeps no_longer pause" "keeps no_longer sleepCtx"
proof -
  show 1: "keeps no_longer pause" unfolding keeps_def by (metis pause_shortens(1) prod.collapse)
  show "keeps no_longer sleepCtx" unfolding sleepCtx_def by (rule sched_rules 1)+
qed

lemma no_longer_combat [sched_rules]: "keeps no_longer (combat_loop n)"
proof (induction n)
  case 0
  show ?case unfolding combat_loop.simps by (rule sched_rules)
next
  case (Suc n)
  show ?case
    unfolding combat_loop.simps randomTarget_def sendAttack_def transmit_def
    by (rule sched_rules Suc)+
qed

lemma no_longer_actions [sched_rules]:
  "keeps no_longer ackTeleport" "keeps no_longer doDeathTaunt" "keeps no_longer (doRoam fl)"
  "keeps no_longer doSocialAction" "keeps no_longer doUseItem" "keeps no_longer doCombat"
  "keeps no_longer doChat" "keeps no_longer (chooseAction st)"
  unfolding ackTeleport_def doDeathTaunt_def doRoam_def doSocialAction_def doUseItem_def
    doCombat_def doChat_def chooseAction_def randomItem_def sweepLoot_def transmit_def Let_def
  by (rule sched_rules)+

lemma actionTurn_shortens:
  assumes "actionTurn fl st b = (Inr True, b')"
  shows "length (waits (snd b')) < length (waits (snd b))"
proof -
  obtain u where 1: "ackTeleport b = (Inr True, u)"
    and rest: "andThen (IntN 3) (\<lambda>_. andThen sleepCtx (\<lambda>ok.
     if \<not> ok then ret False
     else andThen getS (\<lambda>(c, s).
       if c_dead c then doDeathTaunt else doAction fl st))) u = (Inr True, b')"
    using assms unfolding actionTurn_def by (elim andThen_InrE) (auto split: if_splits)
  obtain d v where 2: "IntN 3 u = (Inr d, v)"
    and rest2: "andThen sleepCtx (\<lambda>ok.
     if \<not> ok then ret False
     else andThen getS (\<lambda>(c, s).
       if c_dead c then doDeathTaunt else doAction fl st)) v = (Inr True, b')"
    using rest by (rule andThen_InrE)
  obtain out w where 3: "pause v = (Inr out, w)" and out: "out \<noteq> Cancelled"
    and 4: "andThen getS (\<lambda>(c, s).
       if c_dead c then doDeathTaunt else doAction fl st) w = (Inr True, b')"
    using rest2 unfolding sleepCtx_def by (elim andThen_InrE) (auto split: if_splits)
  have k: "keeps no_longer (andThen getS (\<lambda>(c, s). if c_dead c then doDeathTaunt else doAction fl st))"
    unfolding doAction_def by (rule sched_rules)+
  have "no_longer b u" "no_longer u v" "no_longer w b'"
    using keepsD [OF no_longer_actions(1), of b] 1 keepsD [OF no_longer_IntN, of u 3] 2 keepsD [OF k, of w] 4
    by simp_all
  with pause_shortens(2) [OF 3 refl out] show ?thesis by (simp add: no_longer_def)
qed

section \<open>The loops\<close>

text \<open>The loop itself: it ends because the schedule of waits does.\<close>

function actionLoop :: "'f floats \<Rightarrow> bool \<Rightarrow> ('k, 'f) bot \<Rightarrow> unit res \<times> ('k, 'f) bot" where
  "actionLoop fl stationary b = (case actionTurn fl stationary b of
     (Inl e, b') \<Rightarrow> (Inl e, b')
   | (Inr goes_on, b') \<Rightarrow> if goes_on then actionLoop fl stationary b' else (Inr (), b'))"
  by pat_completeness auto
termination
  by (relation "measure (\<lambda>(fl, st, b). length (waits (snd b)))")
    (auto intro: actionTurn_shortens [OF sym])

declare actionLoop.simps [simp del]

definition runActionLoop :: "'f floats \<Rightarrow> bool \<Rightarrow> (('k, 'f) bot, unit) go" where
  "runActionLoop fl stationary =
     andThen raw_draw (\<lambda>h.
     andThen (modifyS (\<lambda>(c, s). (c, s\<lparr>roamAngle := heading fl h\<rparr>))) (\<lambda>_.
     actionLoop fl stationary))"

text \<open>
  The action loop ends before the context does only when a send failed; the read loop goes on
  meanwhile (\<open>idle\<close>), and \<open>Logout\<close> comes after both the cancellation and the action loop.
\<close>

definition RunGameLoop :: "'f floats \<Rightarrow> bool \<Rightarrow> int list \<Rightarrow> (('k, 'f) bot, unit) go" where
  "RunGameLoop fl stationary idle = andThen getS (\<lambda>(c, s).
     if c_State c \<noteq> StateGSLoggedIn then ret ()
     else andThen (modifyS (\<lambda>(c, s). (c, s\<lparr>reading := True\<rparr>))) (\<lambda>_.
       andThen (runActionLoop fl stationary) (\<lambda>_.
       andThen (read_turns idle) (\<lambda>_.
       onC Logout))))"

section \<open>The loop ends with its context\<close>

text \<open>
  The action loop as a step relation: \<open>loop_run n b r\<close> says that \<open>n\<close> turns from \<open>b\<close> on lead to the
  result \<open>r\<close>, the last of them being the first that does not ask for another.
\<close>

inductive loop_run :: "'f floats \<Rightarrow> bool \<Rightarrow> nat \<Rightarrow> ('k, 'f) bot \<Rightarrow> unit res \<times> ('k, 'f) bot \<Rightarrow> bool"
  for fl stationary where
  stop: "actionTurn fl stationary b = (Inr False, b') \<Longrightarrow> loop_run fl stationary 1 b (Inr (), b')"
| fail: "actionTurn fl stationary b = (Inl e, b') \<Longrightarrow> loop_run fl stationary 1 b (Inl e, b')"
| again: "actionTurn fl stationary b = (Inr True, b') \<Longrightarrow> loop_run fl stationary n b' r \<Longrightarrow>
    loop_run fl stationary (Suc n) b r"

lemma loop_run_actionLoop: "loop_run fl stationary n b r \<Longrightarrow> actionLoop fl stationary b = r"
  by (induction rule: loop_run.induct) (subst actionLoop.simps, simp)+

text \<open>
  C7. The action loop ends: every turn that is followed by another has waited at least once, so a
  schedule of \<open>n\<close> waits allows at most \<open>n + 1\<close> turns, the last of which sees the context cancelled;
  and the result of the loop is the only one its turns lead to.
\<close>

theorem actionLoop_turns:
  "(\<exists>n. n \<le> Suc (length (waits (snd b))) \<and> loop_run fl stationary n b r) = (r = actionLoop fl stationary b)"
proof
  assume "r = actionLoop fl stationary b"
  moreover have "\<exists>n. n \<le> Suc (length (waits (snd b))) \<and> loop_run fl stationary n b (actionLoop fl stationary b)"
  proof (induction "length (waits (snd b))" arbitrary: b rule: less_induct)
    case less
    obtain t b' where turn: "actionTurn fl stationary b = (t, b')" by (metis prod.exhaust)
    show ?case
    proof (cases "t = Inr True")
      case True
      with turn actionTurn_shortens have len: "length (waits (snd b')) < length (waits (snd b))" by blast
      from less [OF this] obtain n where "n \<le> Suc (length (waits (snd b')))"
        and run: "loop_run fl stationary n b' (actionLoop fl stationary b')" by blast
      moreover have "actionLoop fl stationary b = actionLoop fl stationary b'"
        using turn True by (subst actionLoop.simps) simp
      ultimately show ?thesis
        using loop_run.again [OF turn [unfolded True] run] len by (intro exI [of _ "Suc n"]) simp
    next
      case False
      then have "loop_run fl stationary 1 b (actionLoop fl stationary b)"
        using turn by (cases t) (auto simp: actionLoop.simps [of fl stationary b] intro: loop_run.intros [unfolded One_nat_def])
      then show ?thesis by (intro exI [of _ 1]) simp
    qed
  qed
  ultimately show "\<exists>n. n \<le> Suc (length (waits (snd b))) \<and> loop_run fl stationary n b r" by simp
qed (auto dest: loop_run_actionLoop)

end
