(* ===== verification/Fleet.thy ===== *)
theory Fleet
  imports Logger LoginClient Scenario ActionLoop "HOL-Library.Signed_Division"
begin

text \<open>
  \<open>cmd/main.go\<close>: the settings the program asks for, the credentials of its clients, and the
  life of one client from the ramp delay to \<open>Close\<close>. The clients of a fleet share nothing but
  the read-only configuration and the logger, so each is a function of its own \<open>surroundings\<close>:
  the servers it dials, the Blowfish library, the random draws and the schedule of its game
  loop. Its calls of the logger are collected in their order; the lines the \<open>Client\<close> methods log
  themselves are left out, as in the theories of the client. An \<open>int\<close> or a \<open>Duration\<close> is a
  signed 64-bit word.
\<close>

type_synonym i64 = "64 word"

section \<open>The console\<close>

record Console =
  con_in :: string
  con_out :: string

text \<open>\<open>stdin.ReadString\<close> up to a newline; without one it gives what is left, and its error is ignored.\<close>

fun read_line :: "string \<Rightarrow> string \<times> string" where
  "read_line [] = ([], [])"
| "read_line (ch # rest) =
     (if ch = CHR 0x0A then ([ch], rest) else (case read_line rest of (l, r) \<Rightarrow> (ch # l, r)))"

definition prompt :: "string \<Rightarrow> (Console, string) go" where
  "prompt msg = (\<lambda>con. case read_line (con_in con) of
     (line, rest) \<Rightarrow> (Inr line, \<lparr>con_in = rest, con_out = con_out con @ msg\<rparr>))"

text \<open>\<open>strings.TrimSpace\<close>: \<open>spaces\<close> are the UTF-8 encodings of the characters \<open>unicode.IsSpace\<close> names.\<close>

definition spaces :: "string list" where
  "spaces = map string_of ([[0x09], [0x0A], [0x0B], [0x0C], [0x0D], [0x20], [0xC2, 0x85], [0xC2, 0xA0],
     [0xE1, 0x9A, 0x80]] @ map (\<lambda>b. [0xE2, 0x80, b])
       [0x80, 0x81, 0x82, 0x83, 0x84, 0x85, 0x86, 0x87, 0x88, 0x89, 0x8A, 0xA8, 0xA9, 0xAF] @
     [[0xE2, 0x81, 0x9F], [0xE3, 0x80, 0x80]])"

definition leading :: "string list \<Rightarrow> string \<Rightarrow> nat" where
  "leading ws s = (case List.find (\<lambda>w. take (length w) s = w) ws of None \<Rightarrow> 0 | Some w \<Rightarrow> length w)"

function drop_spaces :: "string list \<Rightarrow> string \<Rightarrow> string" where
  "drop_spaces ws s = (if leading ws s = 0 \<or> s = [] then s else drop_spaces ws (drop (leading ws s) s))"
  by pat_completeness auto
termination
  by (relation "measure (\<lambda>(ws, s). length s)") auto

declare drop_spaces.simps [simp del]

definition TrimSpace :: "string \<Rightarrow> string" where
  "TrimSpace s = rev (drop_spaces (map rev spaces) (rev (drop_spaces spaces s)))"

section \<open>The settings\<close>

definition resolveAddr :: "string \<Rightarrow> i64 \<Rightarrow> (Console, string) go" where
  "resolveAddr ipFlag portFlag =
     (if ipFlag \<noteq> '''' then ret (TrimSpace ipFlag @ '':'' @ itoa (sint portFlag))
      else andThen (prompt ''Enter Server Address (localhost:2106): '') (\<lambda>line.
        let addr = TrimSpace line in ret (if addr = '''' then ''localhost:2106'' else addr)))"

definition promptCredentials :: "i64 \<Rightarrow> string \<Rightarrow> string \<Rightarrow> (Console, string \<times> string) go" where
  "promptCredentials threads userFlag passFlag =
     (if sint threads > 1 then ret (userFlag, passFlag)
      else
        andThen (if userFlag = '''' then andThen (prompt ''Enter Login: '') (\<lambda>line. ret (TrimSpace line))
                 else ret userFlag) (\<lambda>account.
        andThen (if passFlag = '''' then andThen (prompt ''Enter Password: '') (\<lambda>line. ret (TrimSpace line))
                 else ret passFlag) (\<lambda>password.
        ret (account, password))))"

record creds =
  cr_user :: string
  cr_pass :: string

text \<open>\<open>make([]creds, count)\<close> panics for a negative count.\<close>

definition buildCreds :: "string \<Rightarrow> string \<Rightarrow> i64 \<Rightarrow> creds list res" where
  "buildCreds accountBase passwordBase count =
     (if sint count < 0 then Inl Panic
      else Inr (map (\<lambda>i. if sint count > 1
          then (let suffix = itoa (int i) in \<lparr>cr_user = accountBase @ suffix, cr_pass = passwordBase @ suffix\<rparr>)
          else \<lparr>cr_user = accountBase, cr_pass = passwordBase\<rparr>) [0..<nat (sint count)]))"

text \<open>\<open>hex.DecodeString\<close>: pairs of hexadecimal digits, or an error.\<close>

definition hex_digit :: "char \<Rightarrow> nat option" where
  "hex_digit ch = (let n = of_char ch in
     if 48 \<le> n \<and> n \<le> 57 then Some (n - 48)
     else if 97 \<le> n \<and> n \<le> 102 then Some (n - 87)
     else if 65 \<le> n \<and> n \<le> 70 then Some (n - 55)
     else None)"

fun hex_decode :: "string \<Rightarrow> byte list option" where
  "hex_decode [] = Some []"
| "hex_decode [_] = None"
| "hex_decode (a # b # rest) = (case (hex_digit a, hex_digit b, hex_decode rest) of
     (Some x, Some y, Some bs) \<Rightarrow> Some (of_nat (16 * x + y) # bs)
   | _ \<Rightarrow> None)"

record botConfig =
  bc_addr :: string
  bc_scenario :: string
  bc_creds :: "creds list"
  bc_staticKey :: "byte list"
  bc_ramp :: i64
  bc_serverIdx :: i64
  bc_count :: i64
  bc_stationary :: bool

section \<open>The ramp\<close>

text \<open>\<open>rand.Int64N(n)\<close>\<close>

definition Int64N :: "nat \<Rightarrow> i64 \<Rightarrow> i64 res" where
  "Int64N draw n = (if sint n \<le> 0 then Inl Panic else Inr (word_of_int (int draw mod sint n)))"

definition ramp_slot :: "botConfig \<Rightarrow> i64" where
  "ramp_slot cfg = word_of_int (sint (bc_ramp cfg) sdiv sint (bc_count cfg))"

text \<open>How long client number \<open>who\<close> waits before it logs in; \<open>None\<close> when it does not wait.\<close>

definition ramp_delay :: "botConfig \<Rightarrow> nat \<Rightarrow> nat \<Rightarrow> i64 option res" where
  "ramp_delay cfg who draw =
     (if sint (bc_ramp cfg) > 0 \<and> sint (bc_count cfg) > 1
      then let slot = ramp_slot cfg; delay = of_nat who * slot
           in if sint slot > 0 then rbind (Int64N draw slot) (\<lambda>r. Inr (Some (delay + r)))
              else Inr (Some delay)
      else Inr None)"

definition pick_server :: "i64 \<Rightarrow> nat \<Rightarrow> nat" where
  "pick_server serverIdx n =
     (let targetIdx = serverIdx - 1
      in if sint targetIdx < 0 \<or> sint targetIdx \<ge> int n then 0 else nat (sint targetIdx))"

section \<open>One client\<close>

record ('k, 'f) surroundings =
  s_lib :: "'k cipher_lib"
  s_login :: "string \<Rightarrow> string + Conn"
  s_game :: "string \<Rightarrow> string + Conn"
  s_rampDraw :: nat
  s_rampCancelled :: bool
  s_coin :: nat
  s_floats :: "'f floats"
  s_sched :: "'f sched"
  s_idle :: "int list"

text \<open>The state of \<open>runBot\<close>: its client and the calls it has made of the logger.\<close>

type_synonym 'k botRun = "'k Client \<times> call list"

definition say :: "call \<Rightarrow> ('k botRun, unit) go" where
  "say a = modifyS (\<lambda>(c, out). (c, out @ [a]))"

definition on_client :: "('k Client, 'a) go \<Rightarrow> ('k botRun, 'a) go" where
  "on_client m = (\<lambda>(c, out). case m c of (r, d) \<Rightarrow> (r, (d, out)))"

text \<open>\<open>if err := step(); err != nil { log...; return false }\<close>\<close>

definition attempt :: "('k Client, unit) go \<Rightarrow> (string \<Rightarrow> call) \<Rightarrow> ('k botRun, bool) go \<Rightarrow> ('k botRun, bool) go" where
  "attempt step report rest = (\<lambda>(c, out). case step c of
     (Inl Panic, d) \<Rightarrow> (Inl Panic, (d, out))
   | (Inl (Error e), d) \<Rightarrow> (Inr False, (d, out @ [report e]))
   | (Inr _, d) \<Rightarrow> rest (d, out))"

definition failed :: "string \<Rightarrow> string \<Rightarrow> string \<Rightarrow> call" where
  "failed account msg e = CLogErr account msg (Some e)"

definition loginPipeline ::
  "'k cipher_lib \<Rightarrow> (string \<Rightarrow> string + Conn) \<Rightarrow> string \<Rightarrow> ('k botRun, bool) go" where
  "loginPipeline L dial account =
     attempt (Connect dial) (failed account ''Connection to Login Server failed'') (
     attempt (HandleInit L) (failed account ''Login Server handshake failed'') (
     attempt (SendAuthGG L) (failed account ''GameGuard verification failed'') (
     attempt (Login L) (\<lambda>e. CLog account (''LOGIN FAILED: '' @ e)) (
     andThen (say (CLog account ''Login successful'')) (\<lambda>_.
     attempt (FetchServerList L) (failed account ''Failed to retrieve server list'') (
     ret True))))))"

text \<open>\<open>c.RunGameLoop\<close>, whose schedule is not looked at again.\<close>

definition play :: "('k, 'f) surroundings \<Rightarrow> bool \<Rightarrow> ('k Client, unit) go" where
  "play w stationary = (\<lambda>c. case RunGameLoop (s_floats w) stationary (s_idle w) (c, s_sched w) of
     (r, (d, _)) \<Rightarrow> (r, d))"

text \<open>From \<open>len(c.Servers)\<close> on; the result says whether the end was reached.\<close>

definition enterGame :: "('k, 'f) surroundings \<Rightarrow> nat \<Rightarrow> botConfig \<Rightarrow> string \<Rightarrow> ('k botRun, bool) go" where
  "enterGame w who cfg account = andThen getS (\<lambda>(c, out).
     if length (c_Servers c) = 0
     then andThen (say (CLog account ''ERROR: No servers available in list'')) (\<lambda>_. ret False)
     else
       let s = c_Servers c ! pick_server (bc_serverIdx cfg) (length (c_Servers c)) in
       attempt (SelectServer (s_lib w) (srvID s)) (failed account ''Server selection failed'') (
       attempt (ConnectToGameServer (s_game w) (srvIP s) (srvPort s))
         (failed account ''Connection to Game Server failed'') (
       if bc_scenario cfg \<noteq> ''''
       then let cls = StarterClasses ! (who mod length StarterClasses) in
         attempt (RunScenario (bc_scenario cfg) cls) (failed account ''SCENARIO FAILED'') (
         andThen (say (CLog account ''SCENARIO PASS'')) (\<lambda>_. ret True))
       else
         attempt (AuthGameServer (s_coin w)) (failed account ''Game Server authentication failed'') (
         andThen (say (CLog account ''SUCCESS: Entered game world'')) (\<lambda>_.
         andThen (on_client (play w (bc_stationary cfg))) (\<lambda>_. ret True))))))"

text \<open>
  \<open>runBot\<close>: \<open>None\<close> as the client when the context ended during the ramp delay. The deferred
  \<open>c.Close()\<close> runs however the rest ends, after a panic too.
\<close>

definition runBot ::
  "('k, 'f) surroundings \<Rightarrow> botConfig \<Rightarrow> nat \<Rightarrow> bool res \<times> ('k Client option \<times> call list)" where
  "runBot w cfg who =
     (case ramp_delay cfg who (s_rampDraw w) of
        Inl e \<Rightarrow> (Inl e, (None, []))
      | Inr delay \<Rightarrow>
          if delay \<noteq> None \<and> s_rampCancelled w then (Inr False, (None, []))
          else if who \<ge> length (bc_creds cfg) then (Inl Panic, (None, []))
          else
            let account = cr_user (bc_creds cfg ! who);
                c = NewClient (bc_addr cfg) account (cr_pass (bc_creds cfg ! who)) (bc_staticKey cfg)
            in case andThen (loginPipeline (s_lib w) (s_login w) account)
                 (\<lambda>ok. if ok then enterGame w who cfg account else ret False) (c, []) of
                 (r, (d, out)) \<Rightarrow> (r, (Some (Close d), out)))"

section \<open>The fleet\<close>

text \<open>
  One goroutine per client; the fleet is done when all are, and a panic in one ends the process.
\<close>

definition runFleet ::
  "(nat \<Rightarrow> ('k, 'f) surroundings) \<Rightarrow> botConfig \<Rightarrow> ('k Client option \<times> call list) list res" where
  "runFleet ws cfg =
     (let bots = map (\<lambda>who. runBot (ws who) cfg who) [0..<nat (sint (bc_count cfg))]
      in if \<exists>b \<in> set bots. fst b = Inl Panic then Inl Panic else Inr (map snd bots))"

record flags =
  f_ip :: string
  f_port :: i64
  f_login :: string
  f_password :: string
  f_blowfish :: string
  f_server :: i64
  f_thread :: i64
  f_ramp :: i64
  f_stationary :: bool
  f_scenario :: string

text \<open>
  \<open>run\<close>, from the parsed flags: the exit code, what \<open>run\<close> itself logged, and what became of the
  clients.
\<close>

definition run :: "flags \<Rightarrow> (nat \<Rightarrow> ('k, 'f) surroundings) \<Rightarrow>
  (Console, nat \<times> call list \<times> ('k Client option \<times> call list) list) go" where
  "run f ws =
     andThen (resolveAddr (f_ip f) (f_port f)) (\<lambda>addr.
     andThen (promptCredentials (f_thread f) (f_login f) (f_password f)) (\<lambda>(accountBase, passwordBase).
     if accountBase = '''' \<or> passwordBase = ''''
     then ret (1, [CLog '''' ''ERROR: Login and Password are required''], [])
     else case hex_decode (f_blowfish f) of
       None \<Rightarrow> ret (1, [CLog '''' ''ERROR: Invalid Blowfish key''], [])
     | Some staticKey \<Rightarrow>
         let count = f_thread f in
         andThen (liftR (buildCreds accountBase passwordBase count)) (\<lambda>cs.
         andThen (liftR (runFleet ws \<lparr>bc_addr = addr, bc_scenario = f_scenario f, bc_creds = cs,
           bc_staticKey = staticKey, bc_ramp = f_ramp f, bc_serverIdx = f_server f, bc_count = count,
           bc_stationary = f_stationary f\<rparr>)) (\<lambda>bots.
         ret (0, [CLog '''' (''Starting '' @ itoa (sint count) @ '' concurrent clients...''),
           CLog '''' ''Stress test completed. All clients finished.''], bots)))))"

end
