(* ===== verification/Session.thy ===== *)
theory Session
  imports Scenario ActionLoop
begin

text \<open>
  What the operations of a client leave alone. Only \<open>Connect\<close>, \<open>ConnectToGameServer\<close> and \<open>Close\<close>
  open or close a connection, and before the game loop nothing touches the target list: every
  other operation of the login, the lobby and the scenarios is \<open>steady\<close>, whatever its outcome.
\<close>

definition steady :: "'k Client \<Rightarrow> 'k Client \<Rightarrow> bool" where
  "steady c d \<longleftrightarrow> c_conn d = c_conn c \<and> c_gsConn d = c_gsConn c \<and>
     closed (ls_sock d) = closed (ls_sock c) \<and> closed (gs_sock d) = closed (gs_sock c) \<and>
     c_npcs d = c_npcs c \<and> c_npcsNext d = c_npcsNext c"

text \<open>A \<open>calm\<close> operation does not change the state of the session either.\<close>

definition calm :: "'k Client \<Rightarrow> 'k Client \<Rightarrow> bool" where
  "calm c d \<longleftrightarrow> steady c d \<and> c_State d = c_State c"

lemma steady_rel: "reflp steady" "transp steady"
  by (auto simp: reflp_def transp_def steady_def)

lemma steady_refl [simp]: "steady c c"
  by (simp add: steady_def)

lemma calm_rel: "reflp calm" "transp calm"
  by (auto simp: reflp_def transp_def calm_def steady_def)

lemma calm_refl [simp]: "calm c c"
  by (simp add: calm_def)

lemma calm_trans: "calm c d \<Longrightarrow> calm d e \<Longrightarrow> calm c e"
  by (simp add: calm_def steady_def)

lemma steady_trans: "steady c d \<Longrightarrow> steady d e \<Longrightarrow> steady c e"
  by (simp add: steady_def)

section \<open>The connections\<close>

lemma closed_fill: "closed (snd (snd (fill n p))) = closed (snd p)"
  by (auto simp: fill_def readFull_def split: prod.splits)

lemma closed_Reader_Read: "closed (snd (snd (Reader_Read p))) = closed (snd p)"
proof -
  let ?R = "\<lambda>p q :: Reader \<times> Conn. closed (snd q) = closed (snd p)"
  have rel: "reflp ?R" "transp ?R" by (auto simp: reflp_def transp_def)
  have "keeps ?R (fill n)" for n by (simp add: keeps_def closed_fill)
  then have "keeps ?R Reader_Read"
    unfolding Reader_Read_def Let_def
    by (intro keeps_andThen [OF rel(2)] keeps_basic [OF rel(1)] keeps_if keeps_prod)
  from keepsD [OF this, of p] show ?thesis by simp
qed

lemma closed_Writer_Send: "closed (snd (snd (Writer_Send n p))) = closed (snd p)"
  by (auto simp: Writer_Send_def conn_write_def Let_def split: prod.splits nat.splits)

lemma keeps_via:
  assumes "\<And>s. R s s" and "\<And>s p r p'. get s = Some p \<Longrightarrow> m p = (r, p') \<Longrightarrow> R s (put p' s)"
  shows "keeps R (via get put m)"
  using assms by (auto simp: keeps_def via_def split: option.splits prod.splits)

named_theorems calm_rules \<open>operations that are calm\<close>

lemma calm_io:
  "keeps calm ls_read" "keeps calm (ls_send n)" "keeps calm gs_read" "keeps calm (gs_send n)"
proof -
  have read: "Reader_Read p = (r, q) \<Longrightarrow> closed (snd q) = closed (snd p)" for p q r
    using closed_Reader_Read [of p] by simp
  have send: "Writer_Send n p = (r, q) \<Longrightarrow> closed (snd q) = closed (snd p)" for p q r
    using closed_Writer_Send [of n p] by simp
  show "keeps calm ls_read" "keeps calm gs_read"
    unfolding ls_read_def gs_read_def by (rule keeps_via; auto simp: calm_def steady_def dest: read)+
  show "keeps calm (ls_send n)" "keeps calm (gs_send n)"
    unfolding ls_send_def gs_send_def by (rule keeps_via; auto simp: calm_def steady_def dest: send)+
qed

lemma calm_buffers:
  "keeps calm (ls_payload n e)" "keeps calm (gs_payload n e)" "keeps calm (on_gsCrypt g)"
  "keeps calm (via c_crypt (\<lambda>k c. c\<lparr>c_crypt := Some k\<rparr>) m)"
  unfolding ls_payload_def gs_payload_def on_gsCrypt_def
  by (rule keeps_via; simp add: calm_def steady_def; fail
      | simp add: keeps_def calm_def steady_def split: prod.splits; fail)+

lemma keeps_sum: "(\<And>x. keeps R (f x)) \<Longrightarrow> (\<And>x. keeps R (g x)) \<Longrightarrow>
    keeps R (case r of Inl x \<Rightarrow> f x | Inr x \<Rightarrow> g x)"
  by (cases r) simp_all

lemmas calm_calculus [calm_rules] = calm_io calm_buffers keeps_basic [OF calm_rel(1)] keeps_andThen [OF calm_rel(2)]
  keeps_if keeps_prod keeps_option keeps_sum

lemma calm_set [calm_rules]: "(\<And>c. calm c (f c)) \<Longrightarrow> keeps calm (modifyS f)"
  by (rule keeps_modifyS)

lemma calm_ls: "keeps calm (ls_request L k n e)" "keeps calm (ls_response L msg)"
  unfolding ls_request_def ls_response_def ls_encrypt_def ls_decrypt_def Let_def
  by (rule calm_rules | simp add: calm_def steady_def; fail)+

lemma calm_gs: "keeps calm (gs_request k e)" "keeps calm recvGS"
  unfolding gs_request_def sendGS_def gs_encrypt_def recvGS_def Let_def
  by (rule calm_rules | simp add: calm_def steady_def; fail)+

section \<open>The lobby\<close>

lemma calm_recv: "recvGS c = (r, t) \<Longrightarrow> calm c t"
  using keepsD [OF calm_gs(2), of c] by simp

text \<open>A waiting loop: each round is a \<open>recvGS\<close>, then either a calm end or the next round.\<close>

lemma calm_loop:
  fixes loop :: "'k Client \<Rightarrow> 'a res \<times> 'k Client"
  assumes "\<And>c r t. recvGS c = (r, t) \<Longrightarrow>
    calm t (snd (loop c)) \<or> (\<exists>data. r = Inr data) \<and> loop c = loop t"
  shows "keeps calm loop"
proof -
  have "calm c (snd (loop c))" for c
  proof (induction "length (rx (gs_sock c))" arbitrary: c rule: less_induct)
    case less
    obtain r t where rc: "recvGS c = (r, t)" by (metis prod.exhaust)
    from assms [OF rc] show ?case
    proof (elim disjE conjE exE)
      fix data
      assume "r = Inr data" and eq: "loop c = loop t"
      with less rc have "calm t (snd (loop t))" by (simp add: recvGS_consumes)
      with calm_recv [OF rc] eq show ?thesis by (auto intro: calm_trans)
    qed (rule calm_trans [OF calm_recv [OF rc]])
  qed
  then show ?thesis by (simp add: keeps_def)
qed

lemma calm_fields [simp]:
  "calm t (t\<lparr>c_objectID := a, c_classID := b, c_x := x, c_y := y, c_z := z\<rparr>)"
  "calm t (t\<lparr>c_objectID := a, c_x := x, c_y := y, c_z := z\<rparr>)" "calm t (setInventory items t)"
  by (simp_all add: calm_def steady_def setInventory_def)

lemma calm_waits:
  "keeps calm (awaitCharSelected :: 'k Client \<Rightarrow> _)" "keeps calm (awaitSelected :: 'k Client \<Rightarrow> _)"
  "keeps calm (awaitItemList :: 'k Client \<Rightarrow> _)"
proof -
  show "keeps calm (awaitCharSelected :: 'k Client \<Rightarrow> _)"
  proof (rule calm_loop)
    fix c t :: "'k Client" and r
    assume "recvGS c = (r, t)"
    then show "calm t (snd (awaitCharSelected c)) \<or> (\<exists>data. r = Inr data) \<and> awaitCharSelected c = awaitCharSelected t"
      by (auto simp: awaitCharSelected.simps [of c] split: sum.splits fault.splits)
  qed
  show "keeps calm (awaitSelected :: 'k Client \<Rightarrow> _)"
  proof (rule calm_loop)
    fix c t :: "'k Client" and r
    assume "recvGS c = (r, t)"
    then show "calm t (snd (awaitSelected c)) \<or> (\<exists>data. r = Inr data) \<and> awaitSelected c = awaitSelected t"
      by (auto simp: awaitSelected.simps [of c] split: sum.splits fault.splits)
  qed
  show "keeps calm (awaitItemList :: 'k Client \<Rightarrow> _)"
  proof (rule calm_loop)
    fix c t :: "'k Client" and r
    assume "recvGS c = (r, t)"
    then show "calm t (snd (awaitItemList c)) \<or> (\<exists>data. r = Inr data) \<and> awaitItemList c = awaitItemList t"
      by (auto simp: awaitItemList.simps [of c] split: sum.splits fault.splits)
  qed
qed

lemmas [calm_rules] = calm_ls calm_gs calm_waits

lemma calm_lobby [calm_rules]:
  "keeps calm (createStarterCharacter coin)" "keeps calm (createNamedCharacter name cls)"
  "keeps calm (sendSlotOp enc slot)" "keeps calm recvSelectionInfo" "keeps calm readDeadline"
  unfolding createStarterCharacter_def createNamedCharacter_def sendSlotOp_def recvSelectionInfo_def
    readDeadline_def Let_def
  by (rule calm_rules | simp; fail)+

lemma calm_createMissing [calm_rules]: "keeps calm (createMissing base is)"
proof (induction "is")
  case Nil
  show ?case unfolding createMissing.simps by (rule calm_rules)
next
  case (Cons i js)
  then show ?case unfolding createMissing.simps by (intro calm_rules)
qed

lemma calm_equipFirst [calm_rules]: "keeps calm (equipFirst gear)"
proof -
  let ?m = "gs_request 15 (EncodeGSUseItemTo (gear ! 0) False)"
  have "calm c t" if "?m c = (r, t)" for c t :: "'a Client" and r
    using keepsD [OF calm_gs(1), of c] that by (metis snd_conv)
  then show ?thesis
    by (auto simp: keeps_def equipFirst_def ret_def split: prod.splits sum.splits fault.splits)
qed

section \<open>Whole operations are steady\<close>

named_theorems steady_rules \<open>operations that are steady\<close>

lemma calm_steady: "keeps calm m \<Longrightarrow> keeps steady m"
  by (simp add: keeps_def calm_def)

lemmas steady_calculus [steady_rules] = keeps_basic [OF steady_rel(1)] keeps_andThen [OF steady_rel(2)]
  keeps_if keeps_prod keeps_option keeps_sum calm_io [THEN calm_steady] calm_buffers [THEN calm_steady]
  calm_ls [THEN calm_steady] calm_gs [THEN calm_steady] calm_waits [THEN calm_steady]
  calm_lobby [THEN calm_steady] calm_createMissing [THEN calm_steady] calm_equipFirst [THEN calm_steady]

lemma steady_set [steady_rules]: "(\<And>c. steady c (f c)) \<Longrightarrow> keeps steady (modifyS f)"
  by (rule keeps_modifyS)

lemma steady_login:
  "keeps steady (HandleInit L)" "keeps steady (SendAuthGG L)" "keeps steady (Login L)"
  "keeps steady (FetchServerList L)" "keeps steady (SelectServer L who)"
  unfolding HandleInit_def init_rest_def SendAuthGG_def Login_def FetchServerList_def SelectServer_def Let_def
  by (rule steady_rules | simp add: steady_def; fail)+

lemma steady_handshake [steady_rules]: "keeps steady HandshakeToLobby" "keeps steady (selectAndEnter slot)"
  unfolding HandshakeToLobby_def selectAndEnter_def
  by (rule steady_rules | simp add: steady_def; fail)+

lemma steady_Auth: "keeps steady (AuthGameServer coin)"
  unfolding AuthGameServer_def by (rule steady_rules | simp add: steady_def; fail)+

lemma steady_scenarios:
  "keeps steady (ScenarioCreateAndEnter cls)" "keeps steady ScenarioMultiChar"
  "keeps steady (ScenarioEnterWorld cls)"
  unfolding ScenarioCreateAndEnter_def ScenarioMultiChar_def multiCharBody_def ScenarioEnterWorld_def
  by (rule steady_rules | simp add: steady_def; fail)+

lemma snd_recovered [simp]: "snd (recovered m c) = snd (m c)"
  by (auto simp: recovered_def split: prod.splits sum.splits fault.splits)

lemma steady_RunScenario: "keeps steady (RunScenario name cls)"
proof -
  have rec: "keeps steady m \<Longrightarrow> keeps steady (recovered m)" for m :: "('a Client, unit) go"
    by (simp add: keeps_def)
  show ?thesis
    unfolding RunScenario_def by (intro rec keeps_if steady_scenarios) (rule steady_rules)
qed

section \<open>The states of a session\<close>

text \<open>
  The order in which the states of \<open>Client.State\<close> may follow one another; \<open>Login\<close> also accepts a
  client that skipped GameGuard.
\<close>

inductive session_step :: "State \<Rightarrow> State \<Rightarrow> bool" where
  dial_login: "session_step StateDisconnected StateConnected"
| init: "session_step StateConnected StateInitialized"
| game_guard: "session_step StateInitialized StateGGAuth"
| login: "session_step StateGGAuth StateLoggedIn"
| login_early: "session_step StateInitialized StateLoggedIn"
| dial_game: "session_step StateLoggedIn StateGSConnected"
| handshake: "session_step StateGSConnected StateGSHandshake"
| enter: "session_step StateGSHandshake StateGSLoggedIn"

code_pred session_step .

text \<open>A session never goes back.\<close>

lemma session_step_less: "session_step S S' \<Longrightarrow> S < S'"
  by (induction rule: session_step.induct) (simp_all add: less_State_def)

lemma session_path_le: "session_step\<^sup>*\<^sup>* S S' \<Longrightarrow> S \<le> S'"
  by (induction rule: rtranclp_induct) (auto dest: session_step_less)

text \<open>
  \<open>typestate Ss S' m\<close>: in any state but those of \<open>Ss\<close> the operation refuses, with an error and
  without touching the client; in those it moves along the steps of a session only, and its
  success means that the client has arrived in \<open>S'\<close>.
\<close>

definition typestate :: "State set \<Rightarrow> State \<Rightarrow> ('k Client, 'a) go \<Rightarrow> bool" where
  "typestate Ss S' m \<longleftrightarrow> (\<forall>c.
     (c_State c \<notin> Ss \<longrightarrow> (\<exists>e. m c = (Inl (Error e), c))) \<and>
     session_step\<^sup>*\<^sup>* (c_State c) (c_State (snd (m c))) \<and>
     ((\<exists>x. fst (m c) = Inr x) \<longrightarrow> c_State (snd (m c)) = S'))"

abbreviation st :: "State set \<Rightarrow> 'k Client \<Rightarrow> bool" where
  "st Ss c \<equiv> c_State c \<in> Ss"

lemma calm_goes: "keeps calm m \<Longrightarrow> goes True (st Ss) (\<lambda>_. True) (st Ss) m"
  by (rule goesI) (metis calm_def keepsD snd_conv)+

lemma goes_any_throw: "goes True J \<phi> K (throw e)"
  by (simp add: goes_def throw_def)

lemma goes_enter: "(\<And>c. c_State (f c) = S) \<Longrightarrow> goes True J (\<lambda>_. True) (st {S}) (modifyS f)"
  by (rule runs_modifyS) simp

lemma goes_leave: "goes True (st Ss) (\<lambda>_. True) (st Ss) (ret x)"
  by (rule calm_goes) (rule calm_rules)

lemma typestateI:
  fixes m :: "('k Client, 'a) go"
  assumes refuse: "\<And>c. c_State c \<notin> Ss \<Longrightarrow> \<exists>e. m c = (Inl (Error e), c)"
    and run: "\<And>S. S \<in> Ss \<Longrightarrow> \<exists>J. S \<in> J \<and> goes True (st J) (\<lambda>_. True) (st {S'}) m \<and>
      (\<forall>R \<in> insert S' J. session_step\<^sup>*\<^sup>* S R)"
  shows "typestate Ss S' m"
  unfolding typestate_def
proof
  fix c :: "'k Client"
  obtain r d where m: "m c = (r, d)" by (cases "m c")
  show "(c_State c \<notin> Ss \<longrightarrow> (\<exists>e. m c = (Inl (Error e), c))) \<and>
     session_step\<^sup>*\<^sup>* (c_State c) (c_State (snd (m c))) \<and>
     ((\<exists>x. fst (m c) = Inr x) \<longrightarrow> c_State (snd (m c)) = S')"
  proof (cases "c_State c \<in> Ss")
    case True
    with run obtain J where J: "c_State c \<in> J" "goes True (st J) (\<lambda>_. True) (st {S'}) m"
      "\<forall>R \<in> insert S' J. session_step\<^sup>*\<^sup>* (c_State c) R" by blast
    show ?thesis
      using goes_Inr [OF J(2), of c _ d] goes_Inl [OF J(2), of c _ d] J(1,3) m True
      by (cases r) auto
  next
    case False
    with refuse obtain e where "m c = (Inl (Error e), c)" by blast
    with False show ?thesis by simp
  qed
qed

lemmas path_rules = session_step.intros converse_rtranclp_into_rtranclp rtranclp.rtrancl_refl

lemma typestate_login:
  fixes L :: "'k cipher_lib"
  shows "typestate {StateConnected} StateInitialized (HandleInit L)"
    and "typestate {StateInitialized} StateGGAuth (SendAuthGG L)"
    and "typestate {StateGGAuth, StateInitialized} StateLoggedIn (Login L)"
    and "typestate {StateLoggedIn} StateLoggedIn (FetchServerList L)"
    and "typestate {StateLoggedIn} StateLoggedIn (SelectServer L server)"
proof -
  note rules = runs_read runs_if goes_any_throw runs_andThen [OF calm_goes] calm_rules
  have "goes True (st {S}) (\<lambda>_. True) (st {StateInitialized}) (HandleInit L)" for S
    unfolding HandleInit_def init_rest_def
    by (rule rules goes_enter | simp add: calm_def steady_def; fail)+
  then show "typestate {StateConnected} StateInitialized (HandleInit L)"
    by (intro typestateI exI [of _ "{StateConnected}"]) (auto simp: HandleInit_def intro: path_rules)
  have "goes True (st {S}) (\<lambda>_. True) (st {StateGGAuth}) (SendAuthGG L)" for S
    unfolding SendAuthGG_def
    by (rule rules goes_enter | simp add: calm_def steady_def; fail)+
  then show "typestate {StateInitialized} StateGGAuth (SendAuthGG L)"
    by (intro typestateI exI [of _ "{StateInitialized}"]) (auto simp: SendAuthGG_def intro: path_rules)
  have "goes True (st {S}) (\<lambda>_. True) (st {StateLoggedIn}) (Login L)" for S
    unfolding Login_def Let_def
    by (rule rules goes_enter | simp add: calm_def steady_def; fail)+
  then show "typestate {StateGGAuth, StateInitialized} StateLoggedIn (Login L)"
    by (intro typestateI) (auto simp: Login_def intro: path_rules intro!: exI [of _ "{_}"])
  have "goes True (st {S}) (\<lambda>_. True) (st {S}) (FetchServerList L)" for S
    unfolding FetchServerList_def
    by (rule rules calm_goes | simp add: calm_def steady_def; fail)+
  then show "typestate {StateLoggedIn} StateLoggedIn (FetchServerList L)"
    by (intro typestateI exI [of _ "{StateLoggedIn}"]) (auto simp: FetchServerList_def)
  have "goes True (st {S}) (\<lambda>_. True) (st {S}) (SelectServer L server)" for S
    unfolding SelectServer_def
    by (rule rules calm_goes | simp add: calm_def steady_def; fail)+
  then show "typestate {StateLoggedIn} StateLoggedIn (SelectServer L server)"
    by (intro typestateI exI [of _ "{StateLoggedIn}"]) (auto simp: SelectServer_def)
qed

abbreviation lobby_states :: "State set" where
  "lobby_states \<equiv> {StateGSConnected, StateGSHandshake, StateGSLoggedIn}"

lemma goes_Handshake_st:
  "goes True (st lobby_states) (\<lambda>_. True) (st {StateGSHandshake}) HandshakeToLobby"
  unfolding HandshakeToLobby_def
  by (rule runs_read runs_if goes_any_throw runs_andThen [OF calm_goes]
      goes_seq [OF goes_enter [where S = StateGSHandshake]] calm_goes calm_rules | simp; fail)+

lemma goes_select_st:
  "goes True (st {StateGSHandshake, StateGSLoggedIn}) (\<lambda>_. True) (st {StateGSLoggedIn}) (selectAndEnter slot)"
  unfolding selectAndEnter_def
  by (rule runs_andThen [OF calm_goes] goes_seq [OF goes_enter [where S = StateGSLoggedIn]] goes_leave
      calm_rules | simp; fail)+

lemma goes_lobby_st:
  "goes True (st lobby_states) (\<lambda>_. True) (st {StateGSLoggedIn}) (AuthGameServer coin)"
  "goes True (st lobby_states) (\<lambda>_. True) (st {StateGSLoggedIn}) (ScenarioCreateAndEnter cls)"
  "goes True (st lobby_states) (\<lambda>_. True) (st {StateGSLoggedIn}) ScenarioMultiChar"
  "goes True (st lobby_states) (\<lambda>_. True) (st {StateGSLoggedIn}) (ScenarioEnterWorld cls)"
proof -
  have lobby: "goes True (st lobby_states) (\<lambda>_. True) (st {StateGSLoggedIn}) (andThen HandshakeToLobby f)"
    if "\<And>x. goes True (st {StateGSHandshake, StateGSLoggedIn}) (\<lambda>_. True) (st {StateGSLoggedIn}) (f x)"
    for f :: "CharSelectionInfo \<Rightarrow> ('k Client, unit) go"
  proof (rule goes_seq [where J' = "st {StateGSHandshake, StateGSLoggedIn}"])
    show "goes True (st lobby_states) (\<lambda>_. True) (st {StateGSHandshake, StateGSLoggedIn})
        (HandshakeToLobby :: ('k Client, _) go)"
      by (rule runs_weaken [OF goes_Handshake_st]) simp_all
  qed (use that in auto)
  have pick: "goes True (st {StateGSHandshake, StateGSLoggedIn}) (\<lambda>_. True) (st {StateGSLoggedIn})
      (andThen (selectAndEnter slot) f)"
    if "\<And>x. goes True (st {StateGSLoggedIn}) (\<lambda>_. True) (st {StateGSLoggedIn}) (f x)"
    for slot and f :: "_ \<Rightarrow> ('k Client, unit) go"
    by (rule goes_seq [OF goes_select_st]) (use that in auto)
  note rules = lobby pick runs_read runs_andThen [OF calm_goes] runs_if goes_any_throw goes_leave calm_rules
  show "goes True (st lobby_states) (\<lambda>_. True) (st {StateGSLoggedIn}) (AuthGameServer coin :: ('k Client, _) go)"
    unfolding AuthGameServer_def by (rule rules goes_enter | simp; fail)+
  show "goes True (st lobby_states) (\<lambda>_. True) (st {StateGSLoggedIn})
      (ScenarioCreateAndEnter cls :: ('k Client, _) go)"
    unfolding ScenarioCreateAndEnter_def
    by (rule rules calm_goes | (simp add: calm_def steady_def; fail) | simp only: split_paired_all prod.case)+
  show "goes True (st lobby_states) (\<lambda>_. True) (st {StateGSLoggedIn}) (ScenarioMultiChar :: ('k Client, _) go)"
    unfolding ScenarioMultiChar_def multiCharBody_def
    by (rule rules calm_goes | (simp add: calm_def steady_def; fail) | simp only: split_paired_all prod.case)+
  show "goes True (st lobby_states) (\<lambda>_. True) (st {StateGSLoggedIn})
      (ScenarioEnterWorld cls :: ('k Client, _) go)"
    unfolding ScenarioEnterWorld_def
    by (rule rules calm_goes | (simp add: calm_def steady_def; fail) | simp only: split_paired_all prod.case)+
qed

lemma typestate_recovered: "typestate Ss S m \<Longrightarrow> typestate Ss S (recovered m)"
proof -
  assume m: "typestate Ss S m"
  have "fst (recovered m c) = Inr x \<longleftrightarrow> fst (m c) = Inr x" for c x
    by (auto simp: recovered_def split: prod.splits sum.splits fault.splits)
  moreover have "m c = (Inl (Error e), c) \<Longrightarrow> recovered m c = (Inl (Error e), c)" for c e
    by (simp add: recovered_def)
  ultimately show ?thesis using m unfolding typestate_def snd_recovered by metis
qed

lemma typestate_lobby:
  fixes m :: "('k Client, 'a) go"
  assumes "goes True (st lobby_states) (\<lambda>_. True) (st {S}) m"
    and "S = StateGSHandshake \<or> S = StateGSLoggedIn"
    and "\<And>c. c_State c \<noteq> StateGSConnected \<Longrightarrow> \<exists>e. m c = (Inl (Error e), c)"
  shows "typestate {StateGSConnected} S m"
proof -
  have path: "session_step\<^sup>*\<^sup>* StateGSConnected StateGSHandshake" "session_step\<^sup>*\<^sup>* StateGSConnected StateGSLoggedIn"
    by (blast intro: path_rules)+
  show ?thesis
    by (rule typestateI, use assms(3) in simp, rule exI [of _ lobby_states], use assms(1,2) path in auto)
qed

lemma refuse_lobby: "c_State c \<noteq> StateGSConnected \<Longrightarrow>
    andThen HandshakeToLobby f c = (Inl (Error ''must be connected to GS''), c)"
  by (simp add: andThen_def HandshakeToLobby_def)

text \<open>
  C6. The states of a session. Every operation that checks the state refuses in every other one without
  touching the client, moves along the steps of a session only, whatever the servers send and even
  when it fails or panics half-way, and succeeds only by arriving in its state.
\<close>

theorem session_protocol:
  "typestate {StateConnected} StateInitialized (HandleInit L) \<and>
   typestate {StateInitialized} StateGGAuth (SendAuthGG L) \<and>
   typestate {StateGGAuth, StateInitialized} StateLoggedIn (Login L) \<and>
   typestate {StateLoggedIn} StateLoggedIn (FetchServerList L) \<and>
   typestate {StateLoggedIn} StateLoggedIn (SelectServer L server) \<and>
   typestate {StateGSConnected} StateGSHandshake HandshakeToLobby \<and>
   typestate {StateGSConnected} StateGSLoggedIn (AuthGameServer coin) \<and>
   typestate {StateGSConnected} StateGSLoggedIn (RunScenario name cls)"
proof (intro conjI typestate_login)
  show "typestate {StateGSConnected} StateGSHandshake HandshakeToLobby"
    by (rule typestate_lobby [OF goes_Handshake_st]) (simp_all add: HandshakeToLobby_def)
  show "typestate {StateGSConnected} StateGSLoggedIn (AuthGameServer coin)"
    by (rule typestate_lobby [OF goes_lobby_st(1)]) (simp_all add: AuthGameServer_def refuse_lobby)
  have A: "typestate {StateGSConnected} StateGSLoggedIn (ScenarioCreateAndEnter cls)"
    by (rule typestate_lobby [OF goes_lobby_st(2)]) (simp_all add: ScenarioCreateAndEnter_def refuse_lobby)
  have B: "typestate {StateGSConnected} StateGSLoggedIn ScenarioMultiChar"
    by (rule typestate_lobby [OF goes_lobby_st(3)]) (simp_all add: ScenarioMultiChar_def refuse_lobby)
  have C: "typestate {StateGSConnected} StateGSLoggedIn (ScenarioEnterWorld cls)"
    by (rule typestate_lobby [OF goes_lobby_st(4)]) (simp_all add: ScenarioEnterWorld_def refuse_lobby)
  have D: "typestate {StateGSConnected} StateGSLoggedIn (throw (Error e))" for e
    by (simp add: typestate_def throw_def)
  show "typestate {StateGSConnected} StateGSLoggedIn (RunScenario name cls)"
    unfolding RunScenario_def by (rule typestate_recovered) (simp add: A B C D)
qed

end
