(* ===== verification/ScenarioProps.thy ===== *)
theory ScenarioProps
  imports Scenario "HOL-Library.Sublist"
begin

text \<open>
  What holds of the scenarios: the names they create are valid and told apart by slot, the
  village check is the intended one except for its overflow, a scenario keeps the client's
  invariant for every answer of the server and never panics through \<open>RunScenario\<close>, and
  scenario B sends exactly its protocol, up to the first failure.
\<close>

section \<open>Names\<close>

lemma sanitize_loop_spec:
  "length b \<le> 16 \<Longrightarrow> sanitize_loop acc b = b @ take (16 - length b) (filter is_alnum acc)"
  by (induction acc arbitrary: b) (auto simp: take_Cons')

lemma sanitizeName_ok:
  "3 \<le> length (sanitizeName acc) \<and> length (sanitizeName acc) \<le> 16 \<and> list_all is_alnum (sanitizeName acc)"
proof -
  let ?b = "sanitize_loop acc []"
  have "?b = take 16 (filter is_alnum acc)" by (simp add: sanitize_loop_spec)
  then have "length ?b \<le> 16" "list_all is_alnum ?b"
    by (auto simp: list_all_iff dest: in_set_takeD)
  moreover have "list_all is_alnum ''BotTestPlayer''" by (simp add: is_alnum_def byte_of_char_def)
  ultimately show ?thesis by (simp add: sanitizeName_def Let_def)
qed

lemma slotName_eq: "slotName base i = take 14 base @ itoa (int i)"
  by (simp add: slotName_def)

lemma digit_char_alnum: "d < 10 \<Longrightarrow> is_alnum (digit_char d)"
proof -
  assume "d < 10"
  then have "d \<in> {0, 1, 2, 3, 4, 5, 6, 7, 8, 9}" by auto
  then show ?thesis
    by (elim insertE emptyE) (simp_all add: is_alnum_def byte_of_char_def digit_char_def char_of_def of_char_def
        bit_Suc_0_iff)
qed

lemma digits_in_10_alnum: "list_all is_alnum (digits_in 10 n)"
proof (induction n rule: less_induct)
  case (less n)
  show ?case
  proof (cases "n < 10")
    case True
    then show ?thesis by (subst digits_in.simps) (simp add: digit_char_alnum)
  next
    case False
    with less [of "n div 10"] show ?thesis by (subst digits_in.simps) (simp add: digit_char_alnum)
  qed
qed

lemma itoa_nat_ok: "list_all is_alnum (itoa (int i)) \<and> 0 < length (itoa (int i))"
  using digits_in_10_alnum [of i] by (simp add: itoa_def) (subst digits_in.simps, simp)

lemma itoa_small: "i < 100 \<Longrightarrow> length (itoa (int i)) \<le> 2"
  using length_digits_in_le [of i 2] by (simp add: itoa_def)

lemma slotName_ok:
  assumes "list_all is_alnum base"
  shows "list_all is_alnum (slotName base i)"
  using assms itoa_nat_ok [of i] by (auto simp: slotName_eq list_all_iff dest: in_set_takeD)

text \<open>
  C20. The character names of the scenarios, both the one built from the account and the ones of its
  slots, are 3 to 16 letters and digits, up to slot 99; the names for two slots of one base differ,
  and only the first 14 bytes of the base count.
\<close>

theorem scenario_names:
  assumes "i < 100"
  shows "3 \<le> length (sanitizeName acc) \<and> length (sanitizeName acc) \<le> 16 \<and>
    list_all is_alnum (sanitizeName acc) \<and>
    4 \<le> length (slotName (sanitizeName acc) i) \<and> length (slotName (sanitizeName acc) i) \<le> 16 \<and>
    list_all is_alnum (slotName (sanitizeName acc) i) \<and>
    (slotName base i = slotName base j \<longleftrightarrow> i = j) \<and>
    length (slotName base i) \<le> 14 + length (itoa (int i)) \<and>
    slotName base i = slotName (take 14 base) i"
proof -
  note base = sanitizeName_ok [of acc]
  have "list_all is_alnum (slotName (sanitizeName acc) i)" using base by (simp add: slotName_ok)
  moreover have "4 \<le> length (slotName (sanitizeName acc) i)" "length (slotName (sanitizeName acc) i) \<le> 16"
    using base itoa_nat_ok [of i] itoa_small [OF assms] by (cases "itoa (int i)"; auto simp: slotName_eq min_def)+
  ultimately show ?thesis
    using base by (auto simp: slotName_eq itoa_nat_inject)
qed

theorem scenario_names_witness:
  "length (slotName (sanitizeName ''abcdefghijklmnopqrst'') 12) = 16 \<and>
   slotName ''abc'' 12 \<noteq> slotName ''abc'' 1"
proof -
  have "12 < (100 :: nat)" by simp
  from scenario_names [OF this, of "''abcdefghijklmnopqrst''" "''abc''" 1]
  have "length (slotName (sanitizeName ''abcdefghijklmnopqrst'') 12) \<le> 16"
    and ne: "slotName ''abc'' 12 \<noteq> slotName ''abc'' 1" by simp_all
  moreover have "16 \<le> length (slotName (sanitizeName ''abcdefghijklmnopqrst'') 12)"
    by (simp add: slotName_eq sanitizeName_def is_alnum_def byte_of_char_def itoa_def digits_in.simps)
  ultimately show ?thesis by simp
qed

section \<open>The village check\<close>

text \<open>
  C18. Within 32767 of the village in both coordinates, the check is what it means to be: the spawn is
  far from the village exactly when its distance exceeds 3000.
\<close>

theorem far_from_correct:
  assumes "\<bar>sint px - sint (pt_x tc)\<bar> \<le> 32767" and "\<bar>sint py - sint (pt_y tc)\<bar> \<le> 32767"
  shows "far_from tc px py \<longleftrightarrow>
    (sint px - sint (pt_x tc))\<^sup>2 + (sint py - sint (pt_y tc))\<^sup>2 > 3000\<^sup>2"
proof -
  let ?dx = "sint px - sint (pt_x tc)" and ?dy = "sint py - sint (pt_y tc)"
  have small: "sint (a - b) = sint a - sint b" if "\<bar>sint a - sint b\<bar> \<le> 32767" for a b :: i32
    using that by (simp add: sint_word_ariths signed_take_bit_int_eq_self)
  have sq: "0 \<le> d * d \<and> d * d \<le> 1073676289" if "\<bar>d\<bar> \<le> 32767" for d :: int
  proof -
    have "\<bar>d\<bar> * \<bar>d\<bar> \<le> 32767 * 32767" using that by (intro mult_mono) auto
    then show ?thesis by (simp add: abs_mult [symmetric])
  qed
  note bx = sq [OF assms(1)] and bdy = sq [OF assms(2)]
  have keep: "signed_take_bit 31 k = k" if "0 \<le> k" and "k \<le> 2147483647" for k :: int
    using that by (intro signed_take_bit_int_eq_self) simp_all
  have mx: "sint ((px - pt_x tc) * (px - pt_x tc)) = ?dx * ?dx"
    and my: "sint ((py - pt_y tc) * (py - pt_y tc)) = ?dy * ?dy"
    using bx bdy by (simp_all add: sint_word_ariths(3) small assms keep)
  have "sint ((px - pt_x tc) * (px - pt_x tc) + (py - pt_y tc) * (py - pt_y tc)) = ?dx * ?dx + ?dy * ?dy"
    using bx bdy by (subst sint_word_ariths(1)) (simp add: mx my keep)
  moreover have "sint (radius * radius) = 3000 * 3000" by (simp add: radius_def)
  ultimately show ?thesis by (simp add: far_from_def Let_def power2_eq_square)
qed

theorem far_from_correct_witness:
  "far_from \<lparr>pt_x = 46045, pt_y = 41251\<rparr> 46045 (41251 + 3001) \<and>
   \<not> far_from \<lparr>pt_x = 46045, pt_y = 41251\<rparr> 46045 (41251 - 3000)"
  using far_from_correct [of 46045 "\<lparr>pt_x = 46045, pt_y = 41251\<rparr>" "41251 + 3001"]
    far_from_correct [of 46045 "\<lparr>pt_x = 46045, pt_y = 41251\<rparr>" "41251 - 3000"]
  by simp

lemma int32_above:
  assumes "0 \<le> a"
  shows "a < sint (word_of_int k :: i32) \<longleftrightarrow> a < k mod 2 ^ 32 \<and> k mod 2 ^ 32 < 2 ^ 31"
proof -
  define r where "r = k mod 2 ^ 32"
  have r: "0 \<le> r" "r < 2 ^ 32" by (simp_all add: r_def)
  have "sint (word_of_int k :: i32) = (k + 2 ^ 31) mod 2 ^ 32 - 2 ^ 31"
    by (simp add: sint_sbintrunc' signed_take_bit_eq_take_bit_shift take_bit_eq_mod)
  also have "(k + 2 ^ 31) mod 2 ^ 32 = (r + 2 ^ 31) mod 2 ^ 32" unfolding r_def by (rule mod_add_left_eq [symmetric])
  also have "\<dots> = (if r < 2 ^ 31 then r + 2 ^ 31 else r - 2 ^ 31)"
  proof (cases "r < 2 ^ 31")
    case True
    with r show ?thesis by simp
  next
    case False
    have "(r + 2 ^ 31) mod 2 ^ 32 = (r + 2 ^ 31 - 2 ^ 32) mod 2 ^ 32" by (rule minus_mod_self2 [symmetric])
    with False r show ?thesis by simp
  qed
  finally show ?thesis unfolding r_def [symmetric] using assms r by simp
qed

text \<open>
  C19. What the check is for every spawn point: it compares the squared distance modulo \<open>2 ^ 32\<close>, and the
  upper half of that range, which is negative in \<open>int32\<close>, passes. So every spawn point that is away from the
  village by multiples of 65536 in both coordinates counts as in the village.
\<close>

theorem far_from_overflow:
  "(far_from tc px py \<longleftrightarrow>
     (let s = ((sint px - sint (pt_x tc))\<^sup>2 + (sint py - sint (pt_y tc))\<^sup>2) mod 2 ^ 32
      in 3000\<^sup>2 < s \<and> s < 2 ^ 31)) \<and>
   \<not> far_from tc (pt_x tc + 65536 * m) (pt_y tc + 65536 * n)"
proof
  let ?D = "(sint px - sint (pt_x tc))\<^sup>2 + (sint py - sint (pt_y tc))\<^sup>2"
  have "(px - pt_x tc) * (px - pt_x tc) + (py - pt_y tc) * (py - pt_y tc) = word_of_int ?D"
    by (simp add: power2_eq_square)
  moreover have "sint (radius * radius) = 3000\<^sup>2" by (simp add: radius_def power2_eq_square)
  ultimately show "far_from tc px py \<longleftrightarrow> (let s = ?D mod 2 ^ 32 in 3000\<^sup>2 < s \<and> s < 2 ^ 31)"
    using int32_above [of "3000\<^sup>2" ?D] by (simp only: far_from_def Let_def) simp
  have "(65536 * x) * (65536 * x) = (0 :: i32)" for x :: i32
  proof -
    have "(65536 * x) * (65536 * x) = (65536 * 65536) * (x * x)" by (simp only: ac_simps)
    also have "(65536 * 65536 :: i32) = 0" by simp
    finally show ?thesis by (simp only: mult_zero_left)
  qed
  then show "\<not> far_from tc (pt_x tc + 65536 * m) (pt_y tc + 65536 * n)"
    by (simp add: far_from_def radius_def)
qed

section \<open>What a scenario sends\<close>

definition wire :: "byte list list \<Rightarrow> GameCrypt \<Rightarrow> byte list" where
  "wire ps k = concat (map frame (encrypted ps k))"

text \<open>Exactly the packets \<open>ps\<close> were sent, or, after a failure, the first few of them.\<close>

definition exactly :: "byte list list \<Rightarrow> 'k Client \<Rightarrow> 'k Client \<Rightarrow> bool" where
  "exactly ps c d \<longleftrightarrow> initd (c_gsCrypt d) = initd (c_gsCrypt c) \<and>
     tx (gs_sock d) = tx (gs_sock c) @ wire ps (c_gsCrypt c) \<and>
     outKey (c_gsCrypt d) = outKey (snd (runAll GameCrypt_Encrypt ps (c_gsCrypt c)))"

definition begun :: "byte list list \<Rightarrow> 'k Client \<Rightarrow> 'k Client \<Rightarrow> bool" where
  "begun ps c d \<longleftrightarrow> (\<exists>qs. prefix qs ps \<and> tx (gs_sock d) = tx (gs_sock c) @ wire qs (c_gsCrypt c))"

lemma wire_simps [simp]: "wire [] k = []"
  by (simp add: wire_def)

lemma exactly_next:
  assumes "exactly ps c d"
  shows "wire qs (c_gsCrypt d) = wire qs (snd (runAll GameCrypt_Encrypt ps (c_gsCrypt c)))"
    and "outKey (snd (runAll GameCrypt_Encrypt qs (c_gsCrypt d))) =
      outKey (snd (runAll GameCrypt_Encrypt (ps @ qs) (c_gsCrypt c)))"
    and "wire (ps @ qs) (c_gsCrypt c) = wire ps (c_gsCrypt c) @ wire qs (c_gsCrypt d)"
proof -
  let ?k = "snd (runAll GameCrypt_Encrypt ps (c_gsCrypt c))"
  have "outKey (c_gsCrypt d) = outKey ?k" "initd (c_gsCrypt d) = initd ?k"
    using assms by (simp_all add: exactly_def runAll_initd)
  note eq = runAll_Encrypt_cong [OF this, of qs]
  show 1: "wire qs (c_gsCrypt d) = wire qs ?k" using eq by (simp add: wire_def)
  show "outKey (snd (runAll GameCrypt_Encrypt qs (c_gsCrypt d))) =
      outKey (snd (runAll GameCrypt_Encrypt (ps @ qs) (c_gsCrypt c)))"
    using eq by (simp add: runAll_append)
  show "wire (ps @ qs) (c_gsCrypt c) = wire ps (c_gsCrypt c) @ wire qs (c_gsCrypt d)"
    unfolding 1 by (simp add: wire_def runAll_append)
qed

lemma exactly_append: "exactly ps c d \<Longrightarrow> exactly qs d e \<Longrightarrow> exactly (ps @ qs) c e"
  using exactly_next [of ps c d qs] by (simp add: exactly_def)

lemma exactly_begun: "exactly ps c d \<Longrightarrow> begun qs d e \<Longrightarrow> begun (ps @ qs) c e"
  unfolding begun_def
proof (elim exE conjE)
  fix rs
  assume ex: "exactly ps c d" and rs: "prefix rs qs" "tx (gs_sock e) = tx (gs_sock d) @ wire rs (c_gsCrypt d)"
  then show "\<exists>qs'. prefix qs' (ps @ qs) \<and> tx (gs_sock e) = tx (gs_sock c) @ wire qs' (c_gsCrypt c)"
    using exactly_next(3) [OF ex, of rs] by (intro exI [of _ "ps @ rs"]) (simp add: exactly_def)
qed

lemma exactly_refl [simp]: "exactly [] c c" and begun_refl [simp]: "begun ps c c"
  by (simp_all add: exactly_def begun_def exI [of _ "[]"])

lemma begun_more: "begun ps c d \<Longrightarrow> begun (ps @ qs) c d"
  unfolding begun_def using prefix_prefix by blast

named_theorems make_rules \<open>what the steps of a scenario send\<close>

definition makes :: "State set \<Rightarrow> byte list list \<Rightarrow> ('k Client, 'a) go \<Rightarrow> bool" where
  "makes Ss ps m \<longleftrightarrow> (\<forall>c. gs_in Ss c \<longrightarrow> (case m c of
     (Inr x, d) \<Rightarrow> gs_in Ss d \<and> exactly ps c d
   | (Inl e, d) \<Rightarrow> gs_in Ss d \<and> begun ps c d))"

lemma makesD:
  assumes "makes Ss ps m" and "gs_in Ss c" and "m c = (r, d)"
  shows "gs_in Ss d" and "case r of Inl e \<Rightarrow> begun ps c d | Inr x \<Rightarrow> exactly ps c d"
proof -
  have "gs_in Ss d \<and> (case r of Inl e \<Rightarrow> begun ps c d | Inr x \<Rightarrow> exactly ps c d)"
    using assms by (cases r) (auto simp: makes_def)
  then show "gs_in Ss d" and "case r of Inl e \<Rightarrow> begun ps c d | Inr x \<Rightarrow> exactly ps c d" by simp_all
qed

lemma makesI:
  fixes m :: "('k Client, 'a) go"
  assumes "\<And>c r d. gs_in Ss c \<Longrightarrow> m c = (r, d) \<Longrightarrow>
    gs_in Ss d \<and> (case r of Inl e \<Rightarrow> begun ps c d | Inr x \<Rightarrow> exactly ps c d)"
  shows "makes Ss ps m"
  unfolding makes_def
proof (intro allI impI)
  fix c :: "'k Client"
  assume c: "gs_in Ss c"
  obtain r d where m: "m c = (r, d)" by (cases "m c")
  from assms [OF c m] m show "case m c of (Inl e, d) \<Rightarrow> gs_in Ss d \<and> begun ps c d
      | (Inr x, d) \<Rightarrow> gs_in Ss d \<and> exactly ps c d"
    by (cases r) simp_all
qed

lemma makes_andThen:
  fixes m :: "('k Client, 'a) go"
  assumes "makes Ss ps m" and "\<And>x. makes Ss qs (f x)"
  shows "makes Ss (ps @ qs) (andThen m f)"
proof (rule makesI)
  fix c r u
  assume c: "gs_in Ss c" and run: "andThen m f c = (r, u)"
  obtain q d where m: "m c = (q, d)" by (cases "m c")
  note md = makesD [OF assms(1) c m]
  show "gs_in Ss u \<and> (case r of Inl e \<Rightarrow> begun (ps @ qs) c u | Inr x \<Rightarrow> exactly (ps @ qs) c u)"
  proof (cases q)
    case (Inl e)
    with run m have "r = Inl e" "u = d" by (simp_all add: andThen_def)
    with md Inl begun_more show ?thesis by simp
  next
    case (Inr x)
    with run m have f: "f x d = (r, u)" by (simp add: andThen_def)
    have "exactly ps c d" using md(2) Inr by simp
    with makesD [OF assms(2) md(1) f] show ?thesis
      by (cases r) (auto intro: exactly_append exactly_begun)
  qed
qed

lemma makes_then [make_rules]: "makes Ss [] m \<Longrightarrow> (\<And>x. makes Ss qs (f x)) \<Longrightarrow> makes Ss qs (andThen m f)"
  using makes_andThen [of Ss "[]" m qs f] by simp

lemma makes_Cons: "makes Ss [p] m \<Longrightarrow> (\<And>x. makes Ss qs (f x)) \<Longrightarrow> makes Ss (p # qs) (andThen m f)"
  using makes_andThen [of Ss "[p]" m qs f] by simp

lemma makes_basic [make_rules]:
  "makes Ss [] (ret x)" "makes Ss [] getS" "makes Ss [] (liftR r)" "makes Ss ps (throw e)"
  by (auto simp: makes_def split: sum.split)

lemma makes_if [make_rules]:
  "(b \<Longrightarrow> makes Ss ps m) \<Longrightarrow> (\<not> b \<Longrightarrow> makes Ss ps n) \<Longrightarrow> makes Ss ps (if b then m else n)"
  by simp

lemma makes_prod [make_rules]: "(\<And>x y. makes Ss ps (f x y)) \<Longrightarrow> makes Ss ps (case p of (x, y) \<Rightarrow> f x y)"
  by (cases p) simp

lemma makes_request:
  assumes "produces k e (\<lambda>p. p = bs)"
  shows "makes Ss [bs] (gs_request k e)"
  unfolding makes_def
proof (intro allI impI)
  fix c :: "'a Client"
  assume c: "gs_in Ss c"
  from gs_request_sent_in [OF c assms] obtain r d where rd: "gs_request k e c = (r, d)" "gs_in Ss d"
    "gs_up c \<longrightarrow> r = Inr () \<and> (\<exists>p w. p = bs \<and> d = after_send p w c)" "\<not> gs_up c \<longrightarrow> r \<noteq> Inr ()"
    "sent (\<lambda>p. p = bs) c d" by blast
  show "case gs_request k e c of (Inl e, d) \<Rightarrow> gs_in Ss d \<and> begun [bs] c d
      | (Inr x, d) \<Rightarrow> gs_in Ss d \<and> exactly [bs] c d"
  proof (cases "gs_up c")
    case True
    with rd(3) obtain w where d: "r = Inr ()" "d = after_send bs w c" by blast
    then have "exactly [bs] c d" by (simp add: exactly_def wire_def after_send_def Let_def split_beta)
    with rd(1,2) d(1) show ?thesis by simp
  next
    case False
    with rd(4,5) have "r \<noteq> Inr ()" "tx (gs_sock d) = tx (gs_sock c)" by (auto simp: sent_def)
    with rd(1,2) show ?thesis by (cases r) (auto simp: begun_def intro: exI [of _ "[]"])
  qed
qed

section \<open>Receiving sends nothing\<close>

definition quiet :: "'k Client \<Rightarrow> 'k Client \<Rightarrow> bool" where
  "quiet c d \<longleftrightarrow> (\<forall>Ss. gs_in Ss c \<longrightarrow> gs_in Ss d) \<and> exactly [] c d"

lemma quiet_rel: "reflp quiet" "transp quiet"
  using exactly_append [of "[]" _ _ "[]"] by (auto simp: reflp_def transp_def quiet_def)

lemma quiet_recvGS: "keeps quiet recvGS"
  unfolding keeps_def
proof
  fix c :: "'a Client"
  obtain r t where rd: "gs_read c = (r, t)" by (metis prod.exhaust)
  note t = gs_read_blind(2) [OF rd]
  have ex: "exactly [] c t" by (subst t) (simp add: exactly_def set_recv_def)
  have "gs_in Ss (snd (recvGS c))" if "gs_in Ss c" for Ss
    using that runs_recvGS [of Ss] by (cases "recvGS c"; cases "fst (recvGS c)") (auto dest: runs_Inr runs_Inl)
  moreover have "exactly [] c (snd (recvGS c))"
    using rd ex
    by (cases r) (auto simp: recvGS_def andThen_def exactly_def GameCrypt_Decrypt_def split: prod.splits)
  ultimately show "quiet c (snd (recvGS c))" by (simp add: quiet_def)
qed

lemma quiet_step:
  assumes "recvGS c = (r, t)" and "quiet t u"
  shows "quiet c u"
  using keepsD [OF quiet_recvGS, of c] assms transpD [OF quiet_rel(2)] by (metis snd_conv)

lemma quiet_self: "recvGS c = (r, t) \<Longrightarrow> quiet c t"
  using keepsD [OF quiet_recvGS, of c] by simp

lemma quiet_setInventory: "quiet c (setInventory items c)"
  by (auto simp: quiet_def setInventory_def exactly_def gs_in_def game_inv_def)

lemma quiet_awaitSelected: "keeps quiet awaitSelected"
proof -
  have "awaitSelected c = (r, u) \<Longrightarrow> quiet c u" for c :: "'a Client" and r u
  proof (induction c arbitrary: r u rule: awaitSelected.induct)
    case (1 c)
    obtain res t where rc: "recvGS c = (res, t)" by (metis prod.exhaust)
    show ?case
    proof (cases "\<exists>data. res = Inr data \<and> (length data = 0 \<or> data ! 0 \<noteq> OpGSCharSelected)")
      case True
      then have "awaitSelected t = (r, u)"
        using "1.prems" rc by (subst (asm) awaitSelected.simps) (auto split: if_splits)
      with "1.IH" rc True have "quiet t u" by (metis length_0_conv)
      with rc show ?thesis by (rule quiet_step)
    next
      case False
      then have "u = t"
        using "1.prems" rc by (subst (asm) awaitSelected.simps) (auto split: sum.splits if_splits)
      with quiet_self [OF rc] show ?thesis by simp
    qed
  qed
  then show ?thesis unfolding keeps_def by (metis prod.collapse)
qed

lemma quiet_awaitItemList: "keeps quiet awaitItemList"
proof -
  have "quiet c (snd (awaitItemList c))" for c :: "'a Client"
  proof (induction "length (rx (gs_sock c))" arbitrary: c rule: less_induct)
    case less
    obtain res t where rc: "recvGS c = (res, t)" by (metis prod.exhaust)
    note self = quiet_self [OF rc]
    have step: "quiet c (setInventory items t)" for items
      by (rule quiet_step [OF rc quiet_setInventory])
    show ?case
    proof (cases res)
      case (Inl e)
      with rc self show ?thesis by (subst awaitItemList.simps) (simp split: fault.splits)
    next
      case (Inr data)
      have "quiet t (snd (awaitItemList t))" using less rc Inr by (simp add: recvGS_consumes)
      then have again: "quiet c (snd (awaitItemList t))" by (rule quiet_step [OF rc])
      show ?thesis
        using rc Inr self step again by (subst awaitItemList.simps) (simp split: sum.splits)
    qed
  qed
  then show ?thesis by (simp add: keeps_def)
qed

lemma makes_quiet: "keeps quiet m \<Longrightarrow> makes Ss [] m"
proof (rule makesI)
  fix c r d
  assume "keeps quiet m" and c: "gs_in Ss c" and m: "m c = (r, d)"
  with keepsD [of quiet m c] have "quiet c d" by simp
  with c show "gs_in Ss d \<and> (case r of Inl e \<Rightarrow> begun [] c d | Inr x \<Rightarrow> exactly [] c d)"
    by (cases r) (simp_all add: quiet_def begun_def exactly_def)
qed

lemmas makes_receive [make_rules] = makes_quiet [OF quiet_recvGS] makes_quiet [OF quiet_awaitSelected]
  makes_quiet [OF quiet_awaitItemList]

section \<open>Scenario B\<close>

definition create_packet :: "string \<Rightarrow> i32 \<Rightarrow> byte list" where
  "create_packet name cls = create_bytes (name, raceForClass cls, False, cls, 0, 0, 0)"

lemma makes_create:
  assumes "length name \<le> 16"
  shows "makes Ss [create_packet name cls] (createNamedCharacter name cls)"
proof -
  let ?m = "(name, raceForClass cls, False, cls, 0, 0, 0) :: string \<times> i32 \<times> bool \<times> i32 \<times> i32 \<times> i32 \<times> i32"
  have ss: "same_size (EncodeGSCharacterCreateTo name (raceForClass cls) False cls 0 0 0)"
    by (rule same_size_encoders)
  have len: "length (create_bytes ?m) \<le> 100" using assms by simp
  have fits: "(100 :: nat) \<le> 65533" by simp
  have "produces 100 (EncodeGSCharacterCreateTo name (raceForClass cls) False cls 0 0 0)
      (\<lambda>p. p = create_packet name cls)"
    unfolding create_packet_def
    by (rule enc_create.produces_encode [of ?m, unfolded prod.case, OF ss len fits]) (rule refl)
  note request = makes_request [OF this]
  show ?thesis
    unfolding createNamedCharacter_def
    by (rule makes_Cons [OF request]) (rule make_rules)+
qed

lemma makes_createMissing:
  "\<forall>i \<in> set is. length (slotName base i) \<le> 16 \<Longrightarrow>
     makes Ss (map (\<lambda>i. create_packet (slotName base i) (multiClasses ! i)) is) (createMissing base is)"
proof (induction "is")
  case Nil
  show ?case unfolding createMissing.simps list.map by (rule make_rules)
next
  case (Cons i js)
  then show ?case unfolding createMissing.simps list.map
    by (intro makes_Cons [OF makes_create]) simp_all
qed

lemma makes_slot:
  "makes Ss [slot_bytes OpGSCharacterDelete slot] (sendSlotOp EncodeGSCharacterDeleteTo slot)"
  "makes Ss [slot_bytes OpGSCharacterRestore slot] (sendSlotOp EncodeGSCharacterRestoreTo slot)"
  unfolding sendSlotOp_def
  by (rule makes_request, rule enc_delete.produces_encode; simp add: same_size_encoders)
    (rule makes_request, rule enc_restore.produces_encode; simp add: same_size_encoders)

lemma produces_enter:
  "produces 30 (EncodeGSCharacterSelectTo slot) (\<lambda>p. p = select_bytes slot)"
  "produces 110 EncodeGSEnterWorldTo (\<lambda>p. p = enterworld_bytes ())"
  using enc_select.produces_encode [of slot 30 "\<lambda>p. p = select_bytes slot"]
    enc_enterworld.produces_encode [of "()" 110 "\<lambda>p. p = enterworld_bytes ()"]
  by (simp_all add: same_size_encoders)

lemma makes_logged_in:
  "makes {StateGSHandshake, StateGSLoggedIn} [] (modifyS (\<lambda>c. c\<lparr>c_State := StateGSLoggedIn\<rparr>))"
  by (rule makesI)
    (auto simp: gs_in_def game_inv_def client_inv_def wf_client_def exactly_def)

lemma makes_selectAndEnter:
  "makes {StateGSHandshake, StateGSLoggedIn} [select_bytes slot, enterworld_bytes ()] (selectAndEnter slot)"
  unfolding selectAndEnter_def
  by (rule makes_Cons [OF makes_request [OF produces_enter(1)]] makes_then [OF makes_receive(2)]
      makes_Cons [OF makes_request [OF produces_enter(2)]] makes_then [OF makes_logged_in] makes_basic(1))+

lemma makes_recvSelectionInfo [make_rules]: "makes Ss [] recvSelectionInfo"
  unfolding recvSelectionInfo_def by (rule make_rules)+

definition multiChar_packets :: "string \<Rightarrow> nat \<Rightarrow> byte list list" where
  "multiChar_packets account n =
     map (\<lambda>i. create_packet (slotName (sanitizeName account) i) (multiClasses ! i)) [n..<3] @
     [slot_bytes OpGSCharacterDelete 1, slot_bytes OpGSCharacterRestore 1, select_bytes 1, enterworld_bytes ()]"

text \<open>
  C15. Scenario B sends exactly its protocol: a create request for each missing slot, the deletion of
  slot 1, its restoration, its selection and the entry into the world, in this order, each
  encrypted in turn; whatever the server answers, an early end has sent the first few of them.
\<close>

theorem ScenarioMultiChar_requests:
  fixes c :: "'k Client"
  assumes "gs_in {StateGSHandshake} c" and "multiCharBody info c = (r, d)"
  shows "\<exists>qs. prefix qs (multiChar_packets (c_account c) (unat (CharacterCount info))) \<and>
    tx (gs_sock d) = tx (gs_sock c) @ concat (map frame (encrypted qs (c_gsCrypt c))) \<and>
    (r = Inr () \<longrightarrow> qs = multiChar_packets (c_account c) (unat (CharacterCount info)))"
proof -
  let ?Ss = "{StateGSHandshake, StateGSLoggedIn}"
  let ?base = "sanitizeName (c_account c)" and ?n = "unat (CharacterCount info)"
  let ?ps = "multiChar_packets (c_account c) ?n"
  have names: "\<forall>i \<in> set [?n..<length multiClasses]. length (slotName ?base i) \<le> 16"
  proof
    fix i
    assume "i \<in> set [?n..<length multiClasses]"
    then have "i < 10" by (auto simp: multiClasses_def)
    then have "length (itoa (int i)) \<le> 1"
      using length_digits_in_le [of i 1] by (simp add: itoa_def)
    then show "length (slotName ?base i) \<le> 16" by (simp add: slotName_eq)
  qed
  have three: "length multiClasses = 3" by (simp add: multiClasses_def)
  define after :: "('k Client, unit) go" where
    "after = andThen (sendSlotOp EncodeGSCharacterDeleteTo 1) (\<lambda>_.
     andThen recvSelectionInfo (\<lambda>info.
     andThen (liftR (checkDeleted info)) (\<lambda>_.
     andThen (sendSlotOp EncodeGSCharacterRestoreTo 1) (\<lambda>_.
     andThen recvSelectionInfo (\<lambda>info.
     andThen (liftR (checkRestored info)) (\<lambda>_.
     andThen (selectAndEnter 1) (\<lambda>(objID, gotClass, px, py, pz).
     if gotClass \<noteq> multiClasses ! 1
     then throw (Error (''scenario B: select slot 1 returned class '' @ itoa (uint gotClass) @ '', want '' @
       itoa (sint (multiClasses ! 1))))
     else ret ())))))))"
  define rest where "rest = andThen (createMissing ?base [?n..<length multiClasses]) (\<lambda>_. after)"
  have last: "makes ?Ss [select_bytes 1, enterworld_bytes ()] (andThen (selectAndEnter 1) f)"
    if "\<And>x. makes ?Ss [] (f x)" for f :: "_ \<Rightarrow> ('k Client, unit) go"
    using makes_andThen [OF makes_selectAndEnter that] by simp
  have "makes ?Ss [slot_bytes OpGSCharacterDelete 1, slot_bytes OpGSCharacterRestore 1, select_bytes 1,
      enterworld_bytes ()] after"
    unfolding after_def
    by (rule makes_Cons [OF makes_slot(1)] makes_Cons [OF makes_slot(2)] makes_then [OF makes_recvSelectionInfo]
        makes_then [OF makes_basic(3)] last makes_prod makes_if makes_basic)+
  from makes_andThen [OF makes_createMissing [OF names] this]
  have "makes ?Ss ?ps rest" unfolding rest_def multiChar_packets_def three .
  moreover have "gs_in ?Ss c" using assms(1) by (simp add: gs_in_def)
  moreover have "rest c = (r, d)" using assms(2) by (simp add: multiCharBody_def rest_def after_def)
  ultimately have "case r of Inl e \<Rightarrow> begun ?ps c d | Inr x \<Rightarrow> exactly ?ps c d" by (rule makesD(2))
  then show ?thesis
    by (cases r) (auto simp: begun_def exactly_def wire_def)
qed

theorem ScenarioMultiChar_requests_witness:
  "\<exists>qs. prefix qs (multiChar_packets ''bot'' 1) \<and>
    tx (gs_sock (snd (multiCharBody \<lparr>Characters = [], CharacterCount = 1\<rparr> (sample_game StateGSHandshake [])))) =
      concat (map frame (encrypted qs sample_crypt))"
proof -
  have "gs_in {StateGSHandshake} (sample_game StateGSHandshake [])" by (rule sample_game_inv) simp
  from ScenarioMultiChar_requests [OF this prod.collapse [symmetric], of "\<lparr>Characters = [], CharacterCount = 1\<rparr>"]
  show ?thesis by auto
qed

section \<open>The checks of scenario B\<close>

lemma DecodeCharSelectionInfo_length:
  "DecodeCharSelectionInfo data = Inr info \<Longrightarrow> length (Characters info) = unat (CharacterCount info)"
  by (cases "read_chars (unat (u32_at data 1)) data 18")
    (auto simp: DecodeCharSelectionInfo_def rbind_Inr_iff split: if_splits dest: read_chars_bounds)

text \<open>
  C17. After the deletion the number of characters is checked before the list is indexed, so no list the
  decoder accepts can make the checks panic; after the restoration it is not: a list of fewer than
  two characters panics.
\<close>

theorem scenario_checks:
  assumes "DecodeCharSelectionInfo data = Inr info"
  shows "checkDeleted info \<noteq> Inl Panic \<and>
    (checkDeleted info = Inr () \<longleftrightarrow> 3 \<le> length (Characters info) \<and>
       0 < sint (DeleteTimer (Characters info ! 1)) \<and> DeleteTimer (Characters info ! 0) = 0 \<and>
       DeleteTimer (Characters info ! 2) = 0) \<and>
    (checkRestored info = Inl Panic \<longleftrightarrow> length (Characters info) < 2)"
  using DecodeCharSelectionInfo_length [OF assms]
  by (auto simp: checkDeleted_def checkRestored_def char_at_def rbind_Panic_iff rbind_Inr_iff)

theorem scenario_checks_witness:
  "checkRestored \<lparr>Characters = [sample_char], CharacterCount = 1\<rparr> = Inl Panic"
proof -
  have "DecodeCharSelectionInfo ([OpGSCharSelectionInfo] @ le32_bytes 1 @ replicate 13 0 @
      char_bytes (sample_char, sample_pad) @ []) = Inr \<lparr>Characters = [sample_char], CharacterCount = 1\<rparr>"
    using DecodeCharSelectionInfo_chars [of "[(sample_char, sample_pad)]" "replicate 13 0" "[]"]
    by (simp add: wf_sample_char)
  from scenario_checks [OF this] show ?thesis by simp
qed

section \<open>Every scenario keeps the invariant\<close>

lemma makes_goes: "makes Ss ps m \<Longrightarrow> goes True (gs_in Ss) (\<lambda>_. True) (gs_in Ss) m"
  unfolding makes_def by (rule goesI) (auto split: prod.splits)

lemma goes_quiet: "keeps quiet m \<Longrightarrow> goes True (gs_in Ss) (\<lambda>_. True) (gs_in Ss) m"
  by (rule makes_goes [OF makes_quiet])

lemma goes_createNamed:
  "goes True (gs_in Ss) (\<lambda>_. True) (gs_in Ss) (createNamedCharacter name cls)"
  unfolding createNamedCharacter_def
  by (rule runs_andThen [where \<phi> = "\<lambda>_. True"] goes_gs_request goes_quiet quiet_recvGS same_size_encoders runs_if
      makes_goes makes_basic)+

abbreviation lobby :: "State set" where
  "lobby \<equiv> {StateGSConnected, StateGSHandshake, StateGSLoggedIn}"

lemma goes_Handshake_lobby:
  "goes True (gs_in lobby) (\<lambda>_. True) (gs_in {StateGSHandshake, StateGSLoggedIn}) HandshakeToLobby"
proof (rule goesI)
  fix c :: "'a Client" and x t
  assume c: "gs_in lobby c" and run: "HandshakeToLobby c = (Inr x, t)"
  then have "c_State c = StateGSConnected" by (auto simp: HandshakeToLobby_def split: if_splits)
  with c have "gs_in {StateGSConnected, StateGSHandshake} c" by (simp add: gs_in_def)
  from goes_Inr [OF goes_HandshakeToLobby this run] show "True \<and> gs_in {StateGSHandshake, StateGSLoggedIn} t"
    by (simp add: gs_in_def)
next
  fix c :: "'a Client" and e t
  assume c: "gs_in lobby c" and run: "HandshakeToLobby c = (Inl e, t)"
  show "(e = Panic \<longrightarrow> True) \<and> gs_in lobby t"
  proof (cases "c_State c = StateGSConnected")
    case True
    with c have "gs_in {StateGSConnected, StateGSHandshake} c" by (simp add: gs_in_def)
    from goes_Inl [OF goes_HandshakeToLobby this run] show ?thesis by (auto simp: gs_in_def)
  next
    case False
    with run have "t = c" by (simp add: HandshakeToLobby_def)
    with c show ?thesis by simp
  qed
qed

lemma goes_selectAndEnter:
  "goes True (gs_in {StateGSHandshake, StateGSLoggedIn}) (\<lambda>_. True) (gs_in {StateGSLoggedIn}) (selectAndEnter slot)"
proof -
  have login: "goes True (gs_in {StateGSHandshake, StateGSLoggedIn}) (\<lambda>_. True) (gs_in {StateGSLoggedIn})
      (modifyS (\<lambda>c. c\<lparr>c_State := StateGSLoggedIn\<rparr>))"
    by (rule runs_modifyS) (auto simp: gs_in_def game_inv_def client_inv_def wf_client_def)
  have stop: "goes True J (\<lambda>_. True) J (ret r)" for J :: "'k Client \<Rightarrow> bool" and r :: 'r
    by (simp add: goes_def)
  show ?thesis
    unfolding selectAndEnter_def
    by (rule runs_andThen [OF goes_gs_request] runs_andThen [OF goes_quiet [OF quiet_awaitSelected]]
        goes_seq [OF login] stop same_size_encoders | simp add: gs_in_def; fail)+
qed

lemma goes_stop: "goes True J (\<lambda>_. True) J (ret r)"
  by (simp add: goes_def)

lemma goes_throw: "goes True J (\<lambda>_. True) K (throw (Error m))"
  by (rule runs_basic)

lemma goes_start:
  "goes True (gs_in {StateGSHandshake, StateGSLoggedIn}) (\<lambda>_. True) (gs_in {StateGSHandshake, StateGSLoggedIn})
     (if b then createNamedCharacter name cls else ret ())"
  by (rule runs_if goes_createNamed goes_stop)+

lemma goes_ScenarioA: "goes True (gs_in lobby) (\<lambda>_. True) (gs_in {StateGSLoggedIn}) (ScenarioCreateAndEnter cls)"
proof -
  have keep: "goes True (gs_in {StateGSLoggedIn}) (\<lambda>_. True) (gs_in {StateGSLoggedIn})
     (modifyS (\<lambda>c. c\<lparr>c_objectID := a, c_classID := b, c_x := x, c_y := y, c_z := z\<rparr>))" for a b x y z
    by (rule runs_modifyS) (simp add: gs_in_def game_inv_def)
  have check: "goes True (gs_in {StateGSLoggedIn}) (\<lambda>_. True) (gs_in {StateGSLoggedIn})
     (case t of None \<Rightarrow> throw (Error m) | Some tc \<Rightarrow> if far_from tc x y then throw (Error (n tc)) else ret ())"
    for t m n x y
    by (cases t) (auto intro: goes_throw goes_stop runs_if)
  show ?thesis
    unfolding ScenarioCreateAndEnter_def
    by (rule goes_seq [OF goes_Handshake_lobby] runs_read runs_andThen [OF goes_start]
        goes_seq [OF goes_selectAndEnter] runs_andThen [OF keep] check
        | (simp add: gs_in_def; fail) | (simp only: split_paired_all prod.case))+
qed

lemma goes_createMissing: "goes True (gs_in Ss) (\<lambda>_. True) (gs_in Ss) (createMissing base is)"
proof (induction "is")
  case Nil
  show ?case unfolding createMissing.simps by (rule goes_stop)
next
  case (Cons i js)
  show ?case unfolding createMissing.simps by (rule runs_andThen [OF goes_createNamed Cons])
qed

lemma goes_slot: "goes True (gs_in Ss) (\<lambda>_. True) (gs_in Ss) (sendSlotOp EncodeGSCharacterDeleteTo slot)"
  "goes True (gs_in Ss) (\<lambda>_. True) (gs_in Ss) (sendSlotOp EncodeGSCharacterRestoreTo slot)"
  by (rule makes_goes [OF makes_slot(1)] makes_goes [OF makes_slot(2)])+

lemma goes_check: "goes True (gs_in Ss) (\<lambda>_. True) (gs_in Ss) (liftR r)"
  by (rule makes_goes [OF makes_basic(3)])

lemma goes_ScenarioB: "goes True (gs_in lobby) (\<lambda>_. True) (gs_in {StateGSLoggedIn}) ScenarioMultiChar"
  unfolding ScenarioMultiChar_def multiCharBody_def
  by (rule goes_seq [OF goes_Handshake_lobby] runs_read runs_andThen [OF goes_createMissing]
      runs_andThen [OF goes_slot(1)] runs_andThen [OF goes_slot(2)] runs_andThen [OF goes_check]
      runs_andThen [OF makes_goes [OF makes_recvSelectionInfo]] goes_seq [OF goes_selectAndEnter]
      runs_if goes_throw goes_stop
      | (simp add: gs_in_def; fail) | (simp only: split_paired_all prod.case))+

lemma makes_equipFirst: "goes True (gs_in Ss) (\<lambda>_. True) (gs_in Ss) (equipFirst gear)"
proof (cases "gear = []")
  case True
  then show ?thesis by (simp add: equipFirst_def goes_stop)
next
  case False
  let ?m = "gs_request 15 (EncodeGSUseItemTo (gear ! 0) False) :: ('a Client, unit) go"
  have run: "goes True (gs_in Ss) (\<lambda>_. True) (gs_in Ss) ?m"
    by (rule goes_gs_request) (rule same_size_encoders)
  show ?thesis
  proof (rule goesI)
    fix c :: "'a Client" and x t
    assume "gs_in Ss c" and "equipFirst gear c = (Inr x, t)"
    with False goes_Inr [OF run] show "True \<and> gs_in Ss t"
      by (auto simp: equipFirst_def split: prod.splits sum.splits fault.splits)
  next
    fix c :: "'a Client" and e t
    assume "gs_in Ss c" and "equipFirst gear c = (Inl e, t)"
    with False goes_Inl [OF run] show "(e = Panic \<longrightarrow> True) \<and> gs_in Ss t"
      by (auto simp: equipFirst_def split: prod.splits sum.splits fault.splits)
  qed
qed

lemma goes_readDeadline: "goes True (gs_in Ss) (\<lambda>_. True) (gs_in Ss) readDeadline"
  by (simp add: goes_def readDeadline_def andThen_def getS_def ret_def throw_def)

lemma goes_ScenarioC: "goes True (gs_in lobby) (\<lambda>_. True) (gs_in {StateGSLoggedIn}) (ScenarioEnterWorld cls)"
proof -
  have keep: "goes True (gs_in {StateGSLoggedIn}) (\<lambda>_. True) (gs_in {StateGSLoggedIn})
     (modifyS (\<lambda>c. c\<lparr>c_objectID := a, c_x := x, c_y := y, c_z := z\<rparr>))" for a x y z
    by (rule runs_modifyS) (simp add: gs_in_def game_inv_def)
  show ?thesis
    unfolding ScenarioEnterWorld_def
    by (rule goes_seq [OF goes_Handshake_lobby] runs_read runs_andThen [OF goes_start]
        goes_seq [OF goes_selectAndEnter] runs_andThen [OF keep] runs_andThen [OF goes_readDeadline]
        runs_andThen [OF goes_quiet [OF quiet_awaitItemList]] makes_equipFirst
        | (simp add: gs_in_def; fail) | (simp only: split_paired_all prod.case))+
qed

lemma recovered_runs:
  fixes m :: "('k Client, unit) go"
  assumes "goes True J \<phi> K m"
  shows "runs J \<phi> K (recovered m)"
proof (rule runsI)
  fix c :: "'k Client" and x t
  assume "J c" and "recovered m c = (Inr x, t)"
  with goes_Inr [OF assms] show "\<phi> x \<and> K t"
    by (auto simp: recovered_def split: prod.splits sum.splits fault.splits)
next
  fix c :: "'k Client" and e t
  assume "J c" and "recovered m c = (Inl e, t)"
  with goes_Inl [OF assms] show "e \<noteq> Panic \<and> J t"
    by (auto simp: recovered_def split: prod.splits sum.splits fault.splits)
qed

lemma runs_RunScenario:
  "runs (gs_in lobby) (\<lambda>_. True) (gs_in {StateGSLoggedIn}) (RunScenario name cls)"
  unfolding RunScenario_def
  by (rule recovered_runs runs_if goes_ScenarioA goes_ScenarioB goes_ScenarioC goes_throw)+

text \<open>
  C16. A scenario run on a client connected to the game server never lets a panic through, whatever the
  server sends and whatever scenario is named; every way it ends keeps the client's invariant, and
  a scenario that passes leaves a client that is in the world.
\<close>

theorem RunScenario_safe:
  "runs (gs_in {StateGSConnected, StateGSHandshake, StateGSLoggedIn}) (\<lambda>_. True) (gs_in {StateGSLoggedIn})
     (RunScenario name cls)"
  by (rule runs_RunScenario)

end
