(* ===== verification/BotTraffic.thy ===== *)
theory BotTraffic
  imports ActionLoop Traffic
begin

text \<open>
  What the action loop puts on the wire. \<open>acts\<close> carries \<open>sent\<close>, the invariant and the absence of
  panics through the actions, whatever the read loop does in between.
\<close>

section \<open>Whole actions\<close>

text \<open>\<open>bot_ok D\<close>: in the world and, with \<open>D\<close>, dead; no handler ever revives the bot.\<close>

definition bot_ok :: "bool \<Rightarrow> ('k, 'f) bot \<Rightarrow> bool" where
  "bot_ok D b \<longleftrightarrow> in_world (fst b) \<and> (D \<longrightarrow> c_dead (fst b))"

definition acts :: "bool \<Rightarrow> (byte list \<Rightarrow> bool) \<Rightarrow> ('a \<Rightarrow> bool) \<Rightarrow> (('k, 'f) bot, 'a) go \<Rightarrow> bool" where
  "acts D P \<phi> m \<longleftrightarrow> (\<forall>b. bot_ok D b \<longrightarrow> (\<exists>x b'. m b = (Inr x, b') \<and> \<phi> x \<and> bot_ok D b' \<and>
     sent P (fst b) (fst b')))"

named_theorems act_rules \<open>what the actions send\<close>

lemma actsD:
  assumes "acts D P \<phi> m" and "bot_ok D b"
  obtains x b' where "m b = (Inr x, b')" "\<phi> x" "bot_ok D b'" "sent P (fst b) (fst b')"
  using assms unfolding acts_def by blast

lemma acts_andThen:
  fixes m :: "(('k, 'f) bot, 'a) go"
  assumes "acts D P \<phi> m" and "\<And>x. \<phi> x \<Longrightarrow> acts D P \<psi> (f x)"
  shows "acts D P \<psi> (andThen m f)"
  unfolding acts_def
proof (intro allI impI)
  fix b :: "('k, 'f) bot"
  assume b: "bot_ok D b"
  from assms(1) b obtain x b1 where 1: "m b = (Inr x, b1)" "\<phi> x" "bot_ok D b1" "sent P (fst b) (fst b1)"
    by (rule actsD)
  from assms(2) [OF 1(2)] 1(3) obtain y b2 where
    2: "f x b1 = (Inr y, b2)" "\<psi> y" "bot_ok D b2" "sent P (fst b1) (fst b2)"
    by (rule actsD)
  show "\<exists>x b'. andThen m f b = (Inr x, b') \<and> \<psi> x \<and> bot_ok D b' \<and> sent P (fst b) (fst b')"
    using 1 2 sent_trans [OF 1(4) 2(4)] by (auto simp: andThen_def)
qed

lemma acts_then [act_rules]:
  "acts D P (\<lambda>_. True) m \<Longrightarrow> (\<And>x. acts D P \<psi> (f x)) \<Longrightarrow> acts D P \<psi> (andThen m f)"
  by (rule acts_andThen)

lemma acts_weaken: "acts D P \<phi> m \<Longrightarrow> (\<And>x. \<phi> x \<Longrightarrow> \<psi> x) \<Longrightarrow> acts D P \<psi> m"
  unfolding acts_def by blast

lemma acts_more: "acts D P \<phi> m \<Longrightarrow> (\<And>p. P p \<Longrightarrow> Q p) \<Longrightarrow> acts D Q \<phi> m"
  unfolding acts_def by (meson sent_weaken)

lemma acts_basic [act_rules]:
  "acts D P (\<lambda>_. True) (ret x)" "acts D P (\<lambda>_. True) getS" "acts D P (\<lambda>_. True) raw_draw"
  by (auto simp: acts_def raw_draw_def bot_ok_def split: list.split)

lemma acts_read: "(\<And>b. bot_ok D b \<Longrightarrow> acts D P \<psi> (f b)) \<Longrightarrow> acts D P \<psi> (andThen getS f)"
  by (rule acts_andThen [of D P "bot_ok D"]) (auto simp: acts_def)

lemma acts_if [act_rules]:
  "(x \<Longrightarrow> acts D P \<phi> m) \<Longrightarrow> (\<not> x \<Longrightarrow> acts D P \<phi> n) \<Longrightarrow> acts D P \<phi> (if x then m else n)"
  by simp

lemma acts_prod [act_rules]: "(\<And>x y. p = (x, y) \<Longrightarrow> acts D P \<phi> (f x y)) \<Longrightarrow> acts D P \<phi> (case p of (x, y) \<Rightarrow> f x y)"
  by (cases p) simp

lemma acts_option [act_rules]:
  "(p = None \<Longrightarrow> acts D P \<phi> m) \<Longrightarrow> (\<And>x. p = Some x \<Longrightarrow> acts D P \<phi> (f x)) \<Longrightarrow>
     acts D P \<phi> (case p of None \<Rightarrow> m | Some x \<Rightarrow> f x)"
  by (cases p) simp_all

lemma acts_IntN:
  assumes "0 < n"
  shows "acts D P (\<lambda>i. i < n) (IntN n :: (('k, 'f) bot, nat) go)"
proof -
  have "(IntN n :: (('k, 'f) bot, nat) go) = andThen raw_draw (\<lambda>d. ret (d mod n))" using assms by (simp add: IntN_def)
  moreover have "acts D P (\<lambda>i. i < n) (andThen raw_draw (\<lambda>d. ret (d mod n)) :: (('k, 'f) bot, nat) go)"
    by (rule acts_andThen [OF acts_basic(3)]) (use assms in \<open>auto simp: acts_def\<close>)
  ultimately show ?thesis by simp
qed

lemma acts_IntN_any [act_rules]: "0 < n \<Longrightarrow> acts D P (\<lambda>_. True) (IntN n)"
  by (rule acts_weaken [OF acts_IntN]) simp_all

lemma acts_sched: "acts D P (\<lambda>_. True) (modifyS (\<lambda>(c, s). (c, f s)))"
  by (auto simp: acts_def bot_ok_def)

lemma acts_view:
  assumes "\<And>c. only_view c (f c)" and "\<And>c. targets_ok c \<Longrightarrow> targets_ok (f c)"
    and "\<And>c. c_dead c \<Longrightarrow> c_dead (f c)"
  shows "acts D P (\<lambda>_. True) (onC (modifyS f))"
  unfolding acts_def
proof (intro allI impI)
  fix b :: "('a, 'b) bot"
  assume b: "bot_ok D b"
  obtain c s where cs: "b = (c, s)" by (cases b)
  note v = assms(1) [of c]
  have "in_world (f c)"
    using b cs assms(2) [of c] v by (simp add: bot_ok_def in_world_def gs_in_def only_viewD)
  moreover have "sent P c (f c)"
    by (rule sent_nothing [where bs = "rx (gs_sock c)"]) (simp_all add: only_viewD [OF v])
  ultimately show "\<exists>x b'. onC (modifyS f) b = (Inr x, b') \<and> True \<and> bot_ok D b' \<and> sent P (fst b) (fst b')"
    using b cs assms(3) by (simp add: onC_def bot_ok_def)
qed

lemma acts_transmit [act_rules]:
  assumes "produces k e P"
  shows "acts D P (\<lambda>_. True) (transmit k e)"
  unfolding acts_def
proof (intro allI impI)
  fix b :: "('a, 'b) bot"
  assume b: "bot_ok D b"
  obtain c s where cs: "b = (c, s)" by (cases b)
  have "in_world c" using b cs by (simp add: bot_ok_def)
  from gs_request_sent [OF this assms] obtain r d where rd: "gs_request k e c = (r, d)"
    "r \<noteq> Inl Panic" "in_world d" "sent P c d" by blast
  have "c_dead d = c_dead c" using gs_request_effect [OF rd(1)] by (auto simp: set_send_def)
  moreover have "\<exists>ok. succeeds (gs_request k e) c = (Inr ok, d)"
    using rd(1,2) by (auto simp: succeeds_def split: sum.splits fault.splits)
  ultimately show "\<exists>x b'. transmit k e b = (Inr x, b') \<and> True \<and> bot_ok D b' \<and> sent P (fst b) (fst b')"
    using rd b cs by (auto simp: transmit_def onC_def bot_ok_def)
qed

text \<open>The read loop in between never revives a dead bot.\<close>

definition stays_dead :: "'k Client \<Rightarrow> 'k Client \<Rightarrow> bool" where
  "stays_dead c d \<longleftrightarrow> (c_dead c \<longrightarrow> c_dead d)"

lemma stays_dead_rel: "reflp stays_dead" "transp stays_dead"
  by (auto simp: reflp_def transp_def stays_dead_def)

lemmas stays_dead_rules = keeps_basic [OF stays_dead_rel(1)] keeps_andThen [OF stays_dead_rel(2)]
  keeps_if keeps_prod keeps_modifyS

lemma handlers_stay_dead:
  "keeps stays_dead (handleTeleport data)" "keeps stays_dead (handleDie data)"
  "keeps stays_dead (handleCombatBroadcast now data)" "keeps stays_dead (handlePacket now data)"
proof -
  show 1: "keeps stays_dead (handleTeleport data)" "keeps stays_dead (handleDie data)"
    "keeps stays_dead (handleCombatBroadcast now data)"
    unfolding handleTeleport_def handleDie_def handleCombatBroadcast_def signal_attack_def
    by (rule stays_dead_rules | simp add: stays_dead_def; fail)+
  show "keeps stays_dead (handlePacket now data)"
    unfolding handlePacket_def
    by (rule 1 stays_dead_rules
        | simp add: stays_dead_def setInventory_def addTarget_def Let_def; fail)+
qed

lemma readStep_dead:
  assumes "readStep now c = (r, d)"
  shows "stays_dead c d"
proof -
  obtain q t where rd: "gs_read c = (q, t)" by (metis prod.exhaust)
  have t: "c_dead t = c_dead c" by (subst gs_read_blind(2) [OF rd]) (simp add: set_recv_def)
  show ?thesis
  proof (cases q)
    case (Inl e)
    with assms rd t show ?thesis by (auto simp: readStep_def stays_dead_def split: fault.splits)
  next
    case (Inr data)
    obtain dec kk where dec: "GameCrypt_Decrypt data (c_gsCrypt t) = (dec, kk)" by (metis prod.exhaust)
    have "keeps stays_dead (andThen (handlePacket now dec) (\<lambda>_. ret True))"
      by (rule stays_dead_rules handlers_stay_dead)+
    from keepsD [OF this, of "t\<lparr>c_gsCrypt := kk\<rparr>"] assms rd t Inr dec show ?thesis
      by (cases "dec = []") (auto simp: readStep_def stays_dead_def)
  qed
qed

lemma readStep_sends_nothing:
  assumes "readStep now c = (r, d)"
  shows "sent P c d"
proof -
  obtain r' bs j v where d: "d = set_view v (set_recv r' bs j c)" using readStep_effect [OF assms] by blast
  show ?thesis
    by (rule sent_nothing [where bs = bs]) (simp_all add: d set_view_def set_recv_def)
qed

lemma runReadLoop_acts:
  "in_world c \<Longrightarrow> \<exists>b d. runReadLoop nows c = (Inr b, d) \<and> in_world d \<and> sent P c d \<and> stays_dead c d"
proof (induction nows arbitrary: c)
  case Nil
  then have "runReadLoop [] c = (Inr True, c)" by simp
  with Nil show ?case by (auto simp: stays_dead_def)
next
  case (Cons now nows)
  obtain b d where 1: "readStep now c = (Inr b, d)" "in_world d" using readStep_world Cons.prems by blast
  note 2 = readStep_dead [OF 1(1)] readStep_sends_nothing [OF 1(1), of P]
  show ?case
  proof (cases b)
    case True
    from Cons.IH [OF 1(2)] obtain b' e where
      3: "runReadLoop nows d = (Inr b', e)" "in_world e" "sent P d e" "stays_dead d e" by blast
    have "runReadLoop (now # nows) c = (Inr b', e)" using 1(1) 3(1) True by (simp add: andThen_def)
    moreover have "sent P c e" using 2(2) 3(3) by (rule sent_trans)
    moreover have "stays_dead c e" using 2(1) 3(4) by (simp add: stays_dead_def)
    ultimately show ?thesis using 3(2) by blast
  next
    case False
    have "runReadLoop (now # nows) c = (Inr False, d)" using 1(1) False by (simp add: andThen_def)
    with 1(2) 2 show ?thesis by blast
  qed
qed

lemma acts_read_turns [act_rules]: "acts D P (\<lambda>_. True) (read_turns ts)"
  unfolding acts_def
proof (intro allI impI)
  fix b :: "('a, 'b) bot"
  assume b: "bot_ok D b"
  obtain c s where cs: "b = (c, s)" by (cases b)
  have "in_world c" using b cs by (simp add: bot_ok_def)
  from runReadLoop_acts [OF this, of ts P] obtain r d where
    "runReadLoop ts c = (Inr r, d)" "in_world d" "sent P c d" "stays_dead c d" by blast
  with b cs show "\<exists>x b'. read_turns ts b = (Inr x, b') \<and> True \<and> bot_ok D b' \<and> sent P (fst b) (fst b')"
    by (auto simp: read_turns_def bot_ok_def stays_dead_def)
qed

lemma acts_pause [act_rules]: "acts D P (\<lambda>_. True) (pause :: (('k, 'f) bot, outcome) go)"
  unfolding acts_def
proof (intro allI impI)
  fix b :: "('k, 'f) bot"
  assume b: "bot_ok D b"
  obtain c s where cs: "b = (c, s)" by (cases b)
  show "\<exists>x b'. pause b = (Inr x, b') \<and> True \<and> bot_ok D b' \<and> sent P (fst b) (fst b')"
  proof (cases "waits s")
    case Nil
    with b cs show ?thesis by (simp add: pause_def)
  next
    case (Cons w ws)
    have "acts D P (\<lambda>_. True) (andThen (read_turns (w_reads w)) (\<lambda>_. ret (w_out w)) :: (('k, 'f) bot, outcome) go)"
      by (intro act_rules)
    moreover have "bot_ok D (c, s\<lparr>waits := ws, clock := w_now w\<rparr>)" using b cs by (simp add: bot_ok_def)
    ultimately obtain x b' where "andThen (read_turns (w_reads w)) (\<lambda>_. ret (w_out w))
        (c, s\<lparr>waits := ws, clock := w_now w\<rparr>) = (Inr x, b')" "bot_ok D b'" "sent P c (fst b')"
      by (rule actsD) simp
    with cs Cons show ?thesis by (auto simp: pause_def)
  qed
qed

lemma acts_sleepCtx [act_rules]: "acts D P (\<lambda>_. True) sleepCtx"
  unfolding sleepCtx_def by (intro act_rules)

section \<open>The packets of each action\<close>

definition chat_packet :: "byte list \<Rightarrow> bool" where
  "chat_packet p \<longleftrightarrow> (\<exists>phrase ch. (phrase \<in> set chatPhrases \<or> phrase \<in> set deathTaunts) \<and> p = say2_bytes (phrase, ch))"

definition skill_packet :: "byte list \<Rightarrow> bool" where
  "skill_packet p \<longleftrightarrow> length p = 13 \<and> take 10 p = skill_bytes 1177 False False"

definition bot_packet :: "byte list \<Rightarrow> bool" where
  "bot_packet p \<longleftrightarrow> p = appearing_bytes () \<or> chat_packet p \<or>
     (\<exists>q. p = move_bytes q) \<or> (\<exists>q. p = validate_bytes q) \<or>
     (\<exists>i. p = actionuse_bytes (i, False, False)) \<or> (\<exists>i. p = useitem_bytes (i, False)) \<or>
     (\<exists>q. p = target_bytes OpGSAction q) \<or> (\<exists>q. p = target_bytes OpGSAttackRequest q) \<or>
     skill_packet p"

lemma bot_packets [simp]:
  "bot_packet (appearing_bytes ())" "chat_packet p \<Longrightarrow> bot_packet p"
  "bot_packet (move_bytes q)" "bot_packet (validate_bytes v)"
  "bot_packet (actionuse_bytes (i, False, False))" "bot_packet (useitem_bytes (i, False))"
  "bot_packet (target_bytes OpGSAction t)" "bot_packet (target_bytes OpGSAttackRequest t)"
  "skill_packet p \<Longrightarrow> bot_packet p"
  unfolding bot_packet_def by blast+

lemma produces_skill_packet:
  "produces 15 (EncodeGSRequestMagicSkillUseTo 1177 False False) skill_packet"
proof -
  let ?bs = "skill_bytes 1177 False False"
  have l: "length ?bs = 10" by (simp add: skill_bytes_def)
  have "EncodeGSRequestMagicSkillUseTo 1177 False False s = (Inr 13, s\<lparr>mem := ?bs @ drop 10 (mem s)\<rparr>)"
    and "skill_packet (take 13 (?bs @ drop 10 (mem s)))" if "wf_slice s" and "slen s = 15" for s
    using that l by (simp_all add: EncodeGSRequestMagicSkillUseTo_ok wf_slice_def skill_packet_def)
  then show ?thesis
    unfolding produces_def by (auto intro: same_size_encoders)
qed

lemma produces_weaken: "produces k e P \<Longrightarrow> (\<And>p. P p \<Longrightarrow> Q p) \<Longrightarrow> produces k e Q"
  unfolding produces_def by blast

lemma produces_skill [act_rules]:
  "produces 15 (EncodeGSRequestMagicSkillUseTo 1177 False False) bot_packet"
  by (rule produces_weaken [OF produces_skill_packet]) simp

lemma phrases_short: "phrase \<in> set chatPhrases \<union> set deathTaunts \<Longrightarrow> length phrase \<le> 41"
  by (auto simp: chatPhrases_def deathTaunts_def)

lemma produces_chat [act_rules]:
  assumes "phrase \<in> set chatPhrases \<or> phrase \<in> set deathTaunts"
  shows "produces 256 (EncodeGSSay2To phrase ch) chat_packet"
proof -
  have "chat_packet (say2_bytes (phrase, ch))" using assms by (auto simp: chat_packet_def)
  with enc_say2.produces_encode [of "(phrase, ch)" 256 chat_packet] phrases_short [of phrase] assms
  show ?thesis by (simp add: same_size_encoders)
qed

definition taunt_packet :: "byte list \<Rightarrow> bool" where
  "taunt_packet p \<longleftrightarrow> (\<exists>phrase \<in> set deathTaunts. p = say2_bytes (phrase, 0))"

lemma taunt_chat [simp]: "taunt_packet p \<Longrightarrow> chat_packet p"
  by (auto simp: taunt_packet_def chat_packet_def)

lemma produces_taunt [act_rules]:
  assumes "phrase \<in> set deathTaunts"
  shows "produces 256 (EncodeGSSay2To phrase 0) taunt_packet"
proof -
  have "taunt_packet (say2_bytes (phrase, 0))" using assms by (auto simp: taunt_packet_def)
  with enc_say2.produces_encode [of "(phrase, 0)" 256 taunt_packet] phrases_short [of phrase] assms
  show ?thesis by (simp add: same_size_encoders)
qed

lemma produces_bot [act_rules]:
  "produces 30 (EncodeGSMoveToLocationTo a b d e g h) bot_packet"
  "produces 30 (EncodeGSValidatePositionTo a b d e) bot_packet"
  "produces 15 (EncodeGSRequestActionUseTo i False False) bot_packet"
  "produces 15 (EncodeGSUseItemTo i False) bot_packet"
  "produces 20 (EncodeGSActionTo i a b d o') bot_packet"
  "produces 20 (EncodeGSAttackRequestTo i a b d o') bot_packet"
  using enc_move.produces_encode [of "(a, b, d, e, g, h)" 30 bot_packet]
    enc_validate.produces_encode [of "(a, b, d, e)" 30 bot_packet]
    enc_actionuse.produces_encode [of "(i, False, False)" 15 bot_packet]
    enc_useitem.produces_encode [of "(i, False)" 15 bot_packet]
    enc_action.produces_encode [of "(i, a, b, d, o')" 20 bot_packet]
    enc_attack.produces_encode [of "(i, a, b, d, o')" 20 bot_packet]
  by (simp_all add: same_size_encoders)

section \<open>The actions\<close>

definition quiet_packet :: "byte list \<Rightarrow> bool" where
  "quiet_packet p \<longleftrightarrow> p = appearing_bytes () \<or> taunt_packet p"

lemma quiet_packets [simp]:
  "quiet_packet (appearing_bytes ())" "taunt_packet p \<Longrightarrow> quiet_packet p" "quiet_packet p \<Longrightarrow> bot_packet p"
  by (auto simp: quiet_packet_def)

lemma acts_ackTeleport: "acts D quiet_packet (\<lambda>_. True) ackTeleport"
proof -
  have "produces 4 EncodeGSAppearingTo quiet_packet"
    using enc_appearing.produces_encode [of "()" 4 quiet_packet]
    by (simp add: same_size_encoders)
  then show ?thesis
    unfolding ackTeleport_def
    by (intro act_rules acts_view) (simp_all add: only_view_def)
qed

lemma list_counts [simp]:
  "deathTaunts \<noteq> []" "chatPhrases \<noteq> []" "chatChannels \<noteq> []" "socialActions \<noteq> []"
  by (simp_all add: deathTaunts_def chatPhrases_def chatChannels_def socialActions_def)

lemma acts_taunt: "acts D taunt_packet (\<lambda>_. True) doDeathTaunt"
  unfolding doDeathTaunt_def
  by (intro act_rules acts_andThen [OF acts_IntN]) simp_all

lemma acts_chat: "acts D chat_packet (\<lambda>_. True) doChat"
  unfolding doChat_def
  by (rule acts_andThen [OF acts_IntN]) (intro act_rules | simp)+

lemma drain_view: "only_view c (drain_attack c)" "targets_ok (drain_attack c) = targets_ok c"
  "c_dead (drain_attack c) = c_dead c"
  by (simp_all add: drain_attack_def only_view_def)

lemma acts_small [act_rules]:
  "acts D bot_packet (\<lambda>_. True) doSocialAction" "acts D bot_packet (\<lambda>_. True) doUseItem"
  "acts D bot_packet (\<lambda>_. True) sweepLoot" "acts D bot_packet (\<lambda>_. True) randomTarget"
  "acts D bot_packet (\<lambda>_. True) (sendAttack i)" "acts D bot_packet (\<lambda>_. True) (onC (modifyS drain_attack))"
  unfolding doSocialAction_def doUseItem_def randomItem_def sweepLoot_def randomTarget_def sendAttack_def
  by (intro act_rules acts_view; simp add: drain_view)+

lemma acts_combat_loop [act_rules]: "acts D bot_packet (\<lambda>_. True) (combat_loop n)"
proof (induction n)
  case 0
  show ?case unfolding combat_loop.simps by (intro act_rules)
next
  case (Suc n)
  show ?case unfolding combat_loop.simps by (intro act_rules Suc) simp
qed

lemma acts_doCombat [act_rules]: "acts D bot_packet (\<lambda>_. True) doCombat"
  unfolding doCombat_def by (intro act_rules) simp

lemma acts_doRoam [act_rules]: "acts D bot_packet (\<lambda>_. True) (doRoam fl)"
  unfolding doRoam_def Let_def
  by (intro act_rules acts_sched acts_view) (simp_all add: only_view_def)

lemma acts_chooseAction [act_rules]: "acts D P (\<lambda>_. True) (chooseAction st)"
  unfolding chooseAction_def Let_def by (intro act_rules) simp_all

lemma acts_doAction [act_rules]: "acts D bot_packet (\<lambda>_. True) (doAction fl st)"
  unfolding doAction_def
  by (intro act_rules acts_more [OF acts_chat]) simp_all

lemma acts_actionTurn [act_rules]: "acts D bot_packet (\<lambda>_. True) (actionTurn fl st)"
  unfolding actionTurn_def
  by (intro act_rules acts_more [OF acts_ackTeleport] acts_more [OF acts_taunt]) simp_all

lemma acts_dead_turn: "acts True quiet_packet (\<lambda>_. True) (actionTurn fl st)"
proof -
  have dead: "acts True quiet_packet (\<lambda>_. True) (andThen getS (\<lambda>(c, s).
      if c_dead c then doDeathTaunt else doAction fl st))"
    by (rule acts_read, rule act_rules, rule acts_if, rule acts_more [OF acts_taunt])
      (auto simp: bot_ok_def)
  show ?thesis
    unfolding actionTurn_def
    by (intro act_rules acts_ackTeleport dead) simp
qed

section \<open>The whole loop\<close>

lemma actionLoop_acts:
  assumes "acts D P (\<lambda>_. True) (actionTurn fl st :: (('k, 'f) bot, bool) go)"
  shows "acts D P (\<lambda>_. True) (actionLoop fl st :: (('k, 'f) bot, unit) go)"
proof -
  have "bot_ok D b \<Longrightarrow> \<exists>b'. actionLoop fl st b = (Inr (), b') \<and> bot_ok D b' \<and> sent P (fst b) (fst b')"
    for b :: "('k, 'f) bot"
  proof (induction "length (waits (snd b))" arbitrary: b rule: less_induct)
    case less
    from assms less.prems obtain on b1 where
      1: "actionTurn fl st b = (Inr on, b1)" "bot_ok D b1" "sent P (fst b) (fst b1)"
      by (rule actsD) simp
    show ?case
    proof (cases on)
      case True
      with 1(1) have "length (waits (snd b1)) < length (waits (snd b))"
        by (simp add: actionTurn_shortens)
      from less.hyps [OF this 1(2)] obtain b2 where
        2: "actionLoop fl st b1 = (Inr (), b2)" "bot_ok D b2" "sent P (fst b1) (fst b2)" by blast
      with 1 True have "actionLoop fl st b = (Inr (), b2)" by (simp add: actionLoop.simps [of fl st b])
      with 2(2) sent_trans [OF 1(3) 2(3)] show ?thesis by blast
    next
      case False
      with 1 have "actionLoop fl st b = (Inr (), b1)" by (simp add: actionLoop.simps [of fl st b])
      with 1 show ?thesis by blast
    qed
  qed
  then show ?thesis unfolding acts_def by blast
qed

lemma runActionLoop_acts:
  assumes "acts D P (\<lambda>_. True) (actionTurn fl st :: (('k, 'f) bot, bool) go)"
  shows "acts D P (\<lambda>_. True) (runActionLoop fl st :: (('k, 'f) bot, unit) go)"
  unfolding runActionLoop_def by (intro act_rules acts_sched actionLoop_acts assms)

text \<open>\<open>Logout\<close> is a request like the others, whose error is dropped.\<close>

lemma Logout_request:
  assumes "c_State c = StateGSLoggedIn"
  shows "Logout c = andThen (succeeds (gs_request 1 (andThen (setB 0 OpGSLogout) (\<lambda>_. ret 1)))) (\<lambda>_. ret ()) c"
proof -
  define e :: "(gslice, nat) go" where "e = andThen (setB 0 OpGSLogout) (\<lambda>_. ret 1)"
  obtain r1 t1 where p: "gs_payload 1 (setB 0 OpGSLogout) c = (r1, t1)" by (metis prod.exhaust)
  have payload: "gs_payload 1 e c = (case r1 of Inl f \<Rightarrow> (Inl f, t1) | Inr _ \<Rightarrow> (Inr 1, t1))"
    using p by (auto simp: e_def gs_payload_def via_def on_payload_def andThen_def
        split: option.splits prod.splits sum.splits)
  have "r1 \<noteq> Inl (Error m)" for m
    using p by (auto simp: gs_payload_def via_def on_payload_def setB_def split: option.splits prod.splits if_splits)
  then have r1: "r1 = Inl Panic \<or> r1 = Inr ()" by (cases r1; cases "projl r1") auto
  obtain r2 t2 where enc: "gs_encrypt 1 t1 = (r2, t2)" by (metis prod.exhaust)
  have "r2 \<noteq> Inl (Error m)" for m
    using enc by (auto simp: gs_encrypt_def Let_def split: option.splits prod.splits if_splits)
  then have r2: "r2 = Inl Panic \<or> r2 = Inr ()" by (cases r2; cases "projl r2") auto
  obtain r3 t3 where snd: "gs_send 1 t2 = (r3, t3)" by (metis prod.exhaust)
  have "Logout c = andThen (succeeds (gs_request 1 e)) (\<lambda>_. ret ()) c"
    using assms r1 r2 p payload enc snd
    by (cases r3) (auto simp: Logout_def gs_request_def sendGS_def succeeds_def andThen_def split: fault.splits)
  then show ?thesis by (simp add: e_def)
qed

text \<open>On a connection that is up it sends its packet, on any other nothing.\<close>

lemma Logout_sends:
  assumes "in_world c"
  shows "\<exists>d. Logout c = (Inr (), d) \<and> in_world d \<and> tx (gs_sock d) = tx (gs_sock c) @
    (if gs_up c then frame (fst (GameCrypt_Encrypt [OpGSLogout] (c_gsCrypt c))) else [])"
proof -
  let ?e = "andThen (setB 0 OpGSLogout) (\<lambda>_. ret 1)" and ?P = "\<lambda>p. p = [OpGSLogout]"
  have p: "produces 1 ?e ?P"
    unfolding produces_def
  proof (intro conjI allI impI)
    show "same_size ?e" by (intro size_rules)
    fix s :: gslice
    assume s: "wf_slice s \<and> slen s = 1"
    then obtain m ms where "mem s = m # ms" by (cases "mem s") (auto simp: wf_slice_def)
    with s show "\<exists>n t. ?e s = (Inr n, t) \<and> n \<le> 1 \<and> take n (mem t) = [OpGSLogout]"
      by (simp add: setB_def andThen_def)
  qed simp
  from gs_request_sent [OF assms p] obtain r d where rd: "gs_request 1 ?e c = (r, d)" "r \<noteq> Inl Panic"
    "in_world d" "sent ?P c d" "gs_up c \<longrightarrow> (\<exists>p w. p = [OpGSLogout] \<and> d = after_send p w c)" by blast
  have "Logout c = (Inr (), d)"
    using Logout_request [of c] assms rd(1,2)
    by (auto simp: in_world_def gs_in_def andThen_def succeeds_def split: sum.splits fault.splits)
  moreover have "tx (gs_sock d) = tx (gs_sock c) @
      (if gs_up c then frame (fst (GameCrypt_Encrypt [OpGSLogout] (c_gsCrypt c))) else [])"
    using rd(4,5) by (auto simp: sent_def after_send_def)
  ultimately show ?thesis using rd(3) by blast
qed

lemma RunGameLoop_run:
  assumes "in_world c"
  shows "\<exists>c' s' d. RunGameLoop fl st idle (c, s) = (Inr (), (c', s')) \<and> in_world c' \<and>
    andThen (runActionLoop fl st) (\<lambda>_. read_turns idle) (c, s\<lparr>reading := True\<rparr>) = (Inr (), (d, s')) \<and>
    sent bot_packet c d \<and> tx (gs_sock c') = tx (gs_sock d) @
      (if gs_up d then frame (fst (GameCrypt_Encrypt [OpGSLogout] (c_gsCrypt d))) else [])"
proof -
  have loop: "acts False bot_packet (\<lambda>_. True) (andThen (runActionLoop fl st) (\<lambda>_. read_turns idle))"
    by (intro act_rules runActionLoop_acts)
  have ok: "bot_ok False (c, s\<lparr>reading := True\<rparr>)" using assms by (simp add: bot_ok_def)
  from loop ok obtain u b1 where "andThen (runActionLoop fl st) (\<lambda>_. read_turns idle) (c, s\<lparr>reading := True\<rparr>) =
      (Inr u, b1)" "bot_ok False b1" "sent bot_packet (fst (c, s\<lparr>reading := True\<rparr>)) (fst b1)"
    by (rule actsD)
  then obtain d s1 where 1: "andThen (runActionLoop fl st) (\<lambda>_. read_turns idle) (c, s\<lparr>reading := True\<rparr>) =
      (Inr (), (d, s1))" "in_world d" "sent bot_packet c d"
    by (cases b1) (simp add: bot_ok_def)
  from Logout_sends [OF 1(2)] obtain c' where 2: "Logout d = (Inr (), c')" "in_world c'"
    "tx (gs_sock c') = tx (gs_sock d) @
      (if gs_up d then frame (fst (GameCrypt_Encrypt [OpGSLogout] (c_gsCrypt d))) else [])" by blast
  have "c_State c = StateGSLoggedIn" using assms by (simp add: in_world_def gs_in_def)
  then have "RunGameLoop fl st idle (c, s) = andThen (andThen (runActionLoop fl st) (\<lambda>_. read_turns idle))
      (\<lambda>_. onC Logout) (c, s\<lparr>reading := True\<rparr>)"
    by (simp add: RunGameLoop_def andThen_assoc)
  also have "\<dots> = onC Logout (d, s1)" using 1(1) by (rule andThen_Inr)
  also have "\<dots> = (Inr (), (c', s1))" using 2(1) by (simp add: onC_def)
  finally show ?thesis using 1 2(2,3) by blast
qed

text \<open>
  C3. The game loop is the action loop, the last turns of the read loop and then the logout. Whatever
  the game server sends, whatever is drawn and however the waits end, no panic stops it; every packet
  it sends before the logout is one of the bot's own requests, encrypted in turn under the rolling key;
  and the last bytes it sends are exactly the logout, under the key that follows, or, when a write has
  failed before, nothing more.
\<close>

theorem RunGameLoop_traffic:
  assumes "in_world c"
  shows "\<exists>c' s' d. RunGameLoop fl st idle (c, s) = (Inr (), (c', s')) \<and> in_world c' \<and>
    andThen (runActionLoop fl st) (\<lambda>_. read_turns idle) (c, s\<lparr>reading := True\<rparr>) = (Inr (), (d, s')) \<and>
    sent bot_packet c d \<and> tx (gs_sock c') = tx (gs_sock d) @
      (if gs_up d then frame (fst (GameCrypt_Encrypt [OpGSLogout] (c_gsCrypt d))) else [])"
  using assms by (rule RunGameLoop_run)

theorem RunGameLoop_traffic_witness:
  "\<exists>c' s'. RunGameLoop \<lparr>heading = (\<lambda>h. h), cosStride = (\<lambda>h n. of_nat n), sinStride = (\<lambda>h n. 0)\<rparr> False []
      (sample_game StateGSLoggedIn [], \<lparr>draws = [1, 2], waits = [], clock = 0, roamAngle = 0, reading = False\<rparr>) =
      (Inr (), (c', s')) \<and>
    tx (gs_sock c') = frame (fst (GameCrypt_Encrypt [OpGSLogout] sample_crypt))"
proof -
  let ?fl = "\<lparr>heading = (\<lambda>h. h), cosStride = (\<lambda>h n. of_nat n), sinStride = (\<lambda>h n. 0)\<rparr> :: nat floats"
  let ?c = "sample_game StateGSLoggedIn []"
  let ?s = "\<lparr>draws = [1, 2], waits = [], clock = 0, roamAngle = 0, reading = False\<rparr>"
  have no_turn: "fst (snd (andThen (runActionLoop ?fl False) (\<lambda>_. read_turns []) (?c, ?s\<lparr>reading := True\<rparr>))) = ?c"
    by (simp add: runActionLoop_def actionLoop.simps actionTurn_def ackTeleport_def sleepCtx_def pause_def
        read_turns_def IntN_def raw_draw_def andThen_def sample_game_def NewClient_def)
  have up: "gs_up ?c" by (simp add: gs_up_def)
  from RunGameLoop_traffic [OF sample_in_world, of ?fl False "[]" "[]" ?s] no_turn up show ?thesis
    by auto
qed

text \<open>
  C10. A dead bot only taunts: a turn of the action loop that starts dead sends nothing but death taunts
  in the public channel and the acknowledgement of a teleport, and the bot is still dead after it.
\<close>

theorem dead_bot_only_chats:
  assumes "in_world c" and "c_dead c"
  shows "\<exists>b c' s'. actionTurn fl st (c, s) = (Inr b, (c', s')) \<and> c_dead c' \<and>
    sent (\<lambda>p. p = appearing_bytes () \<or> (\<exists>phrase \<in> set deathTaunts. p = say2_bytes (phrase, 0))) c c'"
proof -
  have ok: "bot_ok True (c, s)" using assms by (simp add: bot_ok_def)
  from acts_dead_turn ok obtain b b' where "actionTurn fl st (c, s) = (Inr b, b')" "bot_ok True b'"
    "sent quiet_packet c (fst b')"
    by (rule actsD) simp
  then show ?thesis
    by (cases b') (auto simp: bot_ok_def elim!: sent_weaken simp: quiet_packet_def taunt_packet_def)
qed

theorem dead_bot_only_chats_witness:
  "\<exists>b c' s'. actionTurn \<lparr>heading = (\<lambda>h. h), cosStride = (\<lambda>h n. of_nat n), sinStride = (\<lambda>h n. 0)\<rparr> False
      ((sample_game StateGSLoggedIn [])\<lparr>c_dead := True\<rparr>,
       \<lparr>draws = [0], waits = [\<lparr>w_reads = [], w_now = 0, w_out = Elapsed\<rparr>], clock = 0, roamAngle = 0, reading = True\<rparr>) =
      (Inr b, (c', s')) \<and> c_dead c'"
proof -
  have "in_world ((sample_game StateGSLoggedIn [])\<lparr>c_dead := True\<rparr>)"
    using sample_in_world [of "[]"] by (simp add: in_world_def gs_in_def game_inv_def holds_game_def)
  from dead_bot_only_chats [OF this] show ?thesis by simp blast
qed

end
