(* ===== verification/BotActions.thy ===== *)
theory BotActions
  imports BotTraffic
begin

text \<open>
  What single actions of the bot do: the acknowledgement of a teleport, the attack a class
  launches, and the roaming that \<open>-stationary\<close> does not rule out.
\<close>

section \<open>A request, and the client after it\<close>

lemma transmit_up:
  assumes "in_world c" and "gs_up c" and "produces k e P"
  shows "\<exists>p w. P p \<and> transmit k e (c, s) = (Inr True, (after_send p w c, s)) \<and> in_world (after_send p w c)"
proof -
  from gs_request_sent [OF assms(1,3)] assms(2) obtain p w where
    "gs_request k e c = (Inr (), after_send p w c)" "in_world (after_send p w c)" "P p" by blast
  then show ?thesis by (auto simp: transmit_def onC_def succeeds_def)
qed

lemma after_send_fields [simp]:
  "c_x (after_send p w c) = c_x c" "c_y (after_send p w c) = c_y c" "c_z (after_send p w c) = c_z c"
  "c_classID (after_send p w c) = c_classID c" "c_mp (after_send p w c) = c_mp c"
  "c_skillReady (after_send p w c) = c_skillReady c" "c_pendingAppear (after_send p w c) = c_pendingAppear c"
  "c_converged (after_send p w c) = c_converged c" "c_dead (after_send p w c) = c_dead c"
  "c_npcs (after_send p w c) = c_npcs c" "c_inventory (after_send p w c) = c_inventory c"
  "c_gsCrypt (after_send p w c) = snd (GameCrypt_Encrypt p (c_gsCrypt c))"
  "tx (gs_sock (after_send p w c)) = tx (gs_sock c) @ frame (fst (GameCrypt_Encrypt p (c_gsCrypt c)))"
  "gs_up (after_send p w c) \<longleftrightarrow> \<not> closed (gs_sock c) \<and> 1 < writes_left (gs_sock c)"
  by (auto simp: after_send_def gs_up_def)

lemma canCast_after_send [simp]: "canCast t i (after_send p w c) = canCast t i c"
  by (simp add: canCast_def split: option.split)

text \<open>The exact packets, as singletons for \<open>produces\<close>.\<close>

lemma produces_exact:
  "produces 4 EncodeGSAppearingTo (\<lambda>p. p = appearing_bytes ())"
  "produces 30 (EncodeGSMoveToLocationTo a b d e g h) (\<lambda>p. p = move_bytes (a, b, d, e, g, h))"
  "produces 20 (EncodeGSActionTo i a b d o') (\<lambda>p. p = target_bytes OpGSAction (i, a, b, d, o'))"
  "produces 20 (EncodeGSAttackRequestTo i a b d o') (\<lambda>p. p = target_bytes OpGSAttackRequest (i, a, b, d, o'))"
  using enc_appearing.produces_encode [of "()" 4 "\<lambda>p. p = appearing_bytes ()"]
    enc_move.produces_encode [of "(a, b, d, e, g, h)" 30 "\<lambda>p. p = move_bytes (a, b, d, e, g, h)"]
    enc_action.produces_encode [of "(i, a, b, d, o')" 20 "\<lambda>p. p = target_bytes OpGSAction (i, a, b, d, o')"]
    enc_attack.produces_encode [of "(i, a, b, d, o')" 20 "\<lambda>p. p = target_bytes OpGSAttackRequest (i, a, b, d, o')"]
  by (simp_all add: same_size_encoders)

section \<open>Attacks\<close>

text \<open>
  C11. An attack targets the object and then launches the class's offence: a human mystic with at
  least 15 mana and Wind Strike off cooldown casts it, everybody else attacks.
\<close>

theorem sendAttack_packets:
  assumes "in_world c" and "\<not> closed (gs_sock c)" and "2 \<le> writes_left (gs_sock c)"
  shows "\<exists>c' p. sendAttack i (c, s) = (Inr True, (c', s)) \<and>
    tx (gs_sock c') = tx (gs_sock c) @ concat (map frame (encrypted
      [target_bytes OpGSAction (i, c_x c, c_y c, c_z c, 0), p] (c_gsCrypt c))) \<and>
    (if c_classID c = 10 \<and> canCast (clock s) 1177 c
     then length p = 13 \<and> take 10 p = skill_bytes 1177 False False
     else p = target_bytes OpGSAttackRequest (i, c_x c, c_y c, c_z c, 0))"
proof -
  let ?a = "target_bytes OpGSAction (i, c_x c, c_y c, c_z c, 0)"
  let ?cast = "c_classID c = 10 \<and> canCast (clock s) 1177 c"
  have up: "gs_up c" using assms(2,3) by (simp add: gs_up_def)
  from transmit_up [OF assms(1) up produces_exact(3), of i "c_x c" "c_y c" "c_z c" 0 s] obtain w where
    1: "transmit 20 (EncodeGSActionTo i (c_x c) (c_y c) (c_z c) 0) (c, s) = (Inr True, (after_send ?a w c, s))"
    and world: "in_world (after_send ?a w c)" by blast
  have up1: "gs_up (after_send ?a w c)" using assms(2,3) by simp
  have "\<exists>p w'. transmit (if ?cast then 15 else 20) (if ?cast then EncodeGSRequestMagicSkillUseTo 1177 False False
      else EncodeGSAttackRequestTo i (c_x c) (c_y c) (c_z c) 0) (after_send ?a w c, s) =
      (Inr True, (after_send p w' (after_send ?a w c), s)) \<and>
    (if ?cast then skill_packet p else p = target_bytes OpGSAttackRequest (i, c_x c, c_y c, c_z c, 0))"
    using transmit_up [OF world up1 produces_skill_packet, of s]
      transmit_up [OF world up1 produces_exact(4), of i "c_x c" "c_y c" "c_z c" 0 s]
    by (cases ?cast) auto
  then obtain p w' where 2: "transmit (if ?cast then 15 else 20) (if ?cast then EncodeGSRequestMagicSkillUseTo 1177 False False
      else EncodeGSAttackRequestTo i (c_x c) (c_y c) (c_z c) 0) (after_send ?a w c, s) =
      (Inr True, (after_send p w' (after_send ?a w c), s))"
    and p: "if ?cast then skill_packet p else p = target_bytes OpGSAttackRequest (i, c_x c, c_y c, c_z c, 0)"
    by blast
  have "sendAttack i (c, s) = (Inr True, (after_send p w' (after_send ?a w c), s))"
    using 1 2 by (cases ?cast) (auto simp: sendAttack_def andThen_def)
  with p show ?thesis by (auto simp: skill_packet_def Let_def split_beta)
qed

section \<open>Teleports\<close>

text \<open>
  C13. A teleport is acknowledged exactly once: the packet moves the bot where the server put it,
  the next turn sends one Appearing packet, and the turn after that sends nothing.
\<close>

theorem teleport_acknowledged:
  assumes "in_world c" and "gs_up c" and "17 \<le> length data" and "data ! 0 = OpGSTeleportToLocation"
  shows "\<exists>c1 c2. handlePacket now data c = (Inr (), c1) \<and>
    (c_x c1, c_y c1, c_z c1) = (u32_at data 5, u32_at data 9, u32_at data 13) \<and> c_converged c1 \<and>
    ackTeleport (c1, s) = (Inr True, (c2, s)) \<and>
    tx (gs_sock c2) = tx (gs_sock c) @ frame (fst (GameCrypt_Encrypt [OpGSAppearing] (c_gsCrypt c))) \<and>
    ackTeleport (c2, s) = (Inr True, (c2, s))"
proof -
  let ?c1 = "c\<lparr>c_x := u32_at data 5, c_y := u32_at data 9, c_z := u32_at data 13,
    c_pendingAppear := True, c_converged := True\<rparr>"
  have "0 < length data" using assms(3) by linarith
  then have "idx data 0 = Inr OpGSTeleportToLocation" using assms(4) by simp
  then have 1: "handlePacket now data c = (Inr (), ?c1)"
    using assms(3) by (simp add: handlePacket_def handleTeleport_def andThen_assoc)
  let ?d = "?c1\<lparr>c_pendingAppear := False\<rparr>"
  have "in_world ?d" using assms(1) by (simp add: in_world_def gs_in_def game_inv_def holds_game_def)
  moreover have "gs_up ?d" using assms(2) by (simp add: gs_up_def)
  ultimately obtain w where 2: "transmit 4 EncodeGSAppearingTo (?d, s) =
      (Inr True, (after_send (appearing_bytes ()) w ?d, s))"
    using transmit_up [OF _ _ produces_exact(1), of ?d s] by blast
  let ?c2 = "after_send (appearing_bytes ()) w ?d"
  have 3: "ackTeleport (?c1, s) = (Inr True, (?c2, s))"
    using 2 by (simp add: ackTeleport_def andThen_def onC_def)
  have 4: "ackTeleport (?c2, s) = (Inr True, (?c2, s))"
    by (simp add: ackTeleport_def)
  show ?thesis
    by (rule exI [of _ ?c1], rule exI [of _ ?c2])
      (use 1 3 4 in \<open>simp add: appearing_bytes_def\<close>)
qed

section \<open>Stationary bots\<close>

text \<open>
  C14. A stationary bot does roam: when it knows no target, a drawn move or attack becomes a move,
  and the bot sends a MoveToLocation away from where it stands.
\<close>

theorem stationary_bot_moves:
  assumes "in_world c" and "gs_up c" and "targetCount c = 0"
    and "draws s = a # d # r # ds" and "a mod 5 = 0 \<or> a mod 5 = 3" and "d mod 4 \<noteq> 0" and "waits s = []"
  shows "\<exists>c' s'. doAction fl True (c, s) = (Inr False, (c', s')) \<and>
    tx (gs_sock c') = tx (gs_sock c) @ frame (fst (GameCrypt_Encrypt (move_bytes
      (c_x c + cosStride fl (roamAngle s) (800 + r mod 1200), c_y c + sinStride fl (roamAngle s) (800 + r mod 1200),
       c_z c, c_x c, c_y c, c_z c)) (c_gsCrypt c)))"
proof -
  let ?s1 = "s\<lparr>draws := d # r # ds\<rparr>" and ?s3 = "s\<lparr>draws := ds\<rparr>"
  let ?x = "c_x c + cosStride fl (roamAngle s) (800 + r mod 1200)"
  let ?y = "c_y c + sinStride fl (roamAngle s) (800 + r mod 1200)"
  from transmit_up [OF assms(1,2) produces_exact(2), of ?x ?y "c_z c" "c_x c" "c_y c" "c_z c" ?s3] obtain w where
    t: "transmit 30 (EncodeGSMoveToLocationTo ?x ?y (c_z c) (c_x c) (c_y c) (c_z c)) (c, ?s3) =
      (Inr True, (after_send (move_bytes (?x, ?y, c_z c, c_x c, c_y c, c_z c)) w c, ?s3))" (is "_ = (Inr True, (?c', _))")
    by blast
  have choice: "chooseAction True (c, s) = (Inr 0, (c, ?s1))"
    using assms(3-5) by (auto simp: chooseAction_def IntN_def raw_draw_def andThen_def Let_def)
  have "doRoam fl (c, ?s1) = (Inr False, (?c', ?s3))"
    using t assms(6,7)
    by (simp add: doRoam_def IntN_def raw_draw_def andThen_def Let_def sleepCtx_def pause_def)
  with choice have "doAction fl True (c, s) = (Inr False, (?c', ?s3))"
    by (simp add: doAction_def andThen_def)
  moreover have "tx (gs_sock ?c') = tx (gs_sock c) @ frame (fst (GameCrypt_Encrypt
      (move_bytes (?x, ?y, c_z c, c_x c, c_y c, c_z c)) (c_gsCrypt c)))"
    by (rule after_send_fields)
  ultimately show ?thesis by blast
qed

section \<open>The actions on a concrete client\<close>

definition sample_floats :: "nat floats" where
  "sample_floats = \<lparr>heading = (\<lambda>h. h), cosStride = (\<lambda>h n. of_nat n), sinStride = (\<lambda>h n. 0)\<rparr>"

definition sample_sched :: "nat list \<Rightarrow> nat sched" where
  "sample_sched ds = \<lparr>draws = ds, waits = [], clock = 0, roamAngle = 0, reading = True\<rparr>"

lemma sample_up [simp]: "gs_up (sample_game S bs)" "\<not> closed (gs_sock (sample_game S bs))"
  "targetCount (sample_game S bs) = 0" "2 \<le> writes_left (sample_conn bs)"
  by (simp_all add: gs_up_def sample_conn_def targetCount_def sample_game_def NewClient_def)

theorem sendAttack_packets_witness:
  "\<exists>c' p. sendAttack 5 (sample_game StateGSLoggedIn [], sample_sched []) = (Inr True, (c', sample_sched [])) \<and>
     p = target_bytes OpGSAttackRequest (5, 0, 0, 0, 0)"
proof -
  have "c_classID (sample_game StateGSLoggedIn []) = 0" "c_x (sample_game StateGSLoggedIn []) = 0"
    by (simp_all add: sample_game_def NewClient_def)
  with sendAttack_packets [OF sample_in_world, of "[]" 5 "sample_sched []"] show ?thesis by auto
qed

theorem teleport_acknowledged_witness:
  "\<exists>c1 c2. ackTeleport (c1 :: byte Client, sample_sched []) = (Inr True, (c2, sample_sched [])) \<and> c_x c1 = 7 \<and>
     tx (gs_sock c2) \<noteq> [] \<and> ackTeleport (c2, sample_sched []) = (Inr True, (c2, sample_sched []))"
proof -
  let ?data = "[OpGSTeleportToLocation, 1, 0, 0, 0, 7, 0, 0, 0, 8, 0, 0, 0, 9, 0, 0, 0] :: byte list"
  have "u32_at ?data 5 = 7" by code_simp
  moreover from teleport_acknowledged [OF sample_in_world, of "[]" ?data 0 "sample_sched []"]
  obtain c1 c2 where "c_x (c1 :: byte Client) = u32_at ?data 5"
    "ackTeleport (c1, sample_sched []) = (Inr True, (c2, sample_sched []))"
    "tx (gs_sock c2) = frame (fst (GameCrypt_Encrypt [OpGSAppearing] sample_crypt))"
    "ackTeleport (c2, sample_sched []) = (Inr True, (c2, sample_sched []))" by auto
  moreover have "frame bs \<noteq> []" for bs by (simp add: frame_def le16_bytes_def)
  ultimately show ?thesis by metis
qed

theorem stationary_bot_moves_witness:
  "\<exists>c' s'. doAction sample_floats True (sample_game StateGSLoggedIn [], sample_sched [3, 1, 200]) =
      (Inr False, (c', s')) \<and> tx (gs_sock c') \<noteq> []"
  using stationary_bot_moves [OF sample_in_world, of "[]" "sample_sched [3, 1, 200]" 3 1 200 "[]" sample_floats]
  by (auto simp: sample_sched_def frame_def le16_bytes_def)

end
