(* ===== verification/FleetProps.thy ===== *)
theory FleetProps
  imports Fleet Session ScenarioProps BotActions
begin

text \<open>
  What holds of the fleet: distinct accounts, ramp delays that stay in their slots, a server index
  that is always in range, and, for one client from its creation to \<open>Close\<close>, which connections are
  closed, where a panic can come from and what the log says about the outcome.
\<close>

section \<open>Credentials and delays\<close>

text \<open>
  C30. The accounts of a fleet are distinct, account and password of a client carry the same suffix, and
  a single client uses the bases as they are; a negative number of clients panics.
\<close>

theorem buildCreds_distinct:
  "(buildCreds a p n = Inl Panic \<longleftrightarrow> sint n < 0) \<and>
   (case buildCreds a p n of Inl e \<Rightarrow> e = Panic
    | Inr cs \<Rightarrow> length cs = nat (sint n) \<and> distinct (map cr_user cs) \<and>
        list_all (\<lambda>cr. \<exists>suffix. cr_user cr = a @ suffix \<and> cr_pass cr = p @ suffix) cs \<and>
        (sint n = 1) = (cs = [\<lparr>cr_user = a, cr_pass = p\<rparr>]))"
proof (cases "sint n > 1")
  case True
  then have "buildCreds a p n = Inr (map (\<lambda>i. \<lparr>cr_user = a @ itoa (int i), cr_pass = p @ itoa (int i)\<rparr>)
      [0..<nat (sint n)])"
    by (simp add: buildCreds_def Let_def)
  moreover have "inj (\<lambda>i. itoa (int i))" by (simp add: inj_def itoa_nat_inject)
  moreover have "length cs = nat (sint n) \<Longrightarrow> cs \<noteq> [x]" for cs :: "creds list" and x
    using True by auto
  ultimately show ?thesis using True
    by (simp add: distinct_map list_all_iff inj_on_def itoa_nat_inject)
next
  case False
  then have "sint n < 0 \<or> sint n = 0 \<or> sint n = 1" by linarith
  then show ?thesis by (auto simp: buildCreds_def)
qed

lemma sint_small: "0 \<le> k \<Longrightarrow> k \<le> sint (n :: i64) \<Longrightarrow> sint (word_of_int k :: i64) = k"
  using sint_range_size [of n] by (simp add: sint_sbintrunc' word_size signed_take_bit_int_eq_self)

text \<open>
  C29. The ramp: client \<open>who\<close> of \<open>count\<close> waits within its own slot \<open>[who * slot, (who + 1) * slot)\<close>, never as
  long as the whole ramp, without overflow, and the draw never panics. A ramp shorter than one
  nanosecond per client does not spread anything.
\<close>

theorem ramp_delay_bounds:
  assumes "int who < sint (bc_count cfg)"
  shows "case ramp_delay cfg who draw of Inl e \<Rightarrow> False
    | Inr None \<Rightarrow> sint (bc_ramp cfg) \<le> 0 \<or> sint (bc_count cfg) \<le> 1
    | Inr (Some d) \<Rightarrow> (let slot = sint (bc_ramp cfg) div sint (bc_count cfg) in
        int who * slot \<le> sint d \<and> sint d \<le> int who * slot + max 0 (slot - 1) \<and> sint d < sint (bc_ramp cfg))"
proof (cases "sint (bc_ramp cfg) > 0 \<and> sint (bc_count cfg) > 1")
  case False
  then show ?thesis by (auto simp: ramp_delay_def)
next
  case True
  let ?R = "sint (bc_ramp cfg)" and ?n = "sint (bc_count cfg)"
  let ?s = "?R div ?n"
  have s0: "0 \<le> ?s" using True by (simp add: pos_imp_zdiv_nonneg_iff)
  have "?s * ?n \<le> ?R" using True by (metis div_mult_mod_eq le_add_same_cancel1 less_trans pos_mod_sign zero_less_one)
  moreover have "(int who + 1) * ?s \<le> ?n * ?s" using assms s0 by (intro mult_right_mono) auto
  ultimately have top: "int who * ?s + ?s \<le> ?R" by (simp add: algebra_simps)
  have "?s \<le> ?R" using top s0 by (smt (verit) mult_nonneg_nonneg of_nat_0_le_iff)
  then have slot: "sint (ramp_slot cfg) = ?s"
    using True s0 sint_small [of ?s "bc_ramp cfg"]
    by (simp add: ramp_slot_def signed_divide_int_def)
  have delay: "(of_nat who * ramp_slot cfg :: i64) = word_of_int (int who * ?s)"
    using True by (simp add: ramp_slot_def signed_divide_int_def)
  have sum: "sint (word_of_int (int who * ?s) + word_of_int r :: i64) = int who * ?s + r"
    if "0 \<le> r" "r \<le> ?s" for r
    using sint_small [of "int who * ?s + r" "bc_ramp cfg"] that top s0 by simp
  show ?thesis
  proof (cases "?s > 0")
    case False
    then have "?s = 0" using s0 by simp
    with True show ?thesis by (simp add: ramp_delay_def slot delay Let_def)
  next
    case pos: True
    define r where "r = int draw mod ?s"
    have r: "0 \<le> r" "r < ?s" using pos by (simp_all add: r_def)
    have "ramp_delay cfg who draw = Inr (Some (word_of_int (int who * ?s) + word_of_int r))"
      using True pos by (simp add: ramp_delay_def slot delay Let_def Int64N_def r_def)
    with sum [of r] r top show ?thesis by (simp add: Let_def)
  qed
qed

theorem ramp_delay_bounds_witness:
  "\<exists>d. ramp_delay \<lparr>bc_addr = '''', bc_scenario = '''', bc_creds = [], bc_staticKey = [],
       bc_ramp = 30000000000, bc_serverIdx = 1, bc_count = 3, bc_stationary = False\<rparr> 2 12345 = Inr (Some d) \<and>
     20000000000 \<le> sint d \<and> sint d < 30000000000"
proof -
  let ?cfg = "\<lparr>bc_addr = '''', bc_scenario = '''', bc_creds = [], bc_staticKey = [],
       bc_ramp = 30000000000, bc_serverIdx = 1, bc_count = 3, bc_stationary = False\<rparr>"
  have "int 2 < sint (bc_count ?cfg)" by simp
  from ramp_delay_bounds [OF this, of 12345] show ?thesis
    by (auto simp: Let_def split: sum.splits option.splits)
qed

lemma pick_server_less: "0 < n \<Longrightarrow> pick_server k n < n"
  by (auto simp: pick_server_def Let_def)

section \<open>Steps of a client and their report\<close>

text \<open>
  \<open>reports J \<Phi> m\<close>: started in a client of \<open>J\<close>, \<open>m\<close> only adds to the log, and its result, the client it
  leaves and what it added are in \<open>\<Phi>\<close>.
\<close>

named_theorems report_rules \<open>results and reports of the steps of a client\<close>

definition reports :: "('k Client \<Rightarrow> bool) \<Rightarrow> (bool res \<Rightarrow> 'k Client \<Rightarrow> call list \<Rightarrow> bool) \<Rightarrow>
  ('k botRun, bool) go \<Rightarrow> bool" where
  "reports J \<Phi> m \<longleftrightarrow> (\<forall>c out. J c \<longrightarrow> (\<exists>r d more. m (c, out) = (r, (d, out @ more)) \<and> \<Phi> r d more))"

text \<open>
  One attempt: \<open>J\<close> and \<open>K\<close> are what always holds before and after the step, \<open>R\<close> and \<open>R'\<close> how the client
  came there.
\<close>

lemma reports_attempt:
  fixes step :: "('k Client, unit) go"
  assumes "goes p J (\<lambda>_. True) K step"
    and "\<And>c d. p \<Longrightarrow> J c \<Longrightarrow> R c \<Longrightarrow> step c = (Inl Panic, d) \<Longrightarrow> J d \<Longrightarrow> \<Phi> (Inl Panic) d []"
    and "\<And>c e d. J c \<Longrightarrow> R c \<Longrightarrow> step c = (Inl (Error e), d) \<Longrightarrow> J d \<Longrightarrow> \<Phi> (Inr False) d [report e]"
    and "\<And>c d. J c \<Longrightarrow> R c \<Longrightarrow> step c = (Inr (), d) \<Longrightarrow> R' d"
    and "reports (\<lambda>d. K d \<and> R' d) \<Phi> rest"
  shows "reports (\<lambda>c. J c \<and> R c) \<Phi> (attempt step report rest)"
  unfolding reports_def
proof (intro allI impI, elim conjE)
  fix c :: "'k Client" and out
  assume c: "J c" "R c"
  obtain r d where m: "step c = (r, d)" by (cases "step c")
  show "\<exists>r d more. attempt step report rest (c, out) = (r, (d, out @ more)) \<and> \<Phi> r d more"
  proof (cases r)
    case (Inl e)
    note end_ = goes_Inl [OF assms(1) c(1) m [unfolded Inl]]
    with m Inl assms(2) [of c d] assms(3) [of c _ d] c show ?thesis
      by (cases e) (auto simp: attempt_def)
  next
    case (Inr u)
    from m Inr have u: "step c = (Inr (), d)" by simp
    from goes_Inr [OF assms(1) c(1) u] assms(4) [OF c u] assms(5) obtain r' d' more
      where "rest (d, out) = (r', (d', out @ more))" "\<Phi> r' d' more"
      unfolding reports_def by blast
    with u show ?thesis by (auto simp: attempt_def)
  qed
qed

lemma reports_say:
  "reports J (\<lambda>r d more. \<Phi> r d (a # more)) rest \<Longrightarrow> reports J \<Phi> (andThen (say a) (\<lambda>_. rest))"
  unfolding reports_def say_def by (simp add: andThen_def modifyS_def) (metis append.assoc append_Cons append_Nil)

lemma reports_ret: "(\<And>d. J d \<Longrightarrow> \<Phi> (Inr b) d []) \<Longrightarrow> reports J \<Phi> (ret b)"
  by (auto simp: reports_def)

lemma reports_then:
  assumes "reports J (\<lambda>r d more. r = Inr True \<and> more = xs \<and> K d \<or> r \<noteq> Inr True \<and> \<Phi> r d more) m"
    and "reports K (\<lambda>r d more. \<Phi> r d (xs @ more)) n"
  shows "reports J \<Phi> (andThen m (\<lambda>ok. if ok then n else ret False))"
  unfolding reports_def
proof (intro allI impI)
  fix c :: "'a Client" and out
  assume "J c"
  with assms(1) obtain r d more where m: "m (c, out) = (r, (d, out @ more))"
    "r = Inr True \<and> more = xs \<and> K d \<or> r \<noteq> Inr True \<and> \<Phi> r d more"
    unfolding reports_def by blast
  show "\<exists>r d more. andThen m (\<lambda>ok. if ok then n else ret False) (c, out) = (r, (d, out @ more)) \<and> \<Phi> r d more"
  proof (cases "r = Inr True")
    case True
    with m(2) assms(2) obtain r' d' more' where
      "n (d, out @ more) = (r', (d', (out @ more) @ more'))" "\<Phi> r' d' (xs @ more')"
      unfolding reports_def by blast
    with True m show ?thesis by (auto simp: andThen_def)
  next
    case False
    with m show ?thesis by (cases r) (auto simp: andThen_def)
  qed
qed

text \<open>What a \<open>goes\<close> fact says of the states carries over to what a steady operation keeps.\<close>

lemma goes_steady:
  fixes m :: "('k Client, 'a) go"
  assumes "goes p J \<phi> K m" and "keeps steady m" and "\<And>c d. steady c d \<Longrightarrow> R c \<Longrightarrow> R d"
  shows "goes p (\<lambda>c. J c \<and> R c) \<phi> (\<lambda>c. K c \<and> R c) m"
proof -
  have R: "R c \<Longrightarrow> m c = (r, d) \<Longrightarrow> R d" for c d r
    using keepsD [OF assms(2), of c] assms(3) by (metis snd_conv)
  show ?thesis
    by (rule goesI) (use goes_Inr [OF assms(1)] goes_Inl [OF assms(1)] R in blast)+
qed

section \<open>The phases of a client\<close>

text \<open>Before the game server: nothing is open there, the target list is empty, and whatever is closed stays so.\<close>

definition before_game :: "'k Client \<Rightarrow> bool" where
  "before_game c \<longleftrightarrow> (c_conn c \<or> closed (ls_sock c)) \<and> \<not> c_gsConn c \<and> closed (gs_sock c) \<and>
     c_npcs c = [] \<and> c_npcsNext c = 0"

definition at_game :: "'k Client \<Rightarrow> bool" where
  "at_game c \<longleftrightarrow> holds_game c \<and> c_npcs c = [] \<and> c_npcsNext c = 0"

lemma phases_steady:
  "steady c d \<Longrightarrow> before_game c \<Longrightarrow> before_game d" "steady c d \<Longrightarrow> at_game c \<Longrightarrow> at_game d"
  by (simp_all add: steady_def before_game_def at_game_def holds_game_def)

text \<open>Every connection the client ever opened is closed after \<open>Close\<close>.\<close>

definition tidy :: "'k Client \<Rightarrow> bool" where
  "tidy c \<longleftrightarrow> (c_conn c \<or> closed (ls_sock c)) \<and> (c_gsConn c \<or> closed (gs_sock c))"

lemma tidy_phases: "before_game c \<Longrightarrow> tidy c" "at_game c \<Longrightarrow> tidy c" "in_world c \<Longrightarrow> tidy c"
  by (auto simp: tidy_def before_game_def at_game_def in_world_def holds_game_def)

lemma Close_tidy: "tidy c \<Longrightarrow> closed (ls_sock (Close c)) \<and> closed (gs_sock (Close c))"
  by (auto simp: Close_def tidy_def conn_close_def Let_def)

lemma Close_State [simp]: "c_State (Close c) = c_State c"
  by (simp add: Close_def Let_def)

lemmas goes_before = goes_steady [where R = before_game, OF _ _ phases_steady(1)]
lemmas goes_at = goes_steady [where R = at_game, OF _ _ phases_steady(2)]

lemma goes_Connect:
  "runs (\<lambda>c. c = NewClient addr account password key) (\<lambda>_. True)
     (\<lambda>c. inv_in StateConnected c \<and> before_game c) (Connect dial)"
  by (auto simp: runs_def Connect_def NewClient_def inv_in_def client_inv_def wf_client_def in_login_def
      in_game_def before_game_def no_conn_def wf_crypt_preserved split: sum.splits)

definition servers_ok :: "'k Client \<Rightarrow> bool" where
  "servers_ok c \<longleftrightarrow> (\<forall>s \<in> set (c_Servers c). length (srvIP s) = 4)"

lemma DecodeServerList_ips:
  assumes "DecodeServerList data = Inr sl" and "s \<in> set (Servers sl)"
  shows "length (srvIP s) = 4"
proof -
  obtain n where n: "decode_servers n data 3 = Inr (Servers sl)"
    using assms(1) by (auto simp: DecodeServerList_def rbind_Inr_iff split: if_splits)
  from assms(2) obtain i where i: "i < length (Servers sl)" "s = Servers sl ! i"
    by (auto simp: in_set_conv_nth)
  note at = decode_servers_nth [OF n i(1)]
  with decode_server_total [of "3 + 21 * i" data] i(2) show ?thesis by auto
qed

lemma FetchServerList_servers: "FetchServerList L c = (Inr u, d) \<Longrightarrow> servers_ok d"
  unfolding FetchServerList_def servers_ok_def
  by (auto split: if_splits elim!: andThen_InrE) (blast intro: DecodeServerList_ips)

lemma goes_ConnectGame:
  assumes "length ip = 4"
  shows "runs (\<lambda>c. inv_in StateLoggedIn c \<and> before_game c) (\<lambda>_. True)
    (\<lambda>c. gs_in {StateGSConnected} c \<and> at_game c) (ConnectToGameServer dial ip port)"
proof -
  obtain a b d e where ip: "ip = [a, b, d, e]"
    using assms by (auto simp: length_Suc_conv eval_nat_numeral)
  show ?thesis
    unfolding runs_def ip
    by (auto simp: ConnectToGameServer_def format_addr_ok inv_in_def client_inv_def wf_client_def before_game_def
        at_game_def holds_game_def gs_in_def game_inv_def in_login_def in_game_def conn_close_def split: sum.splits)
qed

section \<open>From its creation to its end\<close>

text \<open>
  How far a client of the fleet has come, and the clients it can be there: \<open>reaches w cfg who p c\<close>
  says that client number \<open>who\<close> is \<open>c\<close> when all the operations up to the phase \<open>p\<close> have succeeded.
\<close>

datatype phase = Fresh | Dialled | Keyed | Guarded | LoggedIn | Listed | Chosen GameServer | AtGame

inductive reaches :: "('k, 'f) surroundings \<Rightarrow> botConfig \<Rightarrow> nat \<Rightarrow> phase \<Rightarrow> 'k Client \<Rightarrow> bool"
  for w :: "('k, 'f) surroundings" and cfg :: botConfig and who :: nat where
  fresh: "reaches w cfg who Fresh (NewClient (bc_addr cfg) (cr_user (bc_creds cfg ! who))
    (cr_pass (bc_creds cfg ! who)) (bc_staticKey cfg))"
| dialled: "reaches w cfg who Fresh c \<Longrightarrow> Connect (s_login w) c = (Inr (), d) \<Longrightarrow> reaches w cfg who Dialled d"
| keyed: "reaches w cfg who Dialled c \<Longrightarrow> HandleInit (s_lib w) c = (Inr (), d) \<Longrightarrow> reaches w cfg who Keyed d"
| guarded: "reaches w cfg who Keyed c \<Longrightarrow> SendAuthGG (s_lib w) c = (Inr (), d) \<Longrightarrow> reaches w cfg who Guarded d"
| logged_in: "reaches w cfg who Guarded c \<Longrightarrow> Login (s_lib w) c = (Inr (), d) \<Longrightarrow> reaches w cfg who LoggedIn d"
| listed: "reaches w cfg who LoggedIn c \<Longrightarrow> FetchServerList (s_lib w) c = (Inr (), d) \<Longrightarrow>
    reaches w cfg who Listed d"
| chosen: "reaches w cfg who Listed c \<Longrightarrow> c_Servers c \<noteq> [] \<Longrightarrow>
    s = c_Servers c ! pick_server (bc_serverIdx cfg) (length (c_Servers c)) \<Longrightarrow>
    SelectServer (s_lib w) (srvID s) c = (Inr (), d) \<Longrightarrow> reaches w cfg who (Chosen s) d"
| at_game_server: "reaches w cfg who (Chosen s) c \<Longrightarrow>
    ConnectToGameServer (s_game w) (srvIP s) (srvPort s) c = (Inr (), d) \<Longrightarrow> reaches w cfg who AtGame d"

text \<open>
  The ends of a client, each with its result and its whole log: the operation that failed and its
  error, the two panics, and the two successes. No other operation has a rule for a panic.
\<close>

inductive bot_ends :: "('k, 'f) surroundings \<Rightarrow> botConfig \<Rightarrow> nat \<Rightarrow> bool res \<Rightarrow> 'k Client \<Rightarrow> call list \<Rightarrow> bool"
  for w :: "('k, 'f) surroundings" and cfg :: botConfig and who :: nat where
  dial_fails: "reaches w cfg who Fresh c \<Longrightarrow> Connect (s_login w) c = (Inl (Error e), d) \<Longrightarrow>
    bot_ends w cfg who (Inr False) d
      [CLogErr (cr_user (bc_creds cfg ! who)) ''Connection to Login Server failed'' (Some e)]"
| init_fails: "reaches w cfg who Dialled c \<Longrightarrow> HandleInit (s_lib w) c = (Inl (Error e), d) \<Longrightarrow>
    bot_ends w cfg who (Inr False) d
      [CLogErr (cr_user (bc_creds cfg ! who)) ''Login Server handshake failed'' (Some e)]"
| init_panics: "reaches w cfg who Dialled c \<Longrightarrow> HandleInit (s_lib w) c = (Inl Panic, d) \<Longrightarrow>
    bot_ends w cfg who (Inl Panic) d []"
| guard_fails: "reaches w cfg who Keyed c \<Longrightarrow> SendAuthGG (s_lib w) c = (Inl (Error e), d) \<Longrightarrow>
    bot_ends w cfg who (Inr False) d
      [CLogErr (cr_user (bc_creds cfg ! who)) ''GameGuard verification failed'' (Some e)]"
| login_fails: "reaches w cfg who Guarded c \<Longrightarrow> Login (s_lib w) c = (Inl (Error e), d) \<Longrightarrow>
    bot_ends w cfg who (Inr False) d [CLog (cr_user (bc_creds cfg ! who)) (''LOGIN FAILED: '' @ e)]"
| list_fails: "reaches w cfg who LoggedIn c \<Longrightarrow> FetchServerList (s_lib w) c = (Inl (Error e), d) \<Longrightarrow>
    bot_ends w cfg who (Inr False) d [CLog (cr_user (bc_creds cfg ! who)) ''Login successful'',
      CLogErr (cr_user (bc_creds cfg ! who)) ''Failed to retrieve server list'' (Some e)]"
| no_server: "reaches w cfg who Listed c \<Longrightarrow> c_Servers c = [] \<Longrightarrow>
    bot_ends w cfg who (Inr False) c [CLog (cr_user (bc_creds cfg ! who)) ''Login successful'',
      CLog (cr_user (bc_creds cfg ! who)) ''ERROR: No servers available in list'']"
| select_fails: "reaches w cfg who Listed c \<Longrightarrow> c_Servers c \<noteq> [] \<Longrightarrow>
    s = c_Servers c ! pick_server (bc_serverIdx cfg) (length (c_Servers c)) \<Longrightarrow>
    SelectServer (s_lib w) (srvID s) c = (Inl (Error e), d) \<Longrightarrow>
    bot_ends w cfg who (Inr False) d [CLog (cr_user (bc_creds cfg ! who)) ''Login successful'',
      CLogErr (cr_user (bc_creds cfg ! who)) ''Server selection failed'' (Some e)]"
| game_dial_fails: "reaches w cfg who (Chosen s) c \<Longrightarrow>
    ConnectToGameServer (s_game w) (srvIP s) (srvPort s) c = (Inl (Error e), d) \<Longrightarrow>
    bot_ends w cfg who (Inr False) d [CLog (cr_user (bc_creds cfg ! who)) ''Login successful'',
      CLogErr (cr_user (bc_creds cfg ! who)) ''Connection to Game Server failed'' (Some e)]"
| scenario_fails: "reaches w cfg who AtGame c \<Longrightarrow> bc_scenario cfg \<noteq> '''' \<Longrightarrow>
    RunScenario (bc_scenario cfg) (StarterClasses ! (who mod length StarterClasses)) c = (Inl (Error e), d) \<Longrightarrow>
    bot_ends w cfg who (Inr False) d [CLog (cr_user (bc_creds cfg ! who)) ''Login successful'',
      CLogErr (cr_user (bc_creds cfg ! who)) ''SCENARIO FAILED'' (Some e)]"
| scenario_passes: "reaches w cfg who AtGame c \<Longrightarrow> bc_scenario cfg \<noteq> '''' \<Longrightarrow>
    RunScenario (bc_scenario cfg) (StarterClasses ! (who mod length StarterClasses)) c = (Inr (), d) \<Longrightarrow>
    c_State d = StateGSLoggedIn \<Longrightarrow>
    bot_ends w cfg who (Inr True) d [CLog (cr_user (bc_creds cfg ! who)) ''Login successful'',
      CLog (cr_user (bc_creds cfg ! who)) ''SCENARIO PASS'']"
| auth_fails: "reaches w cfg who AtGame c \<Longrightarrow> bc_scenario cfg = '''' \<Longrightarrow>
    AuthGameServer (s_coin w) c = (Inl (Error e), d) \<Longrightarrow>
    bot_ends w cfg who (Inr False) d [CLog (cr_user (bc_creds cfg ! who)) ''Login successful'',
      CLogErr (cr_user (bc_creds cfg ! who)) ''Game Server authentication failed'' (Some e)]"
| auth_panics: "reaches w cfg who AtGame c \<Longrightarrow> bc_scenario cfg = '''' \<Longrightarrow>
    AuthGameServer (s_coin w) c = (Inl Panic, d) \<Longrightarrow>
    bot_ends w cfg who (Inl Panic) d [CLog (cr_user (bc_creds cfg ! who)) ''Login successful'']"
| plays: "reaches w cfg who AtGame c \<Longrightarrow> bc_scenario cfg = '''' \<Longrightarrow>
    AuthGameServer (s_coin w) c = (Inr (), b) \<Longrightarrow> play w (bc_stationary cfg) b = (Inr (), d) \<Longrightarrow>
    c_State d = StateGSLoggedIn \<Longrightarrow>
    bot_ends w cfg who (Inr True) d [CLog (cr_user (bc_creds cfg ! who)) ''Login successful'',
      CLog (cr_user (bc_creds cfg ! who)) ''SUCCESS: Entered game world'']"

lemmas early_ends = dial_fails init_fails init_panics guard_fails login_fails list_fails
lemmas game_ends = game_dial_fails scenario_fails auth_fails auth_panics

lemma tidy_NewClient [simp]: "tidy (NewClient addr account password key)"
  by (simp add: tidy_def NewClient_def no_conn_def)

lemma goes_servers:
  assumes "cipher_laws L"
  shows "runs (\<lambda>c. inv_in StateLoggedIn c \<and> before_game c) (\<lambda>_. True)
    (\<lambda>c. (inv_in StateLoggedIn c \<and> before_game c) \<and> servers_ok c) (FetchServerList L)"
proof -
  note run = goes_before [OF runs_FetchServerList [OF assms] steady_login(4)]
  show ?thesis
  proof (rule runsI)
    fix s x t
    assume J: "inv_in StateLoggedIn s \<and> before_game s" and m: "FetchServerList L s = (Inr x, t)"
    show "True \<and> (inv_in StateLoggedIn t \<and> before_game t) \<and> servers_ok t"
      using runs_Inr [OF run J m] FetchServerList_servers [OF m] by simp
  next
    fix s e t
    assume J: "inv_in StateLoggedIn s \<and> before_game s" and m: "FetchServerList L s = (Inl e, t)"
    show "e \<noteq> Panic \<and> inv_in StateLoggedIn t \<and> before_game t"
      by (rule runs_Inl [OF run J m])
  qed
qed

lemma pipeline_reports:
  assumes L: "cipher_laws (s_lib w)"
  shows "reports (\<lambda>c. c = NewClient (bc_addr cfg) (cr_user (bc_creds cfg ! who)) (cr_pass (bc_creds cfg ! who))
      (bc_staticKey cfg) \<and> reaches w cfg who Fresh c)
    (\<lambda>r d more. r = Inr True \<and> more = [CLog (cr_user (bc_creds cfg ! who)) ''Login successful''] \<and>
       (((inv_in StateLoggedIn d \<and> before_game d) \<and> servers_ok d) \<and> reaches w cfg who Listed d) \<or>
       r \<noteq> Inr True \<and> tidy d \<and> bot_ends w cfg who r d more)
    (loginPipeline (s_lib w) (s_login w) (cr_user (bc_creds cfg ! who)))"
  unfolding loginPipeline_def
  by (rule reports_attempt [where R' = "reaches w cfg who Dialled", OF goes_Connect]
      reports_attempt [where R' = "reaches w cfg who Keyed", OF goes_before [OF goes_HandleInit [OF L] steady_login(1)]]
      reports_attempt [where R' = "reaches w cfg who Guarded", OF goes_before [OF runs_SendAuthGG [OF L] steady_login(2)]]
      reports_attempt [where R' = "reaches w cfg who LoggedIn", OF goes_before [OF runs_Login [OF L] steady_login(3)]]
      reports_attempt [where R' = "reaches w cfg who Listed", OF goes_servers [OF L]] reports_say reports_ret
    | erule (1) reaches.intros
    | simp add: tidy_phases failed_def; fail
    | simp add: tidy_phases failed_def early_ends [simplified]; fail)+

lemma at_world: "gs_in {StateGSLoggedIn} c \<Longrightarrow> at_game c \<Longrightarrow> in_world c"
  by (simp add: in_world_def at_game_def targets_ok_def)

lemma in_world_State: "in_world c \<Longrightarrow> c_State c = StateGSLoggedIn"
  by (simp add: in_world_def gs_in_def)

lemma play_in_world: "in_world c \<Longrightarrow> \<exists>d. play w stationary c = (Inr (), d) \<and> in_world d"
  using RunGameLoop_run [of c "s_floats w" stationary "s_idle w" "s_sched w"] by (auto simp: play_def)

lemma reports_play:
  assumes "\<And>c d. in_world c \<Longrightarrow> R c \<Longrightarrow> play w stationary c = (Inr (), d) \<Longrightarrow> in_world d \<Longrightarrow> \<Phi> (Inr True) d []"
  shows "reports (\<lambda>c. in_world c \<and> R c) \<Phi> (andThen (on_client (play w stationary)) (\<lambda>_. ret True))"
  unfolding reports_def
proof (intro allI impI, elim conjE)
  fix c :: "'a Client" and out
  assume c: "in_world c" "R c"
  from play_in_world [OF c(1), of w stationary] obtain d
    where "play w stationary c = (Inr (), d)" "in_world d" by blast
  with assms c show "\<exists>r d more. andThen (on_client (play w stationary)) (\<lambda>_. ret True) (c, out) =
      (r, d, out @ more) \<and> \<Phi> r d more"
    by (simp add: andThen_def on_client_def ret_def)
qed

lemma reports_weaken: "reports K \<Phi> m \<Longrightarrow> (\<And>c. J c \<Longrightarrow> K c) \<Longrightarrow> reports J \<Phi> m"
  by (simp add: reports_def)

lemma reports_read:
  "(\<And>c. J c \<Longrightarrow> reports (\<lambda>c'. J c' \<and> c' = c) \<Phi> (f c)) \<Longrightarrow> reports J \<Phi> (andThen getS (\<lambda>(c, out). f c))"
  by (simp add: reports_def andThen_def getS_def)

lemma reports_if:
  "(b \<Longrightarrow> reports J \<Phi> m) \<Longrightarrow> (\<not> b \<Longrightarrow> reports J \<Phi> n) \<Longrightarrow> reports J \<Phi> (if b then m else n)"
  by simp

text \<open>What the second half of a client reports, its login behind it.\<close>

abbreviation ends_well :: "('k, 'f) surroundings \<Rightarrow> botConfig \<Rightarrow> nat \<Rightarrow> bool res \<Rightarrow> 'k Client \<Rightarrow> call list \<Rightarrow> bool" where
  "ends_well w cfg who \<equiv> \<lambda>r d more. tidy d \<and>
     bot_ends w cfg who r d (CLog (cr_user (bc_creds cfg ! who)) ''Login successful'' # more)"

abbreviation game_reached :: "('k, 'f) surroundings \<Rightarrow> botConfig \<Rightarrow> nat \<Rightarrow> 'k Client \<Rightarrow> bool" where
  "game_reached w cfg who \<equiv> \<lambda>c. (gs_in {StateGSConnected} c \<and> at_game c) \<and> reaches w cfg who AtGame c"

abbreviation servers_known :: "('k, 'f) surroundings \<Rightarrow> botConfig \<Rightarrow> nat \<Rightarrow> 'k Client \<Rightarrow> bool" where
  "servers_known w cfg who \<equiv>
     \<lambda>c. ((inv_in StateLoggedIn c \<and> before_game c) \<and> servers_ok c) \<and> reaches w cfg who Listed c"

lemma scenario_reports:
  assumes "bc_scenario cfg \<noteq> ''''"
  shows "reports (game_reached w cfg who) (ends_well w cfg who)
      (attempt (RunScenario (bc_scenario cfg) (StarterClasses ! (who mod length StarterClasses)))
        (failed (cr_user (bc_creds cfg ! who)) ''SCENARIO FAILED'') (
       andThen (say (CLog (cr_user (bc_creds cfg ! who)) ''SCENARIO PASS'')) (\<lambda>_. ret True)))"
proof (rule reports_weaken)
  let ?cls = "StarterClasses ! (who mod length StarterClasses)"
  show "reports (\<lambda>c. (gs_in lobby c \<and> at_game c) \<and> reaches w cfg who AtGame c) (ends_well w cfg who)
      (attempt (RunScenario (bc_scenario cfg) ?cls) (failed (cr_user (bc_creds cfg ! who)) ''SCENARIO FAILED'') (
       andThen (say (CLog (cr_user (bc_creds cfg ! who)) ''SCENARIO PASS'')) (\<lambda>_. ret True)))"
    by (rule reports_attempt [where R' = "\<lambda>d. \<exists>c. reaches w cfg who AtGame c \<and>
          RunScenario (bc_scenario cfg) ?cls c = (Inr (), d)", OF goes_at [OF runs_RunScenario steady_RunScenario]]
        reports_say reports_ret
      | use assms in \<open>auto simp: tidy_phases failed_def gs_in_def intro: scenario_fails [simplified]
          scenario_passes [simplified]\<close>; fail)+
qed (auto simp: gs_in_def)

lemma game_reports:
  assumes "bc_scenario cfg = ''''"
  shows "reports (game_reached w cfg who) (ends_well w cfg who)
      (attempt (AuthGameServer (s_coin w))
        (failed (cr_user (bc_creds cfg ! who)) ''Game Server authentication failed'') (
       andThen (say (CLog (cr_user (bc_creds cfg ! who)) ''SUCCESS: Entered game world'')) (\<lambda>_.
       andThen (on_client (play w (bc_stationary cfg))) (\<lambda>_. ret True))))"
proof (rule reports_weaken)
  let ?entered = "\<lambda>d. \<exists>c. reaches w cfg who AtGame c \<and> AuthGameServer (s_coin w) c = (Inr (), d)"
  have world: "reports (\<lambda>c. (gs_in {StateGSLoggedIn} c \<and> at_game c) \<and> ?entered c) (ends_well w cfg who)
     (andThen (say (CLog (cr_user (bc_creds cfg ! who)) ''SUCCESS: Entered game world'')) (\<lambda>_.
      andThen (on_client (play w (bc_stationary cfg))) (\<lambda>_. ret True)))"
    by (rule reports_say, rule reports_weaken [OF reports_play [where R = ?entered]])
      (use assms in \<open>auto simp: at_world tidy_phases in_world_State intro: plays [simplified]\<close>)
  show "reports (\<lambda>c. (gs_in {StateGSConnected, StateGSHandshake} c \<and> at_game c) \<and> reaches w cfg who AtGame c)
      (ends_well w cfg who)
      (attempt (AuthGameServer (s_coin w))
        (failed (cr_user (bc_creds cfg ! who)) ''Game Server authentication failed'') (
       andThen (say (CLog (cr_user (bc_creds cfg ! who)) ''SUCCESS: Entered game world'')) (\<lambda>_.
       andThen (on_client (play w (bc_stationary cfg))) (\<lambda>_. ret True))))"
    by (rule reports_attempt [where R' = ?entered, OF goes_at [OF goes_AuthGameServer steady_Auth] _ _ _ world])
      (use assms in \<open>auto simp: tidy_phases failed_def intro: auth_fails [simplified] auth_panics [simplified]\<close>)
qed (auto simp: gs_in_def)

lemma server_reports:
  assumes "cipher_laws (s_lib w)" and "length (srvIP s) = 4"
    and "reports (game_reached w cfg who) (ends_well w cfg who) rest"
  shows "reports (\<lambda>c. (inv_in StateLoggedIn c \<and> before_game c) \<and> (reaches w cfg who Listed c \<and> c_Servers c \<noteq> [] \<and>
        s = c_Servers c ! pick_server (bc_serverIdx cfg) (length (c_Servers c)))) (ends_well w cfg who)
     (attempt (SelectServer (s_lib w) (srvID s)) (failed (cr_user (bc_creds cfg ! who)) ''Server selection failed'') (
      attempt (ConnectToGameServer (s_game w) (srvIP s) (srvPort s))
       (failed (cr_user (bc_creds cfg ! who)) ''Connection to Game Server failed'') rest))"
  by (rule reports_attempt [where R' = "reaches w cfg who (Chosen s)",
          OF goes_before [OF runs_SelectServer [OF assms(1)] steady_login(5)]]
      reports_attempt [where R' = "reaches w cfg who AtGame", OF goes_ConnectGame [OF assms(2)]] assms(3)
    | auto simp: tidy_phases failed_def intro: select_fails [simplified] game_dial_fails [simplified]
        chosen at_game_server; fail)+

lemma enterGame_reports:
  fixes w :: "('k, 'f) surroundings"
  assumes L: "cipher_laws (s_lib w)"
  shows "reports (servers_known w cfg who) (ends_well w cfg who)
    (enterGame w who cfg (cr_user (bc_creds cfg ! who)))"
  unfolding enterGame_def Let_def
proof (rule reports_read, rule reports_if)
  fix c :: "'k Client"
  let ?account = "cr_user (bc_creds cfg ! who)"
  assume c: "servers_known w cfg who c"
  show "reports (\<lambda>c'. servers_known w cfg who c' \<and> c' = c) (ends_well w cfg who)
      (andThen (say (CLog ?account ''ERROR: No servers available in list'')) (\<lambda>_. ret False))"
    if "length (c_Servers c) = 0"
    by (rule reports_say, rule reports_ret) (use that in \<open>auto simp: tidy_phases intro: no_server [simplified]\<close>)
  let ?s = "c_Servers c ! pick_server (bc_serverIdx cfg) (length (c_Servers c))"
  assume some: "length (c_Servers c) \<noteq> 0"
  with c have "length (srvIP ?s) = 4"
    using pick_server_less [of "length (c_Servers c)" "bc_serverIdx cfg"] by (auto simp: servers_ok_def)
  then show "reports (\<lambda>c'. servers_known w cfg who c' \<and> c' = c) (ends_well w cfg who)
     (attempt (SelectServer (s_lib w) (srvID ?s)) (failed ?account ''Server selection failed'') (
      attempt (ConnectToGameServer (s_game w) (srvIP ?s) (srvPort ?s))
        (failed ?account ''Connection to Game Server failed'') (
      if bc_scenario cfg \<noteq> ''''
      then attempt (RunScenario (bc_scenario cfg) (StarterClasses ! (who mod length StarterClasses)))
        (failed ?account ''SCENARIO FAILED'') (
        andThen (say (CLog ?account ''SCENARIO PASS'')) (\<lambda>_. ret True))
      else attempt (AuthGameServer (s_coin w)) (failed ?account ''Game Server authentication failed'') (
        andThen (say (CLog ?account ''SUCCESS: Entered game world'')) (\<lambda>_.
        andThen (on_client (play w (bc_stationary cfg))) (\<lambda>_. ret True))))))"
    by (intro reports_weaken [OF server_reports [OF L]] reports_if scenario_reports game_reports)
      (use some in simp_all)
qed

lemma ramp_delay_safe: "\<exists>delay. ramp_delay cfg who draw = Inr delay \<and>
    (delay \<noteq> None \<longrightarrow> 0 < sint (bc_ramp cfg) \<and> 1 < sint (bc_count cfg))"
  by (auto simp: ramp_delay_def Let_def Int64N_def)

text \<open>
  C5. One client of the fleet from its creation to its end, whatever the servers send. Without a client
  it ends only when it is cancelled during a ramp delay, with nothing logged. Otherwise every connection it opened
  is closed, and \<open>bot_ends\<close> says which operation ended it: the log holds exactly the message and the
  error of the operation that failed, or the success line when the client is in the world. The only panics are
  those of \<open>HandleInit\<close>, with an empty log, and, without a scenario, of \<open>AuthGameServer\<close>.
\<close>

theorem runBot_outcome:
  fixes w :: "('k, 'f) surroundings"
  assumes "cipher_laws (s_lib w)" and "who < length (bc_creds cfg)"
  shows "case runBot w cfg who of
      (r, (None, out)) \<Rightarrow> r = Inr False \<and> out = [] \<and> s_rampCancelled w \<and>
        0 < sint (bc_ramp cfg) \<and> 1 < sint (bc_count cfg)
    | (r, (Some c, out)) \<Rightarrow> closed (ls_sock c) \<and> closed (gs_sock c) \<and>
        (\<exists>d. c = Close d \<and> bot_ends w cfg who r d out) \<and>
        (r = Inr True \<longrightarrow> c_State c = StateGSLoggedIn) \<and>
        (r = Inl Panic \<longrightarrow>
          out = [] \<and> (\<exists>b. reaches w cfg who Dialled b \<and> fst (HandleInit (s_lib w) b) = Inl Panic) \<or>
          bc_scenario cfg = '''' \<and>
            (\<exists>b. reaches w cfg who AtGame b \<and> fst (AuthGameServer (s_coin w) b) = Inl Panic))"
proof -
  let ?account = "cr_user (bc_creds cfg ! who)"
  let ?c = "NewClient (bc_addr cfg) ?account (cr_pass (bc_creds cfg ! who)) (bc_staticKey cfg) :: 'k Client"
  let ?run = "andThen (loginPipeline (s_lib w) (s_login w) ?account)
    (\<lambda>ok. if ok then enterGame w who cfg ?account else ret False)"
  have "reports (\<lambda>c. c = ?c \<and> reaches w cfg who Fresh c) (\<lambda>r d more. tidy d \<and> bot_ends w cfg who r d more) ?run"
    by (rule reports_then [OF pipeline_reports [OF assms(1)]]) (use enterGame_reports [OF assms(1)] in simp)
  moreover have "?c = ?c \<and> reaches w cfg who Fresh ?c" by (simp add: reaches.fresh)
  ultimately obtain r d out where run: "?run (?c, []) = (r, (d, out))" "tidy d" "bot_ends w cfg who r d out"
    unfolding reports_def by (metis append_Nil)
  have in_world: "r = Inr True \<Longrightarrow> c_State d = StateGSLoggedIn"
    using run(3) by (cases rule: bot_ends.cases) simp_all
  have panics: "r = Inl Panic \<Longrightarrow>
      out = [] \<and> (\<exists>b. reaches w cfg who Dialled b \<and> fst (HandleInit (s_lib w) b) = Inl Panic) \<or>
      bc_scenario cfg = '''' \<and> (\<exists>b. reaches w cfg who AtGame b \<and> fst (AuthGameServer (s_coin w) b) = Inl Panic)"
    using run(3) by (cases rule: bot_ends.cases) (simp_all; metis fst_conv)+
  obtain delay where delay: "ramp_delay cfg who (s_rampDraw w) = Inr delay"
    "delay \<noteq> None \<Longrightarrow> 0 < sint (bc_ramp cfg) \<and> 1 < sint (bc_count cfg)"
    using ramp_delay_safe [of cfg who "s_rampDraw w"] by blast
  show ?thesis
  proof (cases "delay \<noteq> None \<and> s_rampCancelled w")
    case True
    with delay show ?thesis by (auto simp: runBot_def)
  next
    case False
    with run(1) delay(1) assms(2) have "runBot w cfg who = (r, (Some (Close d), out))"
      by (auto simp: runBot_def Let_def)
    with Close_tidy [OF run(2)] run(3) in_world panics show ?thesis by auto
  qed
qed

text \<open>A client whose login server cannot be dialled has only one phase and one end.\<close>

lemma reaches_refused:
  assumes "s_login w = (\<lambda>_. Inl e)" and "reaches w cfg who p c"
  shows "p = Fresh"
  using assms(2) by (induction rule: reaches.induct) (simp_all add: assms(1) Connect_def)

lemma ends_refused:
  assumes "s_login w = (\<lambda>_. Inl e)" and "bot_ends w cfg who r d out"
  shows "r = Inr False \<and>
    out = [CLogErr (cr_user (bc_creds cfg ! who)) ''Connection to Login Server failed'' (Some e)]"
  using assms(2)
  by (cases rule: bot_ends.cases) (auto simp: assms(1) Connect_def dest: reaches_refused [OF assms(1)])

theorem runBot_outcome_witness:
  "\<exists>c. runBot \<lparr>s_lib = xor_lib, s_login = (\<lambda>_. Inl ''connection refused''),
       s_game = (\<lambda>_. Inl ''connection refused''), s_rampDraw = 0, s_rampCancelled = False, s_coin = 0,
       s_floats = sample_floats, s_sched = sample_sched [], s_idle = []\<rparr>
     \<lparr>bc_addr = ''localhost:2106'', bc_scenario = '''', bc_creds = [\<lparr>cr_user = ''bot'', cr_pass = ''pw''\<rparr>],
       bc_staticKey = [], bc_ramp = 0, bc_serverIdx = 1, bc_count = 1, bc_stationary = False\<rparr> 0 =
     (Inr False, (Some c, [CLogErr ''bot'' ''Connection to Login Server failed'' (Some ''connection refused'')])) \<and>
     closed (ls_sock c) \<and> closed (gs_sock c)"
proof -
  let ?w = "\<lparr>s_lib = xor_lib, s_login = (\<lambda>_. Inl ''connection refused''),
       s_game = (\<lambda>_. Inl ''connection refused''), s_rampDraw = 0, s_rampCancelled = False, s_coin = 0,
       s_floats = sample_floats, s_sched = sample_sched [], s_idle = []\<rparr>"
  let ?cfg = "\<lparr>bc_addr = ''localhost:2106'', bc_scenario = '''',
       bc_creds = [\<lparr>cr_user = ''bot'', cr_pass = ''pw''\<rparr>], bc_staticKey = [], bc_ramp = 0, bc_serverIdx = 1,
       bc_count = 1, bc_stationary = False\<rparr>"
  have laws: "cipher_laws (s_lib ?w)" using xor_lib_laws by simp
  have who: "0 < length (bc_creds ?cfg)" by simp
  have refused: "s_login ?w = (\<lambda>_. Inl ''connection refused'')" by simp
  obtain r c out where run: "runBot ?w ?cfg 0 = (r, (c, out))" by (metis prod.exhaust)
  from runBot_outcome [OF laws who] run show ?thesis
    by (cases c) (auto dest!: ends_refused [OF refused])
qed

end
