(* ===== verification/Spec2Isabelle.thy ===== *)
theory Spec2Isabelle
  imports Packet GameCrypt ServerCrypt LoginRsa Encoder LoginProtocol GameClient FleetProps
begin

text \<open>
  A model of l2go-headless-client, a load generator that plays a Lineage 2 client without graphics:
  it logs in at a login server, picks a game server, enters the world with a character and then
  acts at random, or runs one of four functional scenarios; a fleet runs many such clients.

  \<^bold>\<open>How the program is modelled.\<close> A Go function that may fail is a computation
  \<open>('s, 'a) go = 's \<Rightarrow> (fault + 'a) \<times> 's\<close> (theory \<open>Prelude\<close>): it always returns a state, and its result
  is a value, an \<open>Error\<close> with the message of the Go error, or a \<open>Panic\<close>. Every slice access the code
  makes without a check is a possible panic. \<open>uint32\<close>, \<open>int32\<close>, \<open>uint16\<close>, \<open>byte\<close> and, in the command
  line, \<open>int\<close> are words of their width; a string is its bytes. Slices that are written keep their
  capacity (\<open>gslice\<close> in \<open>GoLib\<close>), because \<open>Writer.Prepare\<close> hands out a part of a buffer that is reused.
  A TCP connection is the bytes still to arrive, the error that follows them, the bytes sent and
  the number of writes that still succeed, so that every theorem covers every server and every
  moment the connection may break, read deadlines included.

  \<^bold>\<open>The parts.\<close>
  \<^item> \<open>Packet\<close>: \<open>internal/net/packet.go\<close>, the length-prefixed framing with its reused buffers.
  \<^item> \<open>Channel\<close>: the locale \<open>packet_channel\<close>, the contract of an ordered packet stream; interpreted by
    the plain framing in \<open>Packet\<close> and by the encrypted game connection in \<open>GameClient\<close>.
  \<^item> \<open>GameCrypt\<close>, \<open>ServerCrypt\<close>, \<open>LoginRsa\<close>: \<open>internal/crypto\<close>; the rolling cipher of the game server
    (locale \<open>rolling_cipher\<close>), padding, checksum and XOR pass of the login server, the RSA key.
  \<^item> \<open>Encoder\<close>, \<open>LoginProtocol\<close>, \<open>GameEncode\<close>, \<open>GameDecode\<close>: \<open>internal/net/protocol.go\<close>. Every encoder
    interprets the locale \<open>packet_encoder\<close>: it writes exactly the bytes of a packet layout.
  \<^item> \<open>ClientState\<close>, \<open>LoginClient\<close>, \<open>GameClient\<close>: \<open>internal/client/client.go\<close> up to the world: the \<open>Client\<close>
    struct, \<open>Connect\<close> to \<open>ConnectToGameServer\<close>, \<open>HandshakeToLobby\<close> to \<open>AuthGameServer\<close>, \<open>Close\<close>, \<open>Logout\<close>.
  \<^item> \<open>GameView\<close>, \<open>ReadLoop\<close>, \<open>ActionLoop\<close>: the game loop. The target list is a ring buffer (locale
    \<open>bounded_targets\<close>); \<open>runReadLoop\<close> handles what arrives, \<open>runActionLoop\<close> acts.
  \<^item> \<open>Scenario\<close>: \<open>internal/client/scenario.go\<close>; \<open>Logger\<close>: \<open>internal/logger/logger.go\<close>; \<open>Fleet\<close>: \<open>cmd/main.go\<close>.
  \<^item> \<open>Traffic\<close>, \<open>BotTraffic\<close>, \<open>BotActions\<close>, \<open>ScenarioProps\<close>, \<open>Session\<close>, \<open>FleetProps\<close>: what holds of them together.

  \<^bold>\<open>What is shown.\<close>
  \<^item> The wire: packets, the game cipher and the character and server lists survive the way to the
    other end; the login encryption carries a correct checksum; each decoder either never panics or
    panics on exactly the stated packets.
  \<^item> The client: its invariant (\<open>client_inv\<close>, \<open>gs_in\<close>, \<open>in_world\<close>) holds after every operation, however it
    ends; handlers refuse in the wrong state and move along \<open>session_step\<close> only (\<open>Session\<close>); the exact
    bytes sent and the exact result are known for the login, the server choice and the handshake.
  \<^item> The game loop: whatever arrives, it returns without a panic, all it sends are requests of the bot,
    encrypted in turn, and then exactly the logout; a dead bot only taunts.
  \<^item> The two goroutines share the connection, the cipher and the target list. A turn of the read loop
    and a send of the action loop can be exchanged (\<open>read_send_commute\<close>): they touch different halves.
  \<^item> The scenarios: scenario B sends exactly its protocol; no scenario lets a panic through.
  \<^item> A client of the fleet, from its creation to \<open>Close\<close>: it closes what it opened and may panic
    in two places only; the relation \<open>bot_ends\<close> lists its possible ends, each with the operation that
    ended it and the whole log (\<open>runBot_outcome\<close>), which composes all of the above.

  The proofs share small calculi: \<open>goes\<close>/\<open>runs\<close> (invariants up to the last step of a handler),
  \<open>keeps\<close>/\<open>preserves\<close> (relations every outcome keeps), \<open>views\<close>, \<open>acts\<close> and \<open>makes\<close> (what a step sends),
  \<open>reports\<close> (what a step of the fleet logs), each with its collection of rules.

  \<^bold>\<open>Choices, schedules and termination.\<close> There is no fuel. Loops that wait for a packet end because
  each round uses up part of the stream, which is finite and then fails. The action loop takes its
  random draws, its clock and the end of each wait from a \<open>sched\<close>; the turns of the read loop are
  taken at the waits. A schedule has finitely many waits, after which the context is cancelled; as
  every turn waits at least once, \<open>n\<close> waits allow at most \<open>n + 1\<close> turns (\<open>actionLoop_turns\<close>).
  Every schedule is covered, so every finite run of the bot is.

  \<^bold>\<open>Parameters.\<close> The Blowfish library is a record of functions (\<open>cipher_lib\<close>) with \<open>cipher_laws\<close>: lengths
  are kept and deciphering inverts ciphering; \<open>xor_lib\<close> is an instance. The dialer is a function from
  an address to a refusal or a connection. The three floating-point expressions of the roaming are
  functions (\<open>floats\<close>), about which nothing is assumed. \<open>math/big\<close>
  is arithmetic on naturals.

  \<^bold>\<open>Not modelled.\<close> Flag parsing, signals and the clock, which are the environment; the lines the \<open>Client\<close>
  methods log, since nothing the client does depends on them; the half second \<open>Logout\<close> sleeps; data
  races at a finer grain than one packet read or sent; the part of a packet that a failing write may
  still put on the wire; the constructor error of the Blowfish library for a key of a bad length, which
  \<open>cipher_lib\<close> does not have; and the memory the Go runtime may run out of.
\<close>

end
